(* ===== verification/Ember_Prelude.thy ===== *)
theory Ember_Prelude
  imports Main "HOL-Library.Word" "HOL-Library.Multiset" "HOL-Library.Product_Lexorder"
begin

text \<open>
  Shared vocabulary of the development: machine integer types, Rust's saturating
  arithmetic, little-endian integers, a byte reader (the source's
  \<^verbatim>\<open>std::io::Read\<close> over an in-memory packet), \<^verbatim>\<open>BTreeMap\<close> as a sorted association
  list, and two interfaces stated as locales: \<open>wire_codec\<close> (a writer and a reader
  that undo each other) and \<open>guarded_system\<close> (a transition system whose steps keep
  an invariant).
\<close>

unbundle bit_operations_syntax

section \<open>Machine integers\<close>

type_synonym u8 = "8 word"
type_synonym u16 = "16 word"
type_synonym u32 = "32 word"
type_synonym u64 = "64 word"
type_synonym u128 = "128 word"
type_synonym bytes = "u8 list"

named_theorems wire_simps "equations that evaluate readers and writers"

text \<open>Counters of type \<^verbatim>\<open>u32\<close> are natural numbers with the saturation written out.\<close>

definition u32_max :: nat where
  "u32_max = 4294967295"

definition sat_inc32 :: "nat \<Rightarrow> nat" where
  "sat_inc32 n = min (n + 1) u32_max"

definition sat_dec32 :: "nat \<Rightarrow> nat" where
  "sat_dec32 n = n - 1"

text \<open>A hash map with \<^verbatim>\<open>u32\<close> counters: an absent key counts as zero.\<close>

definition count_of :: "('k \<rightharpoonup> nat) \<Rightarrow> 'k \<Rightarrow> nat" where
  "count_of m k = (case m k of None \<Rightarrow> 0 | Some n \<Rightarrow> n)"

definition count_inc :: "'k \<Rightarrow> ('k \<rightharpoonup> nat) \<Rightarrow> ('k \<rightharpoonup> nat)" where
  "count_inc k m = m(k \<mapsto> sat_inc32 (count_of m k))"

definition count_dec :: "'k \<Rightarrow> ('k \<rightharpoonup> nat) \<Rightarrow> ('k \<rightharpoonup> nat)" where
  "count_dec k m =
     (case m k of
        None \<Rightarrow> m
      | Some n \<Rightarrow> if sat_dec32 n = 0 then m(k := None) else m(k \<mapsto> sat_dec32 n))"

text \<open>The counter map that counts a list: what the incremental updates must agree with.\<close>

definition counts :: "'k list \<Rightarrow> ('k \<rightharpoonup> nat)" where
  "counts xs = (\<lambda>k. if k \<in> set xs then Some (count (mset xs) k) else None)"

section \<open>Little-endian integers\<close>

fun le_bytes :: "nat \<Rightarrow> nat \<Rightarrow> bytes" where
  "le_bytes 0 v = []"
| "le_bytes (Suc n) v = word_of_nat (v mod 256) # le_bytes n (v div 256)"

fun le_val :: "bytes \<Rightarrow> nat" where
  "le_val [] = 0"
| "le_val (b # bs) = unat b + 256 * le_val bs"

definition le16 :: "u16 \<Rightarrow> bytes" where "le16 w = le_bytes 2 (unat w)"
definition le32 :: "u32 \<Rightarrow> bytes" where "le32 w = le_bytes 4 (unat w)"
definition le64 :: "u64 \<Rightarrow> bytes" where "le64 w = le_bytes 8 (unat w)"

section \<open>Readers\<close>

text \<open>The kinds of \<^verbatim>\<open>std::io::Error\<close> the wire code produces.\<close>

datatype io_error = UnexpectedEof | InvalidData | InvalidInput | Other

type_synonym 'a reader = "bytes \<Rightarrow> io_error + ('a \<times> bytes)"

definition bind_r :: "io_error + 'a \<Rightarrow> ('a \<Rightarrow> io_error + 'b) \<Rightarrow> io_error + 'b" where
  "bind_r m f = (case m of Inl e \<Rightarrow> Inl e | Inr x \<Rightarrow> f x)"

definition read_exact :: "nat \<Rightarrow> bytes reader" where
  "read_exact n bs =
     (if n \<le> length bs then Inr (take n bs, drop n bs) else Inl UnexpectedEof)"

definition read_u8 :: "u8 reader" where
  "read_u8 bs = (case bs of [] \<Rightarrow> Inl UnexpectedEof | b # r \<Rightarrow> Inr (b, r))"

definition read_u16 :: "u16 reader" where
  "read_u16 bs = bind_r (read_exact 2 bs) (\<lambda>(x, r). Inr (word_of_nat (le_val x), r))"

definition read_u32 :: "u32 reader" where
  "read_u32 bs = bind_r (read_exact 4 bs) (\<lambda>(x, r). Inr (word_of_nat (le_val x), r))"

definition read_u64 :: "u64 reader" where
  "read_u64 bs = bind_r (read_exact 8 bs) (\<lambda>(x, r). Inr (word_of_nat (le_val x), r))"

text \<open>Read \<open>n\<close> items with one reader, stopping at the first error.\<close>

fun read_many :: "'a reader \<Rightarrow> nat \<Rightarrow> 'a list reader" where
  "read_many rd 0 bs = Inr ([], bs)"
| "read_many rd (Suc n) bs =
     bind_r (rd bs) (\<lambda>(x, r). bind_r (read_many rd n r) (\<lambda>(xs, r'). Inr (x # xs, r')))"

section \<open>Ordered maps\<close>

text \<open>
  \<^verbatim>\<open>BTreeMap\<close> as the list of its entries in key order: \<open>insert\<close> replaces the value of
  an equal key, \<open>pop_last\<close> drops the greatest key.
\<close>

fun btree_insert :: "'k::linorder \<Rightarrow> 'v \<Rightarrow> ('k \<times> 'v) list \<Rightarrow> ('k \<times> 'v) list" where
  "btree_insert k v [] = [(k, v)]"
| "btree_insert k v ((k', v') # m) =
     (if k < k' then (k, v) # (k', v') # m
      else if k = k' then (k, v) # m
      else (k', v') # btree_insert k v m)"

definition btree_pop_last :: "('k \<times> 'v) list \<Rightarrow> ('k \<times> 'v) list" where
  "btree_pop_last m = butlast m"

text \<open>\<^verbatim>\<open>while result.len() > max { result.pop_last(); }\<close>\<close>

function btree_truncate :: "nat \<Rightarrow> ('k \<times> 'v) list \<Rightarrow> ('k \<times> 'v) list" where
  "btree_truncate n m = (if n < length m then btree_truncate n (btree_pop_last m) else m)"
  by pat_completeness auto
termination
  by (relation "measure (\<lambda>(n, m). length m)") (auto simp: btree_pop_last_def)

declare btree_truncate.simps [simp del]

section \<open>Lemmas on counters\<close>

lemma count_of_counts: "count_of (counts xs) k = count (mset xs) k"
  by (simp add: count_of_def counts_def count_mset_0_iff)

lemma counts_Nil [simp]: "counts [] = Map.empty"
  by (rule ext) (simp add: counts_def)

lemma counts_mset_eq: "mset xs = mset ys \<Longrightarrow> counts xs = counts ys"
  by (rule ext) (metis counts_def set_mset_mset)

lemma count_inc_counts:
  assumes "count (mset xs) k < u32_max"
  shows "count_inc k (counts xs) = counts (k # xs)"
proof (rule ext)
  fix j show "count_inc k (counts xs) j = counts (k # xs) j"
    using assms
    by (auto simp: count_inc_def sat_inc32_def count_of_counts)
       (auto simp: counts_def)
qed

lemma count_dec_counts:
  assumes "k \<in> set xs"
  shows "count_dec k (counts xs) = counts (remove1 k xs)"
proof (rule ext)
  fix j
  have pos: "0 < count (mset xs) k" using assms by simp
  have set_k: "k \<in> set (remove1 k xs) \<longleftrightarrow> 1 < count (mset xs) k"
    by (metis count_greater_zero_iff count_diff count_single mset_remove1
        set_mset_mset zero_less_diff)
  show "count_dec k (counts xs) j = counts (remove1 k xs) j"
  proof (cases "j = k")
    case True
    then show ?thesis using assms pos set_k
      by (auto simp: count_dec_def counts_def sat_dec32_def)
  next
    case False
    then have "j \<in> set (remove1 k xs) \<longleftrightarrow> j \<in> set xs"
      by (metis in_set_remove1)
    then show ?thesis using False assms
      by (auto simp: count_dec_def counts_def sat_dec32_def)
  qed
qed

section \<open>Lemmas on little-endian integers\<close>

lemma unat_bounds:
  "unat (a :: u8) < 256" "unat (b :: u16) < 65536" "unat (c :: u32) < 4294967296"
  "unat (d :: u64) < 18446744073709551616"
proof -
  have "unat a < 2 ^ LENGTH(8)" "unat b < 2 ^ LENGTH(16)" "unat c < 2 ^ LENGTH(32)"
    "unat d < 2 ^ LENGTH(64)"
    by (rule unsigned_less)+
  then show "unat a < 256" "unat b < 65536" "unat c < 4294967296"
    "unat d < 18446744073709551616"
    by simp_all
qed

lemma unat_ucast_le: "unat (ucast (w :: 'a::len word) :: 'b::len word) \<le> unat w"
  by (simp add: unsigned_ucast_eq take_bit_nat_less_eq_self)

lemma length_le_bytes [simp]: "length (le_bytes n v) = n"
  by (induction n arbitrary: v) auto

lemma le_val_le_bytes: "le_val (le_bytes n v) = v mod 256 ^ n"
proof (induction n arbitrary: v)
  case 0
  then show ?case by simp
next
  case (Suc n)
  have "le_val (le_bytes (Suc n) v) = v mod 256 + 256 * (v div 256 mod 256 ^ n)"
    by (simp add: Suc.IH unat_of_nat)
  also have "\<dots> = v mod (256 * 256 ^ n)"
    by (simp add: mod_mult2_eq)
  finally show ?case by simp
qed

lemma length_le_simps [simp]:
  "length (le16 a) = 2" "length (le32 b) = 4" "length (le64 c) = 8"
  by (simp_all add: le16_def le32_def le64_def)

lemma le_round_trip [simp]:
  "word_of_nat (le_val (le16 a)) = a"
  "word_of_nat (le_val (le32 b)) = b"
  "word_of_nat (le_val (le64 c)) = c"
proof -
  have "unat a < 2 ^ LENGTH(16)" "unat b < 2 ^ LENGTH(32)" "unat c < 2 ^ LENGTH(64)"
    by (rule unsigned_less)+
  then show "word_of_nat (le_val (le16 a)) = a" "word_of_nat (le_val (le32 b)) = b"
    "word_of_nat (le_val (le64 c)) = c"
    by (simp_all add: le16_def le32_def le64_def le_val_le_bytes)
qed

section \<open>Lemmas on readers\<close>

lemma bind_r_simps [simp, wire_simps]:
  "bind_r (Inr x) f = f x" "bind_r (Inl e) f = Inl e"
  by (simp_all add: bind_r_def)

lemma bind_r_Inr_iff: "bind_r m f = Inr y \<longleftrightarrow> (\<exists>x. m = Inr x \<and> f x = Inr y)"
  by (cases m) auto

lemma read_exact_append [simp]: "n = length xs \<Longrightarrow> read_exact n (xs @ r) = Inr (xs, r)"
  by (simp add: read_exact_def)

lemma read_u8_Cons [simp]: "read_u8 (b # r) = Inr (b, r)"
  by (simp add: read_u8_def)

lemma read_u16_le16 [simp]: "read_u16 (le16 w @ r) = Inr (w, r)"
  by (simp add: read_u16_def)

lemma read_u32_le32 [simp]: "read_u32 (le32 w @ r) = Inr (w, r)"
  by (simp add: read_u32_def)

lemma read_u64_le64 [simp]: "read_u64 (le64 w @ r) = Inr (w, r)"
  by (simp add: read_u64_def)

section \<open>Lemmas on ordered maps\<close>

abbreviation sorted_keys :: "('k::linorder \<times> 'v) list \<Rightarrow> bool" where
  "sorted_keys m \<equiv> sorted_wrt (<) (map fst m)"

lemma btree_truncate_take: "btree_truncate n m = take n m"
proof (induction n m rule: btree_truncate.induct)
  case (1 n m)
  show ?case
  proof (cases "n < length m")
    case True
    then have "btree_truncate n m = take n (btree_pop_last m)"
      using 1 by (simp add: btree_truncate.simps [of n m])
    then show ?thesis using True by (simp add: btree_pop_last_def take_butlast)
  next
    case False
    then show ?thesis by (simp add: btree_truncate.simps [of n m])
  qed
qed

lemma set_keys_btree_insert [simp]:
  "fst ` set (btree_insert k v m) = insert k (fst ` set m)"
  by (induction m rule: btree_insert.induct) auto

lemma sorted_btree_insert: "sorted_keys m \<Longrightarrow> sorted_keys (btree_insert k v m)"
proof (induction k v m rule: btree_insert.induct)
  case (2 k v k' v' m)
  have "set (map fst (btree_insert k v m)) = insert k (set (map fst m))"
    by simp
  with 2 show ?case by (auto simp: not_less)
qed simp

lemma mset_btree_insert:
  "k \<notin> fst ` set m \<Longrightarrow> mset (btree_insert k v m) = add_mset (k, v) (mset m)"
  by (induction k v m rule: btree_insert.induct) auto

lemma read_many_map:
  assumes "\<And>x r. x \<in> set xs \<Longrightarrow> dec (enc x @ r) = Inr (f x, r)" "k \<le> length xs"
  shows "read_many dec k (concat (map enc xs) @ rest)
    = Inr (map f (take k xs), concat (map enc (drop k xs)) @ rest)"
  using assms
proof (induction xs arbitrary: k)
  case Nil
  then show ?case by simp
next
  case (Cons x xs)
  show ?case
  proof (cases k)
    case 0
    then show ?thesis by simp
  next
    case (Suc n)
    have "read_many dec n (concat (map enc xs) @ rest)
        = Inr (map f (take n xs), concat (map enc (drop n xs)) @ rest)"
      by (rule Cons.IH) (use Cons.prems Suc in auto)
    then show ?thesis using Cons.prems(1) [of x] Suc by simp
  qed
qed

section \<open>Interface: a wire codec\<close>

text \<open>
  A writer \<open>enc\<close> and a reader \<open>dec\<close> of one kind of item, and the items \<open>ok\<close> that the
  writer can represent. The law is the one every packet decoder relies on: reading
  back what was written yields the item and leaves exactly the bytes that followed.
\<close>

locale wire_codec =
  fixes enc :: "'a \<Rightarrow> bytes"
    and dec :: "'a reader"
    and ok :: "'a \<Rightarrow> bool"
  assumes dec_enc: "ok x \<Longrightarrow> dec (enc x @ rest) = Inr (x, rest)"
begin

lemma read_many_enc:
  "(\<forall>x \<in> set xs. ok x) \<Longrightarrow>
   read_many dec (length xs) (concat (map enc xs) @ rest) = Inr (xs, rest)"
  by (induction xs) (simp_all add: dec_enc)

lemma enc_inj: "ok x \<Longrightarrow> ok y \<Longrightarrow> enc x = enc y \<Longrightarrow> x = y"
  by (metis dec_enc Inr_inject prod.inject)

lemma enc_prefix_free:
  "ok x \<Longrightarrow> ok y \<Longrightarrow> enc x @ r = enc y @ s \<Longrightarrow> x = y \<and> r = s"
  by (metis dec_enc Inr_inject prod.inject)

end

interpretation u16_codec: wire_codec le16 read_u16 "\<lambda>_. True"
  by unfold_locales (rule read_u16_le16)

interpretation u32_codec: wire_codec le32 read_u32 "\<lambda>_. True"
  by unfold_locales (rule read_u32_le32)

interpretation u64_codec: wire_codec le64 read_u64 "\<lambda>_. True"
  by unfold_locales (rule read_u64_le64)

section \<open>Interface: a guarded transition system\<close>

text \<open>
  A component with a start state and a step relation, and an invariant that holds at
  the start and that every step keeps. Every state reached then satisfies it.
\<close>

locale guarded_system =
  fixes start :: "'s \<Rightarrow> bool"
    and step :: "'s \<Rightarrow> 's \<Rightarrow> bool"
    and inv :: "'s \<Rightarrow> bool"
  assumes start_inv: "start s \<Longrightarrow> inv s"
    and step_inv: "inv s \<Longrightarrow> step s t \<Longrightarrow> inv t"
begin

lemma steps_inv: "step\<^sup>*\<^sup>* s t \<Longrightarrow> inv s \<Longrightarrow> inv t"
  by (induction rule: rtranclp_induct) (auto intro: step_inv)

lemma reachable_inv: "start s \<Longrightarrow> step\<^sup>*\<^sup>* s t \<Longrightarrow> inv t"
  using steps_inv start_inv by blast

end

end
