(* ===== verification/Kad_Id.thy ===== *)
theory Kad_Id
  imports Ember_Prelude
begin

text \<open>
  Node identifiers of the KAD network: \<^verbatim>\<open>KadId\<close> of
  \<^verbatim>\<open>src-tauri/src/network/kad/types.rs\<close> and the XOR fold \<^verbatim>\<open>xor16\<close> of
  \<^verbatim>\<open>kad/dht_common.rs\<close>. An identifier is sixteen bytes in eMule's wire order: four
  32-bit chunks, each little-endian, the most significant chunk first. The source never
  forms the 128-bit number; it shifts, adds and compares chunk by chunk. \<open>kad_val\<close> is
  that number, and the lemmas here show that every chunk-wise operation is the intended
  operation on it: comparison is the numeric order, \<^verbatim>\<open>shift_left\<close> is multiplication by
  a power of two, \<^verbatim>\<open>add_u32\<close> is addition modulo \<open>2 ^ 128\<close>.
\<close>

unbundle bit_operations_syntax

section \<open>Identifiers and their operations\<close>

datatype ordering = Less | Equal | Greater

typedef kad_id = "{bs :: bytes. length bs = 16}"
  morphisms kad_bytes KadId
  by (rule exI [of _ "replicate 16 0"]) simp

setup_lifting type_definition_kad_id

definition xor16 :: "bytes \<Rightarrow> bytes \<Rightarrow> bytes" where
  "xor16 a b = map (\<lambda>i. a ! i XOR b ! i) [0..<16]"

definition zero :: kad_id where
  "zero = KadId (replicate 16 0)"

definition from_bytes :: "bytes \<Rightarrow> kad_id option" where
  "from_bytes bs = (if length bs < 16 then None else Some (KadId (take 16 bs)))"

definition xor_distance :: "kad_id \<Rightarrow> kad_id \<Rightarrow> kad_id" where
  "xor_distance a b = KadId (xor16 (kad_bytes a) (kad_bytes b))"

definition chunk :: "kad_id \<Rightarrow> nat \<Rightarrow> u32" where
  "chunk a i =
     (let base = i * 4; bs = kad_bytes a
      in word_of_nat (le_val [bs ! base, bs ! (base + 1), bs ! (base + 2), bs ! (base + 3)]))"

definition set_chunk :: "kad_id \<Rightarrow> nat \<Rightarrow> u32 \<Rightarrow> kad_id" where
  "set_chunk a i v =
     (let base = i * 4; bytes = le32 v
      in KadId ((kad_bytes a)
           [base := bytes ! 0, base + 1 := bytes ! 1, base + 2 := bytes ! 2,
            base + 3 := bytes ! 3]))"

definition from_u32 :: "u32 \<Rightarrow> kad_id" where
  "from_u32 v = set_chunk zero 3 v"

definition get_bit_number :: "kad_id \<Rightarrow> nat \<Rightarrow> nat" where
  "get_bit_number a b =
     (let chunk_idx = b div 32; bit_in_chunk = 31 - b mod 32
      in unat (drop_bit bit_in_chunk (chunk a chunk_idx) AND 1))"

text \<open>The two loops of \<^verbatim>\<open>shift_left\<close>: whole chunks first, then the remaining bits.\<close>

definition shift_chunks :: "nat \<Rightarrow> kad_id \<Rightarrow> kad_id" where
  "shift_chunks cs a =
     fold (\<lambda>i x. set_chunk x i 0) [4 - cs..<4]
       (fold (\<lambda>i x. set_chunk x i (chunk x (i + cs))) [0..<4 - cs] a)"

definition shift_bits :: "nat \<Rightarrow> kad_id \<Rightarrow> kad_id" where
  "shift_bits bs a =
     (let a' = fold (\<lambda>i x. set_chunk x i
                 (push_bit bs (chunk x i) OR drop_bit (32 - bs) (chunk x (i + 1)))) [0..<3] a
      in set_chunk a' 3 (push_bit bs (chunk a' 3)))"

definition shift_left :: "kad_id \<Rightarrow> nat \<Rightarrow> kad_id" where
  "shift_left a bits =
     (if bits = 0 then a
      else if 127 < bits then KadId (replicate 16 0)
      else
        let chunk_shift = bits div 32;
            a1 = (if 0 < chunk_shift then shift_chunks chunk_shift a else a);
            bit_shift = bits mod 32
        in if 0 < bit_shift then shift_bits bit_shift a1 else a1)"

fun add_loop :: "nat list \<Rightarrow> u64 \<Rightarrow> kad_id \<Rightarrow> kad_id" where
  "add_loop [] carry a = a"
| "add_loop (i # is) carry a =
     (let sum = ucast (chunk a i) + carry;
          a' = set_chunk a i (ucast sum);
          carry' = drop_bit 32 sum
      in if carry' = 0 then a' else add_loop is carry' a')"

definition add_u32 :: "kad_id \<Rightarrow> u32 \<Rightarrow> kad_id" where
  "add_u32 a v = add_loop (rev [0..<4]) (ucast v) a"

definition less_than_u32 :: "kad_id \<Rightarrow> u32 \<Rightarrow> bool" where
  "less_than_u32 a v =
     (if chunk a 0 \<noteq> 0 \<or> chunk a 1 \<noteq> 0 \<or> chunk a 2 \<noteq> 0 then False else chunk a 3 < v)"

text \<open>
  \<^verbatim>\<open>random_with_prefix\<close>: the identifier drawn by \<^verbatim>\<open>KadId::random()\<close> is the argument
  \<open>rnd\<close>.
\<close>

definition random_with_prefix :: "kad_id \<Rightarrow> kad_id \<Rightarrow> nat \<Rightarrow> kad_id" where
  "random_with_prefix rnd prefix num_bits =
     (let full_chunks = num_bits div 32;
          a = fold (\<lambda>i x. set_chunk x i (chunk prefix i)) [0..<full_chunks] rnd;
          remaining_bits = num_bits mod 32
      in if 0 < remaining_bits \<and> full_chunks < 4
         then let m = NOT (push_bit (32 - remaining_bits) 1 - 1)
              in set_chunk a full_chunks
                   ((chunk prefix full_chunks AND m) OR (chunk a full_chunks AND NOT m))
         else a)"

fun cmp_loop :: "nat list \<Rightarrow> kad_id \<Rightarrow> kad_id \<Rightarrow> ordering" where
  "cmp_loop [] a b = Equal"
| "cmp_loop (i # is) a b =
     (if chunk a i < chunk b i then Less
      else if chunk b i < chunk a i then Greater
      else cmp_loop is a b)"

definition kad_cmp :: "kad_id \<Rightarrow> kad_id \<Rightarrow> ordering" where
  "kad_cmp a b = cmp_loop [0..<4] a b"

text \<open>
  \<^verbatim>\<open>cuint128_swap\<close>: reverse the bytes of each 4-byte group.
\<close>

definition cuint128_swap :: "bytes \<Rightarrow> bytes" where
  "cuint128_swap bs =
     fold (\<lambda>i out. let b = i * 4 in out[b := bs ! (b + 3), b + 1 := bs ! (b + 2),
             b + 2 := bs ! (b + 1), b + 3 := bs ! b]) [0..<4] (replicate 16 0)"

definition id_read_from :: "kad_id reader" where
  "id_read_from bs = bind_r (read_exact 16 bs) (\<lambda>(x, r). Inr (KadId x, r))"

definition id_write_to :: "kad_id \<Rightarrow> bytes" where
  "id_write_to a = kad_bytes a"

section \<open>The 128-bit value\<close>

definition kad_val :: "kad_id \<Rightarrow> u128" where
  "kad_val a = push_bit 96 (ucast (chunk a 0)) OR push_bit 64 (ucast (chunk a 1))
     OR push_bit 32 (ucast (chunk a 2)) OR ucast (chunk a 3)"

section \<open>Bytes and chunks\<close>

lemma length_kad_bytes [simp]: "length (kad_bytes a) = 16"
  using kad_bytes [of a] by simp

lemma kad_bytes_KadId [simp]: "length bs = 16 \<Longrightarrow> kad_bytes (KadId bs) = bs"
  by (simp add: KadId_inverse)

lemma KadId_kad_bytes [simp]: "KadId (kad_bytes a) = a"
  by (rule kad_bytes_inverse)

lemma kad_id_eq_iff: "a = b \<longleftrightarrow> kad_bytes a = kad_bytes b"
  by (simp add: kad_bytes_inject)

lemma length_xor16 [simp]: "length (xor16 a b) = 16"
  by (simp add: xor16_def)

lemma kad_bytes_simps [simp]:
  "kad_bytes zero = replicate 16 0"
  "kad_bytes (xor_distance a b) = xor16 (kad_bytes a) (kad_bytes b)"
  by (simp_all add: zero_def xor_distance_def)

lemma bit_le_val:
  "bit (le_val bs) n \<longleftrightarrow> n div 8 < length bs \<and> bit (bs ! (n div 8)) (n mod 8)"
proof (induction bs arbitrary: n)
  case Nil
  then show ?case by simp
next
  case (Cons b bs)
  have disj: "unat b AND push_bit 8 (le_val bs) = 0"
    by (rule bit_eqI) (auto simp: bit_simps dest: bit_imp_le_length)
  have "le_val (b # bs) = unat b OR push_bit 8 (le_val bs)"
    using disj by (simp add: push_bit_eq_mult disjunctive_add_eq_or ac_simps)
  then have *: "bit (le_val (b # bs)) n \<longleftrightarrow> bit b n \<or> 8 \<le> n \<and> bit (le_val bs) (n - 8)"
    by (simp add: bit_simps)
  show ?case
  proof (cases "n < 8")
    case True
    then show ?thesis using * by simp
  next
    case False
    then have "n div 8 = Suc ((n - 8) div 8)" "n mod 8 = (n - 8) mod 8"
      by (simp_all add: div_if mod_if)
    moreover have "\<not> bit b n" using False by (auto dest: bit_imp_le_length)
    ultimately show ?thesis using * False Cons.IH [of "n - 8"] by simp
  qed
qed

lemma bit_chunk:
  assumes "i < 4"
  shows "bit (chunk a i) n \<longleftrightarrow> n < 32 \<and> bit (kad_bytes a ! (i * 4 + n div 8)) (n mod 8)"
proof -
  have "n < 32 \<Longrightarrow> n div 8 = 0 \<or> n div 8 = 1 \<or> n div 8 = 2 \<or> n div 8 = 3"
    by linarith
  then show ?thesis
    by (auto simp: chunk_def Let_def bit_simps bit_le_val simp del: le_val.simps)
qed

lemma less_4_cases: "(i::nat) < 4 \<longleftrightarrow> i = 0 \<or> i = 1 \<or> i = 2 \<or> i = 3"
  by auto

lemma chunk_ext:
  assumes "\<And>i. i < 4 \<Longrightarrow> chunk a i = chunk b i"
  shows "a = b"
proof -
  have "kad_bytes a ! k = kad_bytes b ! k" if "k < 16" for k
  proof (rule bit_word_eqI)
    fix n assume n: "n < LENGTH(8)"
    have n8: "n < 8" using n by simp
    have "(k mod 4 * 8 + n) div 8 = k mod 4" "(k mod 4 * 8 + n) mod 8 = n"
      using n8 by simp_all
    moreover have "k mod 4 * 8 + n < 32" using n8 by linarith
    ultimately have k: "k div 4 < 4" "k div 4 * 4 + (k mod 4 * 8 + n) div 8 = k"
      "(k mod 4 * 8 + n) mod 8 = n" "k mod 4 * 8 + n < 32"
      using that by simp_all
    have "bit (kad_bytes x ! k) n = bit (chunk x (k div 4)) (k mod 4 * 8 + n)" for x
      using bit_chunk [OF k(1), of x "k mod 4 * 8 + n"] k by simp
    then show "bit (kad_bytes a ! k) n = bit (kad_bytes b ! k) n"
      using assms [OF k(1)] by simp
  qed
  then show ?thesis
    by (simp add: kad_id_eq_iff list_eq_iff_nth_eq)
qed

lemma chunk_xor_distance [simp]:
  assumes "i < 4"
  shows "chunk (xor_distance a b) i = chunk a i XOR chunk b i"
proof (rule bit_word_eqI)
  fix n assume "n < LENGTH(32)"
  then have n: "n < 32" by simp
  with assms have "i * 4 + n div 8 < 16" by linarith
  then show "bit (chunk (xor_distance a b) i) n = bit (chunk a i XOR chunk b i) n"
    using assms n by (simp add: bit_chunk bit_simps xor16_def)
qed

lemma chunk_zero [simp]: "i < 4 \<Longrightarrow> chunk zero i = 0"
proof (rule bit_word_eqI)
  fix n assume i: "i < 4" and "n < LENGTH(32)"
  then have "i * 4 + n div 8 < 16" by simp
  with i show "bit (chunk zero i) n = bit (0 :: u32) n"
    by (simp add: bit_chunk)
qed

lemma kad_bytes_set_chunk:
  "kad_bytes (set_chunk a i v) =
     (kad_bytes a)[i * 4 := le32 v ! 0, i * 4 + 1 := le32 v ! 1, i * 4 + 2 := le32 v ! 2,
       i * 4 + 3 := le32 v ! 3]"
  by (simp add: set_chunk_def Let_def)

lemma le32_conv_nth: "[le32 v ! 0, le32 v ! 1, le32 v ! 2, le32 v ! 3] = le32 v"
  by (rule nth_equalityI) (auto simp: less_Suc_eq numeral_eq_Suc)

lemma chunk_set_chunk [simp]:
  assumes "i < 4" "j < 4"
  shows "chunk (set_chunk a i v) j = (if i = j then v else chunk a j)"
proof (cases "i = j")
  case True
  have "chunk (set_chunk a i v) i
      = word_of_nat (le_val [le32 v ! 0, le32 v ! 1, le32 v ! 2, le32 v ! 3])"
    using assms by (simp add: chunk_def kad_bytes_set_chunk Let_def del: le_val.simps)
  with True show ?thesis by (simp only: le32_conv_nth le_round_trip) simp
next
  case False
  then have "i * 4 + x \<noteq> j * 4 + y" if "x < 4" "y < 4" for x y :: nat
    using that by presburger
  from this [of 0 0] this [of 0 1] this [of 0 2] this [of 0 3]
    this [of 1 0] this [of 1 1] this [of 1 2] this [of 1 3]
    this [of 2 0] this [of 2 1] this [of 2 2] this [of 2 3]
    this [of 3 0] this [of 3 1] this [of 3 2] this [of 3 3]
  show ?thesis using False
    by (simp add: chunk_def kad_bytes_set_chunk Let_def nth_list_update_neq del: le_val.simps)
qed

lemma set_chunk_chunk [simp]: "i < 4 \<Longrightarrow> set_chunk a i (chunk a i) = a"
  by (rule chunk_ext) simp

section \<open>Operations in terms of the 128-bit value\<close>

lemma bit_kad_val_split:
  assumes "q < 4" "r < 32"
  shows "bit (kad_val a) (32 * q + r) \<longleftrightarrow> bit (chunk a (3 - q)) r"
  using assms
  by (auto simp: less_4_cases kad_val_def bit_simps dest: bit_imp_le_length)

lemma bit_kad_val:
  assumes "n < 128"
  shows "bit (kad_val a) n \<longleftrightarrow> bit (chunk a (3 - n div 32)) (n mod 32)"
  using bit_kad_val_split [of "n div 32" "n mod 32" a] assms by simp

lemma bit_chunk_kad_val:
  assumes "i < 4" "n < 32"
  shows "bit (chunk a i) n = bit (kad_val a) ((3 - i) * 32 + n)"
  using bit_kad_val_split [of "3 - i" n a] assms by (simp add: ac_simps)

lemma kad_val_inject: "kad_val a = kad_val b \<longleftrightarrow> a = b"
proof
  assume eq: "kad_val a = kad_val b"
  show "a = b"
    by (rule chunk_ext, rule bit_word_eqI) (simp add: bit_chunk_kad_val eq)
qed simp

lemma kad_val_xor_distance [simp]: "kad_val (xor_distance a b) = kad_val a XOR kad_val b"
  by (rule bit_word_eqI) (simp add: bit_kad_val bit_simps)

lemma kad_val_zero [simp]: "kad_val zero = 0"
  by (simp add: kad_val_def)

lemma get_bit_number_eq:
  assumes "b < 128"
  shows "get_bit_number a b = of_bool (bit (kad_val a) (127 - b))"
proof -
  have "b div 32 < 4" using assms by simp
  moreover have "(3 - b div 32) * 32 + (31 - b mod 32) = 127 - b"
    using assms div_mult_mod_eq [of b 32] mod_less_divisor [of 32 b] by linarith
  ultimately have "bit (kad_val a) (127 - b) = bit (chunk a (b div 32)) (31 - b mod 32)"
    using bit_chunk_kad_val [of "b div 32" "31 - b mod 32" a] by simp
  then show ?thesis
    by (simp add: get_bit_number_def Let_def and_one_eq mod_2_eq_odd bit_iff_odd_drop_bit)
qed

text \<open>The value as a sum of weighted chunks, for the arithmetic operations.\<close>

abbreviation wt :: "nat \<Rightarrow> u128" where
  "wt i \<equiv> 2 ^ (32 * (3 - i))"

lemma kad_val_sum:
  "kad_val a = ucast (chunk a 0) * wt 0 + ucast (chunk a 1) * wt 1
     + ucast (chunk a 2) * wt 2 + ucast (chunk a 3) * wt 3"
proof -
  let ?A = "push_bit 96 (ucast (chunk a 0)) :: u128"
  let ?B = "push_bit 64 (ucast (chunk a 1)) :: u128"
  let ?C = "push_bit 32 (ucast (chunk a 2)) :: u128"
  let ?D = "ucast (chunk a 3) :: u128"
  have 1: "?C AND ?D = 0" and 2: "?B AND (?C OR ?D) = 0" and 3: "?A AND (?B OR (?C OR ?D)) = 0"
    by (rule bit_word_eqI, auto simp: bit_simps dest: bit_imp_le_length)+
  have "kad_val a = ?A OR (?B OR (?C OR ?D))"
    by (simp add: kad_val_def or.assoc)
  also have "\<dots> = ?A + (?B + (?C + ?D))"
    by (simp only: disjunctive_add_eq_or [OF 1] disjunctive_add_eq_or [OF 2]
        disjunctive_add_eq_or [OF 3])
  finally show ?thesis
    by (simp add: push_bit_eq_mult ac_simps)
qed

lemma unat_ucast_chunk: "unat (ucast (c :: u32) :: u128) = unat c"
  by (simp add: unsigned_ucast_eq take_bit_nat_eq_self_iff)
     (rule less_trans [OF unsigned_less], simp)

lemma unat_kad_val:
  "unat (kad_val a) = unat (chunk a 0) * 2 ^ 96 + unat (chunk a 1) * 2 ^ 64
     + unat (chunk a 2) * 2 ^ 32 + unat (chunk a 3)"
proof -
  have b: "unat (chunk a i) < 2 ^ 32" for i
    using unsigned_less [of "chunk a i"] by simp
  have "unat (kad_val a) =
    (unat (chunk a 0) * 2 ^ 96 + unat (chunk a 1) * 2 ^ 64
      + unat (chunk a 2) * 2 ^ 32 + unat (chunk a 3)) mod 2 ^ 128"
    unfolding kad_val_sum
    by (simp add: unat_word_ariths unat_ucast_chunk mod_simps)
  also have "\<dots> = unat (chunk a 0) * 2 ^ 96 + unat (chunk a 1) * 2 ^ 64
      + unat (chunk a 2) * 2 ^ 32 + unat (chunk a 3)"
    using b [of 0] b [of 1] b [of 2] b [of 3] by simp
  finally show ?thesis .
qed

lemma kad_cmp_kad_val:
  "kad_cmp a b = (if kad_val a < kad_val b then Less
     else if kad_val b < kad_val a then Greater else Equal)"
proof -
  have b: "unat (chunk x i) < 2 ^ 32" for x i
    using unsigned_less [of "chunk x i"] by simp
  note bounds = b [of a 0] b [of a 1] b [of a 2] b [of a 3]
    b [of b 0] b [of b 1] b [of b 2] b [of b 3]
  have upt: "[0..<4] = [0::nat, 1, 2, 3]" by (simp add: upt_rec)
  show ?thesis
    unfolding kad_cmp_def upt cmp_loop.simps word_less_nat_alt unat_kad_val
    using bounds by auto
qed

instantiation kad_id :: linorder
begin

definition less_eq_kad_id :: "kad_id \<Rightarrow> kad_id \<Rightarrow> bool" where
  "less_eq_kad_id a b \<longleftrightarrow> kad_cmp a b \<noteq> Greater"

definition less_kad_id :: "kad_id \<Rightarrow> kad_id \<Rightarrow> bool" where
  "less_kad_id a b \<longleftrightarrow> kad_cmp a b = Less"

instance
  by standard
     (auto simp: less_eq_kad_id_def less_kad_id_def kad_cmp_kad_val
        simp flip: kad_val_inject split: if_splits)

end

lemma kad_id_less_iff: "a < b \<longleftrightarrow> kad_val a < kad_val (b :: kad_id)"
  by (simp add: less_kad_id_def kad_cmp_kad_val)

lemma kad_id_le_iff: "a \<le> b \<longleftrightarrow> kad_val a \<le> kad_val (b :: kad_id)"
  by (auto simp: less_eq_kad_id_def kad_cmp_kad_val)

instantiation kad_id :: equal
begin

definition equal_kad_id :: "kad_id \<Rightarrow> kad_id \<Rightarrow> bool" where
  "equal_kad_id a b \<longleftrightarrow> kad_bytes a = kad_bytes b"

instance
  by standard (simp add: equal_kad_id_def kad_id_eq_iff)

end

lemma kad_val_chunks_eqI:
  assumes "\<And>q r. q < 4 \<Longrightarrow> r < 32 \<Longrightarrow> bit (chunk a (3 - q)) r = bit w (32 * q + r)"
  shows "kad_val a = w"
proof (rule bit_word_eqI)
  fix n assume "n < LENGTH(128)"
  then have n: "n div 32 < 4" "n mod 32 < 32" by simp_all
  then show "bit (kad_val a) n = bit w n"
    using assms [OF n] bit_kad_val_split [OF n, of a] by simp
qed

lemma upt_small: "[0..<3] = [0::nat, 1, 2]" "[0..<4] = [0::nat, 1, 2, 3]"
  "[0..<2] = [0::nat, 1]" "[0..<1] = [0::nat]"
  "[1..<4] = [1::nat, 2, 3]" "[2..<4] = [2::nat, 3]" "[3..<4] = [3::nat]"
  by (simp_all add: upt_rec)

lemma chunk_shift_chunks:
  assumes "cs \<in> {1, 2, 3}" "i < 4"
  shows "chunk (shift_chunks cs a) i = (if i + cs < 4 then chunk a (i + cs) else 0)"
  using assms
  by (auto simp: shift_chunks_def upt_small less_4_cases simp flip: One_nat_def)

lemma chunk_shift_bits:
  assumes "i < 4"
  shows "chunk (shift_bits bs a) i =
    (if i < 3 then push_bit bs (chunk a i) OR drop_bit (32 - bs) (chunk a (i + 1))
     else push_bit bs (chunk a i))"
  using assms
  by (auto simp: shift_bits_def Let_def upt_small less_4_cases simp flip: One_nat_def)

lemma kad_val_shift_chunks:
  assumes "cs \<in> {1, 2, 3}"
  shows "kad_val (shift_chunks cs a) = push_bit (32 * cs) (kad_val a)"
proof (rule kad_val_chunks_eqI)
  fix q r :: nat assume qr: "q < 4" "r < 32"
  show "bit (chunk (shift_chunks cs a) (3 - q)) r = bit (push_bit (32 * cs) (kad_val a)) (32 * q + r)"
  proof (cases "cs \<le> q")
    case True
    then have *: "32 * q + r - 32 * cs = 32 * (q - cs) + r" by simp
    have **: "3 - q + cs = 3 - (q - cs)" using True qr by simp
    have "3 - q + cs < 4" "3 - q < 4" "q - cs < 4" using True qr by simp_all
    then have "bit (chunk (shift_chunks cs a) (3 - q)) r = bit (chunk a (3 - (q - cs))) r"
      using assms by (simp only: chunk_shift_chunks ** if_True)
    also have "\<dots> = bit (kad_val a) (32 * (q - cs) + r)"
      using bit_kad_val_split [of "q - cs" r a] qr by simp
    finally show ?thesis
      using True qr by (simp add: bit_push_bit_iff *)
  next
    case False
    then show ?thesis
      using qr assms by (auto simp: chunk_shift_chunks bit_push_bit_iff)
  qed
qed

lemma kad_val_shift_bits:
  assumes "0 < bs" "bs < 32"
  shows "kad_val (shift_bits bs a) = push_bit bs (kad_val a)"
proof (rule kad_val_chunks_eqI)
  fix q r :: nat assume qr: "q < 4" "r < 32"
  show "bit (chunk (shift_bits bs a) (3 - q)) r = bit (push_bit bs (kad_val a)) (32 * q + r)"
  proof (cases "bs \<le> r")
    case True
    then have "32 * q + r - bs = 32 * q + (r - bs)" by simp
    then show ?thesis
      using True qr assms bit_kad_val_split [of q "r - bs" a]
      by (auto simp: chunk_shift_bits bit_simps dest: bit_imp_le_length)
  next
    case False
    show ?thesis
    proof (cases "q = 0")
      case True
      then show ?thesis using False qr assms
        by (simp add: chunk_shift_bits bit_simps)
    next
      case q: False
      have 1: "32 * q + r - bs = 32 * (q - 1) + (32 - bs + r)"
        using False q assms by (cases q) auto
      have 2: "Suc (3 - q) = 4 - q" using q qr by simp
      show ?thesis
        using False q qr assms bit_kad_val_split [of "q - 1" "32 - bs + r" a]
        by (simp add: chunk_shift_bits bit_simps 1 2)
    qed
  qed
qed

lemma kad_val_shift_left [simp]: "kad_val (shift_left a n) = push_bit n (kad_val a)"
proof -
  consider "n = 0" | "127 < n" | "0 < n" "n \<le> 127" by linarith
  then show ?thesis
  proof cases
    case 1
    then show ?thesis by (simp add: shift_left_def)
  next
    case 2
    have "push_bit n (kad_val a) = 0"
      using 2 by (intro bit_word_eqI) (auto simp: bit_simps)
    with 2 show ?thesis by (simp add: shift_left_def flip: zero_def)
  next
    case 3
    have n: "n = 32 * (n div 32) + n mod 32" by simp
    have cs: "n div 32 \<in> {1, 2, 3}" if "0 < n div 32"
      using that 3 by auto
    let ?a1 = "if 0 < n div 32 then shift_chunks (n div 32) a else a"
    have a1: "kad_val ?a1 = push_bit (32 * (n div 32)) (kad_val a)"
      using cs kad_val_shift_chunks by auto
    have "kad_val (shift_left a n) = push_bit (n mod 32) (kad_val ?a1)"
      using 3 by (simp add: shift_left_def Let_def kad_val_shift_bits)
    then show ?thesis unfolding a1
      using n by (metis add.commute push_bit_push_bit)
  qed
qed

lemma kad_val_set_chunk:
  assumes "i < 4"
  shows "kad_val (set_chunk a i v) = kad_val a + (ucast v - ucast (chunk a i)) * wt i"
  using assms
  by (auto simp: less_4_cases kad_val_sum algebra_simps simp flip: One_nat_def)

lemma ucast_split64:
  "(ucast (s :: u64) :: u128) = ucast (ucast s :: u32) + ucast (drop_bit 32 s) * 2 ^ 32"
proof -
  have "(ucast (ucast s :: u32) :: u128) AND push_bit 32 (ucast (drop_bit 32 s)) = 0"
    by (rule bit_word_eqI) (auto simp: bit_simps dest: bit_imp_le_length)
  then have "ucast (ucast s :: u32) + ucast (drop_bit 32 s) * (2 ^ 32 :: u128)
      = ucast (ucast s :: u32) OR push_bit 32 (ucast (drop_bit 32 s))"
    by (simp add: push_bit_eq_mult disjunctive_add_eq_or)
  also have "\<dots> = ucast s"
    by (rule bit_word_eqI) (auto simp: bit_simps dest: bit_imp_le_length)
  finally show ?thesis by simp
qed

lemma ucast_add_no_overflow:
  assumes "unat (x :: u64) < 2 ^ 33" "unat (y :: u64) < 2 ^ 33"
  shows "(ucast (x + y) :: u128) = ucast x + ucast y"
proof (rule unsigned_word_eqI [where ?'a = nat])
  have "unat (x + y) = unat x + unat y"
    using assms by (simp add: unat_word_ariths)
  moreover have "unat (ucast z :: u128) = unat z" for z :: u64
    by (simp add: unsigned_ucast_eq take_bit_nat_eq_self_iff)
       (rule less_trans [OF unsigned_less], simp)
  ultimately show "unat (ucast (x + y) :: u128) = unat (ucast x + ucast y :: u128)"
    using assms by (simp add: unat_word_ariths)
qed

lemma ucast_ucast_chunk: "(ucast (ucast (c :: u32) :: u64) :: u128) = ucast c"
  by (rule bit_word_eqI) (auto simp: bit_simps dest: bit_imp_le_length)

text \<open>
  One turn of the carry loop at chunk \<open>i\<close>: what is left to add is the carry at the
  next more significant chunk.
\<close>

lemma add_loop_step:
  assumes "i < 4" "unat (carry :: u64) < 2 ^ 33"
    and s: "s = ucast (chunk a i) + carry"
  shows "kad_val (set_chunk a i (ucast s)) + ucast (drop_bit 32 s) * 2 ^ 32 * wt i
      = kad_val a + ucast carry * wt i"
proof -
  have "unat (ucast (chunk a i) :: u64) < 2 ^ 33"
    using unat_ucast_le [of "chunk a i", where 'b = 64] unat_bounds(3) [of "chunk a i"]
    by simp
  then have "(ucast s :: u128) = ucast (chunk a i) + ucast carry"
    unfolding s using assms(2) by (subst ucast_add_no_overflow) (simp_all add: ucast_ucast_chunk)
  then have "ucast (ucast s :: u32) + ucast (drop_bit 32 s) * 2 ^ 32
      = (ucast (chunk a i) + ucast carry :: u128)"
    using ucast_split64 [of s] by simp
  then have "(ucast (ucast s :: u32) - ucast (chunk a i) + ucast (drop_bit 32 s) * 2 ^ 32) * wt i
      = ucast carry * wt i"
    by (simp add: algebra_simps)
  then show ?thesis
    by (simp add: kad_val_set_chunk [OF assms(1)] algebra_simps)
qed

lemma unat_drop_bit_32: "unat (drop_bit 32 (s :: u64)) < 2 ^ 33"
proof -
  have "unat (drop_bit 32 s) = unat s div 4294967296"
    by (simp only: unat_drop_bit_eq) (simp add: drop_bit_eq_div)
  then show ?thesis using unat_bounds(4) [of s] by simp
qed

lemma kad_val_add_loop:
  "n < 4 \<Longrightarrow> unat carry < 2 ^ 33 \<Longrightarrow>
   kad_val (add_loop (rev [0..<Suc n]) carry a) = kad_val a + ucast carry * wt n"
proof (induction n arbitrary: carry a)
  case (0 carry a)
  let ?s = "ucast (chunk a 0) + carry"
  have "(2 :: u128) ^ 32 * wt 0 = 0" by simp
  then have "ucast (drop_bit 32 ?s) * 2 ^ 32 * wt 0 = 0"
    by (simp only: mult.assoc mult_zero_right)
  then have "kad_val (set_chunk a 0 (ucast ?s)) = kad_val a + ucast carry * wt 0"
    using add_loop_step [OF _ 0(2) refl, of 0 a] by (simp only: add_0_right)
  then show ?case by (simp add: Let_def)
next
  case (Suc n carry a)
  let ?s = "ucast (chunk a (Suc n)) + carry"
  let ?a = "set_chunk a (Suc n) (ucast ?s)"
  have wt: "(2 :: u128) ^ 32 * wt (Suc n) = wt n"
    using Suc.prems(1) by (auto simp: less_4_cases simp flip: power_add)
  have step: "kad_val ?a + ucast (drop_bit 32 ?s) * wt n = kad_val a + ucast carry * wt (Suc n)"
    using add_loop_step [OF Suc.prems(1) Suc.prems(2) refl, of a] wt
    by (simp add: mult.assoc)
  have "rev [0..<Suc (Suc n)] = Suc n # rev [0..<Suc n]" by simp
  then show ?case
    using step Suc.IH [OF _ unat_drop_bit_32, of ?s ?a] Suc.prems(1)
    by (auto simp: Let_def simp del: upt_Suc)
qed

lemma kad_val_add_u32 [simp]: "kad_val (add_u32 a v) = kad_val a + ucast v"
proof -
  have "unat (ucast v :: u64) < 2 ^ 33"
    using unat_ucast_le [of v, where 'b = 64] unat_bounds(3) [of v] by simp
  from kad_val_add_loop [OF _ this, of 3 a]
  have "kad_val (add_u32 a v) = kad_val a + ucast (ucast v :: u64)"
    by (simp add: add_u32_def upt_small numeral_3_eq_3 numeral_eq_Suc)
  also have "(ucast (ucast v :: u64) :: u128) = ucast v"
    by (rule ucast_ucast_chunk)
  finally show ?thesis .
qed

lemma kad_val_from_u32 [simp]: "kad_val (from_u32 v) = ucast v"
  by (simp add: from_u32_def kad_val_set_chunk)

lemma less_than_u32_kad_val: "less_than_u32 a v \<longleftrightarrow> kad_val a < ucast v"
proof -
  have b: "unat v < 2 ^ 32" using unsigned_less [of v] by simp
  show ?thesis
    unfolding less_than_u32_def word_less_nat_alt unat_kad_val unat_ucast_chunk
      word_eq_iff_unsigned [where 'a = nat] unat_0
    using b by auto
qed

lemma chunk_copy_prefix:
  assumes "full \<le> 4" "i < 4"
  shows "chunk (fold (\<lambda>i x. set_chunk x i (chunk p i)) [0..<full] a) i
    = (if i < full then chunk p i else chunk a i)"
  using assms by (induction full) auto

lemma bit_random_mask: "r < 32 \<Longrightarrow> bit (2 ^ k - 1 :: u32) r \<longleftrightarrow> r < k"
  by (simp add: bit_mask_iff flip: mask_eq_exp_minus_1)

text \<open>
  The identifier drawn for a prefix agrees with the prefix on its leading bits and
  with the random identifier on the rest.
\<close>

lemma chunk_random_with_prefix:
  assumes "num_bits \<le> 128" "i < 4" "r < 32"
  shows "bit (chunk (random_with_prefix rnd p num_bits) i) r =
    bit (chunk (if 32 * i + (31 - r) < num_bits then p else rnd) i) r"
proof -
  let ?f = "num_bits div 32" and ?m = "num_bits mod 32"
  have n: "num_bits = 32 * ?f + ?m" by simp
  have f: "?f \<le> 4" using assms(1) by linarith
  consider "i < ?f" | "i = ?f" "0 < ?m" | "i = ?f" "?m = 0" | "?f < i" by linarith
  then show ?thesis
  proof cases
    case 1
    then have "32 * i + 32 \<le> 32 * ?f" by simp
    then have "32 * i + (31 - r) < num_bits" using n by linarith
    then show ?thesis using 1 assms(2,3) f
      by (simp add: random_with_prefix_def Let_def chunk_copy_prefix)
  next
    case 2
    then have "32 * i + (31 - r) < num_bits \<longleftrightarrow> 32 - ?m \<le> r"
      using n assms(3) by linarith
    then show ?thesis using 2 assms(2,3) f
      by (auto simp: random_with_prefix_def Let_def chunk_copy_prefix bit_and_iff bit_or_iff
          bit_random_mask bit_not_iff)
  next
    case 3
    then have "\<not> 32 * i + (31 - r) < num_bits" using n by linarith
    then show ?thesis using 3 assms(2,3) f
      by (simp add: random_with_prefix_def Let_def chunk_copy_prefix)
  next
    case 4
    then have "32 * ?f + 32 \<le> 32 * i" by simp
    moreover have "?m < 32" by simp
    ultimately have "\<not> 32 * i + (31 - r) < num_bits" using n by linarith
    then show ?thesis using 4 assms(2,3) f
      by (simp add: random_with_prefix_def Let_def chunk_copy_prefix)
  qed
qed

lemma bit_random_with_prefix:
  assumes "num_bits \<le> 128" "n < 128"
  shows "bit (kad_val (random_with_prefix rnd p num_bits)) n =
    bit (kad_val (if 128 - num_bits \<le> n then p else rnd)) n"
proof -
  let ?q = "n div 32" and ?r = "n mod 32"
  have q: "?q < 4" "?r < 32" using assms by simp_all
  have "32 * (3 - ?q) + (31 - ?r) = 127 - n"
    using assms q div_mult_mod_eq [of n 32] by linarith
  then have "32 * (3 - ?q) + (31 - ?r) < num_bits \<longleftrightarrow> 128 - num_bits \<le> n"
    using assms by linarith
  then show ?thesis
    using chunk_random_with_prefix [OF assms(1) _ q(2), of "3 - ?q" rnd p] assms(2)
    by (simp add: bit_kad_val)
qed

lemma cuint128_swap_unfold:
  assumes "length bs = 16"
  shows "cuint128_swap bs =
    [bs ! 3, bs ! 2, bs ! 1, bs ! 0, bs ! 7, bs ! 6, bs ! 5, bs ! 4,
     bs ! 11, bs ! 10, bs ! 9, bs ! 8, bs ! 15, bs ! 14, bs ! 13, bs ! 12]"
  by (simp add: cuint128_swap_def upt_small Let_def numeral_eq_Suc)

lemma list16_conv:
  assumes "length bs = 16"
  shows "[bs ! 0, bs ! 1, bs ! 2, bs ! 3, bs ! 4, bs ! 5, bs ! 6, bs ! 7, bs ! 8, bs ! 9,
     bs ! 10, bs ! 11, bs ! 12, bs ! 13, bs ! 14, bs ! 15] = bs"
  using assms
  by (simp add: list_eq_iff_nth_eq less_Suc_eq numeral_eq_Suc)

text \<open>The byte swap between raw ed2k hashes and the wire form is its own inverse.\<close>

lemma length_cuint128_swap [simp]: "length bs = 16 \<Longrightarrow> length (cuint128_swap bs) = 16"
  by (simp add: cuint128_swap_unfold)

lemma cuint128_swap_swap [simp]:
  assumes "length bs = 16"
  shows "cuint128_swap (cuint128_swap bs) = bs"
proof -
  have "length (cuint128_swap bs) = 16" using assms by (simp add: cuint128_swap_unfold)
  then show ?thesis
    using list16_conv [OF assms] by (simp add: cuint128_swap_unfold assms)
qed

interpretation kad_id_codec: wire_codec id_write_to id_read_from "\<lambda>_. True"
  by unfold_locales (simp add: id_write_to_def id_read_from_def)

lemmas kad_val_simps = kad_val_xor_distance kad_val_zero kad_val_shift_left kad_val_add_u32
  kad_val_from_u32

section \<open>Properties of identifiers\<close>

text \<open>
  C34: the chunk-by-chunk operations of \<^verbatim>\<open>KadId\<close> implement 128-bit arithmetic: the order
  \<^verbatim>\<open>Ord::cmp\<close> is the numeric order, \<^verbatim>\<open>xor_distance\<close> the bitwise exclusive or,
  \<^verbatim>\<open>shift_left\<close> multiplication by a power of two and \<^verbatim>\<open>add_u32\<close> addition with carry,
  both modulo \<open>2 ^ 128\<close>, \<^verbatim>\<open>less_than_u32\<close> the numeric comparison, and the value
  determines the identifier.
\<close>

theorem kad_id_is_128_bit_arithmetic:
  "kad_cmp a b = (if kad_val a < kad_val b then Less
     else if kad_val b < kad_val a then Greater else Equal)
   \<and> kad_val (xor_distance a b) = kad_val a XOR kad_val b
   \<and> kad_val (shift_left a n) = push_bit n (kad_val a)
   \<and> kad_val (add_u32 a v) = kad_val a + ucast v
   \<and> (less_than_u32 a v \<longleftrightarrow> kad_val a < ucast v)
   \<and> (kad_val a = kad_val b \<longleftrightarrow> a = b)"
  by (simp add: kad_cmp_kad_val less_than_u32_kad_val kad_val_inject)

end
