(* ===== verification/Kad_Contact.thy ===== *)
theory Kad_Contact
  imports Kad_Id
begin

text \<open>
  KAD contacts and their UDP keys: \<^verbatim>\<open>KadUDPKey\<close> and \<^verbatim>\<open>KadContact\<close> of
  \<^verbatim>\<open>src-tauri/src/network/kad/types.rs\<close>. The wall clock (\<^verbatim>\<open>chrono::Utc::now()\<close>, in
  seconds) is the argument \<open>now\<close> of every operation that reads it. The MD5 function of
  the \<^verbatim>\<open>md5\<close> crate is an argument. An IPv4 address is the 32-bit number whose
  big-endian bytes are its octets.
\<close>

unbundle bit_operations_syntax

type_synonym ipv4 = u32

section \<open>UDP keys\<close>

record kad_udp_key =
  key :: u32
  key_ip :: u32

definition received :: "u32 \<Rightarrow> u32 \<Rightarrow> kad_udp_key" where
  "received k our_public_ip = \<lparr>key = k, key_ip = our_public_ip\<rparr>"

definition md5_word :: "bytes \<Rightarrow> nat \<Rightarrow> u32" where
  "md5_word r i = word_of_nat (le_val [r ! i, r ! (i + 1), r ! (i + 2), r ! (i + 3)])"

definition verify_key_for :: "(bytes \<Rightarrow> bytes) \<Rightarrow> u32 \<Rightarrow> u32 \<Rightarrow> u32" where
  "verify_key_for md5 our_udp_key their_ip =
     (let result = md5 (le32 their_ip @ le32 our_udp_key);
          w0 = md5_word result 0;
          w1 = md5_word result 4;
          w2 = md5_word result 8;
          w3 = md5_word result 12;
          folded = w0 XOR w1 XOR w2 XOR w3
      in folded mod 0xFFFFFFFE + 1)"

definition get_key_value :: "kad_udp_key \<Rightarrow> u32 \<Rightarrow> u32" where
  "get_key_value k our_public_ip = (if our_public_ip = key_ip k then key k else 0)"

definition value_for :: "kad_udp_key \<Rightarrow> u32 option \<Rightarrow> u32" where
  "value_for k our_public_ip =
     (case our_public_ip of Some ip \<Rightarrow> get_key_value k ip | None \<Rightarrow> key k)"

definition is_valid :: "kad_udp_key \<Rightarrow> bool" where
  "is_valid k \<longleftrightarrow> key k \<noteq> 0"

section \<open>Contacts\<close>

record kad_contact =
  cid :: kad_id
  cip :: ipv4
  udp_port :: u16
  tcp_port :: u16
  version :: u8
  last_seen :: int
  verified :: bool
  contact_type :: u8
  udp_key :: "kad_udp_key option"
  kad_options :: u8
  created_at :: int
  expires_at :: int
  last_type_set :: int
  received_hello :: bool

definition CONTACT_TYPE_ACTIVE :: u8 where "CONTACT_TYPE_ACTIVE = 0"
definition CONTACT_TYPE_VERIFIED :: u8 where "CONTACT_TYPE_VERIFIED = 1"
definition CONTACT_TYPE_OPEN :: u8 where "CONTACT_TYPE_OPEN = 2"
definition CONTACT_TYPE_NEW :: u8 where "CONTACT_TYPE_NEW = 3"
definition CONTACT_TYPE_DEAD :: u8 where "CONTACT_TYPE_DEAD = 4"

definition EXPIRE_ACTIVE_SECS :: int where "EXPIRE_ACTIVE_SECS = 7200"
definition EXPIRE_VERIFIED_SECS :: int where "EXPIRE_VERIFIED_SECS = 5400"
definition EXPIRE_OPEN_SECS :: int where "EXPIRE_OPEN_SECS = 3600"
definition EXPIRE_CHECKING_SECS :: int where "EXPIRE_CHECKING_SECS = 120"

definition KADEMLIA_VERSION1_46C :: u8 where "KADEMLIA_VERSION1_46C = 0x01"
definition KADEMLIA_VERSION2_47A :: u8 where "KADEMLIA_VERSION2_47A = 0x02"
definition KADEMLIA_VERSION5_48A :: u8 where "KADEMLIA_VERSION5_48A = 0x05"
definition KADEMLIA_VERSION6_49ABETA :: u8 where "KADEMLIA_VERSION6_49ABETA = 0x06"

lemmas contact_consts =
  CONTACT_TYPE_ACTIVE_def CONTACT_TYPE_VERIFIED_def CONTACT_TYPE_OPEN_def
  CONTACT_TYPE_NEW_def CONTACT_TYPE_DEAD_def
  EXPIRE_ACTIVE_SECS_def EXPIRE_VERIFIED_SECS_def EXPIRE_OPEN_SECS_def EXPIRE_CHECKING_SECS_def
  KADEMLIA_VERSION1_46C_def KADEMLIA_VERSION2_47A_def KADEMLIA_VERSION5_48A_def
  KADEMLIA_VERSION6_49ABETA_def

definition contact_read_from :: "int \<Rightarrow> kad_contact reader" where
  "contact_read_from now bs =
     bind_r (id_read_from bs) (\<lambda>(i, bs).
     bind_r (read_u32 bs) (\<lambda>(ip_raw, bs).
     bind_r (read_u16 bs) (\<lambda>(udp, bs).
     bind_r (read_u16 bs) (\<lambda>(tcp, bs).
     bind_r (read_u8 bs) (\<lambda>(ver, bs).
       Inr (\<lparr>cid = i, cip = ip_raw, udp_port = udp, tcp_port = tcp, version = ver,
             last_seen = now, verified = False, contact_type = CONTACT_TYPE_NEW,
             udp_key = None, kad_options = 0, created_at = now, expires_at = 0,
             last_type_set = 0, received_hello = False\<rparr>, bs))))))"

definition contact_write_to :: "kad_contact \<Rightarrow> bytes" where
  "contact_write_to c =
     id_write_to (cid c) @ le32 (cip c) @ le16 (udp_port c) @ le16 (tcp_port c) @ [version c]"

definition update_type :: "int \<Rightarrow> kad_contact \<Rightarrow> kad_contact" where
  "update_type now c =
     (let age = now - created_at c;
          c1 = (if age < 3600
                then c\<lparr>contact_type := CONTACT_TYPE_OPEN, expires_at := now + EXPIRE_OPEN_SECS\<rparr>
                else if age < 7200
                then c\<lparr>contact_type := CONTACT_TYPE_VERIFIED,
                       expires_at := now + EXPIRE_VERIFIED_SECS\<rparr>
                else c\<lparr>contact_type := CONTACT_TYPE_ACTIVE,
                       expires_at := now + EXPIRE_ACTIVE_SECS\<rparr>)
      in c1\<lparr>last_seen := now, last_type_set := now\<rparr>)"

definition checking_type :: "int \<Rightarrow> kad_contact \<Rightarrow> bool \<times> kad_contact" where
  "checking_type now c =
     (if now - last_type_set c < 10 \<or> CONTACT_TYPE_DEAD \<le> contact_type c
      then (CONTACT_TYPE_DEAD \<le> contact_type c, c)
      else let c1 = c\<lparr>last_type_set := now, expires_at := now + EXPIRE_CHECKING_SECS,
                       contact_type := min (contact_type c + 1) CONTACT_TYPE_DEAD\<rparr>
           in (CONTACT_TYPE_DEAD \<le> contact_type c1, c1))"

definition is_expired :: "int \<Rightarrow> kad_contact \<Rightarrow> bool" where
  "is_expired now c = (if expires_at c = 0 then False else now \<ge> expires_at c)"

definition is_dead :: "kad_contact \<Rightarrow> bool" where
  "is_dead c \<longleftrightarrow> CONTACT_TYPE_DEAD \<le> contact_type c"

definition set_ip :: "ipv4 \<Rightarrow> kad_contact \<Rightarrow> kad_contact" where
  "set_ip new_ip c = (if cip c \<noteq> new_ip then c\<lparr>verified := False, cip := new_ip\<rparr> else c)"

definition is_udp_firewalled :: "kad_contact \<Rightarrow> bool" where
  "is_udp_firewalled c \<longleftrightarrow> kad_options c AND 0x01 \<noteq> 0"

definition is_tcp_firewalled :: "kad_contact \<Rightarrow> bool" where
  "is_tcp_firewalled c \<longleftrightarrow> kad_options c AND 0x02 \<noteq> 0"

definition supports_obfuscation :: "kad_contact \<Rightarrow> bool" where
  "supports_obfuscation c \<longleftrightarrow> KADEMLIA_VERSION6_49ABETA \<le> version c"

definition is_kad2 :: "kad_contact \<Rightarrow> bool" where
  "is_kad2 c \<longleftrightarrow> KADEMLIA_VERSION2_47A \<le> version c"

text \<open>A run of unanswered probes at the given times.\<close>

definition probe_run :: "int list \<Rightarrow> kad_contact \<Rightarrow> kad_contact" where
  "probe_run ts c = fold (\<lambda>t x. snd (checking_type t x)) ts c"

text \<open>Probe times far enough apart for each probe to count.\<close>

fun spaced :: "int \<Rightarrow> int list \<Rightarrow> bool" where
  "spaced t0 [] = True"
| "spaced t0 (t # ts) = (t0 + 10 \<le> t \<and> spaced t ts)"

section \<open>Lemmas\<close>

text \<open>What every refresh of a contact leaves alone.\<close>

lemma update_type_frame [simp]:
  "cid (update_type now c) = cid c" "cip (update_type now c) = cip c"
  "verified (update_type now c) = verified c" "version (update_type now c) = version c"
  "udp_port (update_type now c) = udp_port c" "udp_key (update_type now c) = udp_key c"
  "kad_options (update_type now c) = kad_options c"
  "last_seen (update_type now c) = now"
  by (simp_all add: update_type_def Let_def)

lemma checking_type_frame [simp]:
  "cid (snd (checking_type now c)) = cid c" "cip (snd (checking_type now c)) = cip c"
  "verified (snd (checking_type now c)) = verified c"
  "version (snd (checking_type now c)) = version c"
  "udp_port (snd (checking_type now c)) = udp_port c"
  "kad_options (snd (checking_type now c)) = kad_options c"
  "last_seen (snd (checking_type now c)) = last_seen c"
  by (simp_all add: checking_type_def Let_def)

lemma set_ip_frame [simp]:
  "cid (set_ip ip c) = cid c" "cip (set_ip ip c) = ip" "version (set_ip ip c) = version c"
  by (simp_all add: set_ip_def)

lemma update_type_not_dead: "\<not> is_dead (update_type now c)"
  by (simp add: is_dead_def update_type_def Let_def contact_consts word_le_nat_alt)

lemma fst_checking_type: "fst (checking_type now c) = is_dead (snd (checking_type now c))"
  by (simp add: checking_type_def is_dead_def Let_def)

definition fresh_contact :: "int \<Rightarrow> kad_contact \<Rightarrow> bool" where
  "fresh_contact now c \<longleftrightarrow> last_seen c = now \<and> \<not> verified c \<and> contact_type c = CONTACT_TYPE_NEW
     \<and> udp_key c = None \<and> kad_options c = 0 \<and> created_at c = now \<and> expires_at c = 0
     \<and> last_type_set c = 0 \<and> \<not> received_hello c"

lemma contact_read_write:
  "contact_read_from now (contact_write_to c @ rest) =
   Inr (\<lparr>cid = cid c, cip = cip c, udp_port = udp_port c, tcp_port = tcp_port c,
      version = version c, last_seen = now, verified = False, contact_type = CONTACT_TYPE_NEW,
      udp_key = None, kad_options = 0, created_at = now, expires_at = 0, last_type_set = 0,
      received_hello = False\<rparr>, rest)"
  using kad_id_codec.dec_enc [of "cid c"]
  by (simp add: contact_read_from_def contact_write_to_def)

interpretation contact_codec: wire_codec contact_write_to "contact_read_from now" "fresh_contact now"
  by unfold_locales (auto simp: contact_read_write fresh_contact_def)

text \<open>Each counted probe raises the type by one until the contact is dead.\<close>

lemma checking_type_counted:
  assumes "last_type_set c + 10 \<le> now" "contact_type c \<le> CONTACT_TYPE_DEAD"
  shows "unat (contact_type (snd (checking_type now c))) = min 4 (Suc (unat (contact_type c)))"
    and "\<not> is_dead c \<Longrightarrow> last_type_set (snd (checking_type now c)) = now"
    and "is_dead c \<Longrightarrow> snd (checking_type now c) = c"
proof -
  have le: "unat (contact_type c) \<le> 4"
    using assms(2) by (simp add: contact_consts word_le_nat_alt)
  have inc: "unat (contact_type c + 1) = Suc (unat (contact_type c))"
    using le by (simp add: unat_word_ariths)
  show "unat (contact_type (snd (checking_type now c))) = min 4 (Suc (unat (contact_type c)))"
    using assms(1) le inc
    by (auto simp: checking_type_def Let_def contact_consts word_le_nat_alt min_def)
  show "\<not> is_dead c \<Longrightarrow> last_type_set (snd (checking_type now c)) = now"
    using assms(1) by (simp add: checking_type_def Let_def is_dead_def)
  show "is_dead c \<Longrightarrow> snd (checking_type now c) = c"
    by (simp add: checking_type_def is_dead_def)
qed

lemma probe_run_dead: "is_dead c \<Longrightarrow> probe_run ts c = c"
  by (induction ts) (auto simp: probe_run_def checking_type_def is_dead_def)

text \<open>
  The verify key sent to a peer is never zero, whatever the hash function returns: zero is
  the value the protocol reserves for "no key".
\<close>

lemma verify_key_range:
  "1 \<le> verify_key_for md5 our_udp_key their_ip
   \<and> verify_key_for md5 our_udp_key their_ip \<le> 0xFFFFFFFE"
proof -
  have "1 \<le> x mod 0xFFFFFFFE + 1 \<and> x mod 0xFFFFFFFE + 1 \<le> 0xFFFFFFFE" for x :: u32
  proof -
    have "unat (x mod 0xFFFFFFFE) < 0xFFFFFFFE"
      by (simp add: unat_mod_distrib)
    then have "unat (x mod 0xFFFFFFFE + 1) = Suc (unat (x mod 0xFFFFFFFE))"
      by (simp add: unat_word_ariths)
    with \<open>unat (x mod 0xFFFFFFFE) < 0xFFFFFFFE\<close> show ?thesis
      by (simp add: word_le_nat_alt)
  qed
  then show ?thesis by (simp add: verify_key_for_def Let_def)
qed

section \<open>Properties of contacts\<close>

text \<open>
  An unresponsive contact ages one type per counted probe: after \<open>n\<close> probes at
  least ten seconds apart its type is the old one plus \<open>n\<close>, capped at dead, so four
  probes kill any contact and fewer than \<open>4 - type\<close> probes never do.
\<close>

theorem probe_run_ages_contact:
  assumes "contact_type c \<le> CONTACT_TYPE_DEAD" "spaced (last_type_set c) ts"
  shows "unat (contact_type (probe_run ts c)) = min 4 (unat (contact_type c) + length ts)
    \<and> (is_dead (probe_run ts c) \<longleftrightarrow> 4 \<le> unat (contact_type c) + length ts)"
proof -
  have "unat (contact_type (probe_run ts c)) = min 4 (unat (contact_type c) + length ts)"
    using assms
  proof (induction ts arbitrary: c)
    case Nil
    then show ?case by (simp add: probe_run_def contact_consts word_le_nat_alt)
  next
    case (Cons t ts)
    let ?c = "snd (checking_type t c)"
    have step: "unat (contact_type ?c) = min 4 (Suc (unat (contact_type c)))"
      using Cons.prems by (intro checking_type_counted) simp_all
    show ?case
    proof (cases "is_dead c")
      case True
      then have "unat (contact_type c) = 4"
        using Cons.prems(1) by (simp add: is_dead_def contact_consts word_le_nat_alt)
      with True show ?thesis by (simp add: probe_run_dead)
    next
      case False
      then have "last_type_set ?c = t"
        using Cons.prems by (intro checking_type_counted) simp_all
      then have "unat (contact_type (probe_run ts ?c)) = min 4 (unat (contact_type ?c) + length ts)"
        using Cons.prems step by (intro Cons.IH) (simp_all add: contact_consts word_le_nat_alt)
      then show ?thesis using step by (simp add: probe_run_def)
    qed
  qed
  then show ?thesis by (auto simp: is_dead_def contact_consts word_le_nat_alt)
qed

definition sample_contact :: kad_contact where
  "sample_contact = \<lparr>cid = from_u32 5, cip = 0x51000001, udp_port = 4672, tcp_port = 4662,
     version = 9, last_seen = 100, verified = False, contact_type = 3, udp_key = None,
     kad_options = 0, created_at = 100, expires_at = 0, last_type_set = 0,
     received_hello = False\<rparr>"

theorem probe_run_ages_contact_witness:
  "contact_type (sample_contact\<lparr>contact_type := 1\<rparr>) \<le> CONTACT_TYPE_DEAD
   \<and> spaced (last_type_set (sample_contact\<lparr>contact_type := 1\<rparr>)) [100, 110]
   \<and> \<not> is_dead (probe_run [100, 110] (sample_contact\<lparr>contact_type := 1\<rparr>))"
proof -
  let ?c = "sample_contact\<lparr>contact_type := 1\<rparr>"
  have h: "contact_type ?c \<le> CONTACT_TYPE_DEAD" "spaced (last_type_set ?c) [100, 110]"
    by (simp_all add: sample_contact_def contact_consts)
  show ?thesis using h probe_run_ages_contact [OF h] by simp
qed

end
