(* ===== verification/Utf8.thy ===== *)
theory Utf8
  imports Ember_Prelude
begin

text \<open>
  Rust's \<^verbatim>\<open>String\<close> as the list of its UTF-8 bytes, and \<^verbatim>\<open>String::from_utf8_lossy\<close>, which
  every wire decoder of the program applies to received names and values: well-formed
  sequences are kept, each maximal ill-formed prefix of a sequence becomes the
  replacement character U+FFFD. \<open>utf8_step\<close> follows the table of the standard library:
  it returns whether a well-formed sequence starts the input and how many bytes it
  inspected.
\<close>

unbundle bit_operations_syntax

definition safe_get :: "bytes \<Rightarrow> nat \<Rightarrow> u8" where
  "safe_get bs i = (if i < length bs then bs ! i else 0)"

definition is_cont :: "u8 \<Rightarrow> bool" where
  "is_cont b \<longleftrightarrow> b AND 0xC0 = 0x80"

definition second_ok3 :: "u8 \<Rightarrow> u8 \<Rightarrow> bool" where
  "second_ok3 b s \<longleftrightarrow>
     b = 0xE0 \<and> 0xA0 \<le> s \<and> s \<le> 0xBF \<or> 0xE1 \<le> b \<and> b \<le> 0xEC \<and> 0x80 \<le> s \<and> s \<le> 0xBF
     \<or> b = 0xED \<and> 0x80 \<le> s \<and> s \<le> 0x9F \<or> 0xEE \<le> b \<and> b \<le> 0xEF \<and> 0x80 \<le> s \<and> s \<le> 0xBF"

definition second_ok4 :: "u8 \<Rightarrow> u8 \<Rightarrow> bool" where
  "second_ok4 b s \<longleftrightarrow>
     b = 0xF0 \<and> 0x90 \<le> s \<and> s \<le> 0xBF \<or> 0xF1 \<le> b \<and> b \<le> 0xF3 \<and> 0x80 \<le> s \<and> s \<le> 0xBF
     \<or> b = 0xF4 \<and> 0x80 \<le> s \<and> s \<le> 0x8F"

fun utf8_step :: "bytes \<Rightarrow> bool \<times> nat" where
  "utf8_step [] = (True, 0)"
| "utf8_step (b # r) =
     (if b < 0x80 then (True, 1)
      else if 0xC2 \<le> b \<and> b \<le> 0xDF then
        (if is_cont (safe_get r 0) then (True, 2) else (False, 1))
      else if 0xE0 \<le> b \<and> b \<le> 0xEF then
        (if second_ok3 b (safe_get r 0)
         then if is_cont (safe_get r 1) then (True, 3) else (False, 2)
         else (False, 1))
      else if 0xF0 \<le> b \<and> b \<le> 0xF4 then
        (if second_ok4 b (safe_get r 0)
         then if is_cont (safe_get r 1)
              then if is_cont (safe_get r 2) then (True, 4) else (False, 3)
              else (False, 2)
         else (False, 1))
      else (False, 1))"

lemma utf8_step_pos: "bs \<noteq> [] \<Longrightarrow> 0 < snd (utf8_step bs)"
  by (cases bs) auto

definition replacement_char :: bytes where
  "replacement_char = [0xEF, 0xBF, 0xBD]"

function from_utf8_lossy :: "bytes \<Rightarrow> bytes" where
  "from_utf8_lossy bs =
     (if bs = [] then []
      else (if fst (utf8_step bs) then take (snd (utf8_step bs)) bs else replacement_char)
        @ from_utf8_lossy (drop (snd (utf8_step bs)) bs))"
  by pat_completeness auto
termination
  by (relation "measure length") (auto simp: utf8_step_pos)

function valid_utf8 :: "bytes \<Rightarrow> bool" where
  "valid_utf8 bs =
     (if bs = [] then True
      else if fst (utf8_step bs) then valid_utf8 (drop (snd (utf8_step bs)) bs)
      else False)"
  by pat_completeness auto
termination
  by (relation "measure length") (auto simp: utf8_step_pos)

declare from_utf8_lossy.simps [simp del] valid_utf8.simps [simp del]

lemma safe_get_cont: "is_cont (safe_get r i) \<Longrightarrow> i < length r"
  by (auto simp: safe_get_def is_cont_def split: if_splits)

lemma safe_get_second: "second_ok3 b (safe_get r i) \<Longrightarrow> i < length r"
  "second_ok4 b (safe_get r i) \<Longrightarrow> i < length r"
  by (auto simp: safe_get_def second_ok3_def second_ok4_def split: if_splits)

lemma safe_get_append: "i < length r \<Longrightarrow> safe_get (r @ x) i = safe_get r i"
  "i < n \<Longrightarrow> safe_get (take n r) i = safe_get r i"
  by (simp_all add: safe_get_def nth_append)

lemmas safe_get_bounds = safe_get_cont safe_get_second

lemma utf8_step_cong:
  assumes "utf8_step (b # r) = (True, n)" "\<And>i. Suc i < n \<Longrightarrow> safe_get r' i = safe_get r i"
  shows "utf8_step (b # r') = (True, n)"
  using assms(1) assms(2) [of 0] assms(2) [of 1] assms(2) [of 2]
  by (simp split: if_splits) linarith

declare utf8_step.simps [simp del]

lemma utf8_step_ok:
  assumes "utf8_step bs = (True, n)"
  shows "n \<le> length bs" and "utf8_step (take n bs @ x) = (True, n) \<or> bs = []"
proof -
  show n: "n \<le> length bs"
    using assms by (cases bs) (auto simp: utf8_step.simps Suc_le_eq split: if_splits dest!: safe_get_bounds)
  show "utf8_step (take n bs @ x) = (True, n) \<or> bs = []"
  proof (cases bs)
    case (Cons b r)
    have "n = Suc (n - 1)" using assms Cons utf8_step_pos [of bs] by simp
    then have t: "take n bs @ x = b # (take (n - 1) r @ x)"
      using Cons by (metis append_Cons take_Suc_Cons)
    have l: "length (take (n - 1) r) = n - 1" using n Cons by simp
    have g: "safe_get (take (n - 1) r @ x) i = safe_get r i" if "Suc i < n" for i
      using that l by (simp add: safe_get_append)
    have "utf8_step (b # r) = (True, n)" using assms Cons by simp
    then have "utf8_step (b # (take (n - 1) r @ x)) = (True, n)"
      using g by (rule utf8_step_cong)
    then show ?thesis unfolding t ..
  qed simp
qed

lemma from_utf8_lossy_valid: "valid_utf8 bs \<Longrightarrow> from_utf8_lossy bs = bs"
proof (induction bs rule: valid_utf8.induct)
  case (1 bs)
  then show ?case
    by (subst from_utf8_lossy.simps) (auto simp: valid_utf8.simps [of bs])
qed

lemma valid_utf8_Nil [simp]: "valid_utf8 []"
  by (simp add: valid_utf8.simps)

lemma valid_replacement: "valid_utf8 y \<Longrightarrow> valid_utf8 (replacement_char @ y)"
  by (subst valid_utf8.simps)
     (simp add: utf8_step.simps replacement_char_def second_ok3_def safe_get_def is_cont_def)

lemma valid_from_utf8_lossy: "valid_utf8 (from_utf8_lossy bs)"
proof (induction bs rule: from_utf8_lossy.induct)
  case (1 bs)
  show ?case
  proof (cases "bs = []")
    case True
    then show ?thesis by (simp add: from_utf8_lossy.simps)
  next
    case False
    let ?n = "snd (utf8_step bs)" and ?y = "from_utf8_lossy (drop (snd (utf8_step bs)) bs)"
    have y: "valid_utf8 ?y" using "1.IH" False by simp
    show ?thesis
    proof (cases "fst (utf8_step bs)")
      case True
      then have s: "utf8_step bs = (True, ?n)" by (simp add: prod_eq_iff)
      have "utf8_step (take ?n bs @ ?y) = (True, ?n)" "?n \<le> length bs"
        using utf8_step_ok(1) [OF s] utf8_step_ok(2) [OF s, of ?y] False by auto
      then have "valid_utf8 (take ?n bs @ ?y)"
        using y by (subst valid_utf8.simps) simp
      then show ?thesis using True False by (simp add: from_utf8_lossy.simps [of bs])
    next
      case False
      then show ?thesis using \<open>bs \<noteq> []\<close> y
        by (simp add: from_utf8_lossy.simps [of bs] valid_replacement)
    qed
  qed
qed

section \<open>Cutting strings at character boundaries\<close>

lemma cont_words: "\<forall>n \<in> set [128..<192]. (word_of_nat n :: u8) AND 0xC0 = 0x80"
  by (simp add: upt_rec)

lemma is_cont_range: "0x80 \<le> s \<Longrightarrow> s \<le> 0xBF \<Longrightarrow> is_cont s"
proof -
  assume "0x80 \<le> s" "s \<le> 0xBF"
  then have "128 \<le> unat s" "unat s < 192" by (auto simp: word_le_nat_alt)
  then have "unat s \<in> set [128..<192]" by (simp only: set_upt atLeastLessThan_iff)
  then have "(word_of_nat (unat s) :: u8) AND 0xC0 = 0x80" using cont_words by blast
  then show "is_cont s" by (simp add: is_cont_def)
qed

lemma second_cont: "second_ok3 b s \<Longrightarrow> is_cont s" "second_ok4 b s \<Longrightarrow> is_cont s"
proof -
  have "0x80 \<le> s \<and> s \<le> 0xBF" if "second_ok3 b s \<or> second_ok4 b s"
    using that unfolding second_ok3_def second_ok4_def
    by (auto intro: order_trans [of "0x80" "0xA0"] order_trans [of "0x80" "0x90"]
        order_trans [of s "0x9F"] order_trans [of s "0x8F"])
  then show "second_ok3 b s \<Longrightarrow> is_cont s" "second_ok4 b s \<Longrightarrow> is_cont s" using is_cont_range by blast+
qed

lemma utf8_step_conts:
  assumes "utf8_step (b # r) = (True, n)" "Suc i < n"
  shows "is_cont (safe_get r i)"
proof -
  have "i = 0 \<or> i = 1 \<or> i = 2" using assms by (auto simp: utf8_step.simps split: if_splits)
  then show ?thesis using assms by (auto simp: utf8_step.simps split: if_splits dest: second_cont)
qed

lemma valid_utf8_step: "bs \<noteq> [] \<Longrightarrow> valid_utf8 bs \<longleftrightarrow>
    (\<exists>n. utf8_step bs = (True, n) \<and> 0 < n \<and> n \<le> length bs \<and> valid_utf8 (drop n bs))"
  using utf8_step_pos [of bs] utf8_step_ok(1) [of bs]
  by (subst valid_utf8.simps) (cases "utf8_step bs"; auto)

lemma valid_utf8_append: "valid_utf8 a \<Longrightarrow> valid_utf8 b \<Longrightarrow> valid_utf8 (a @ b)"
proof (induction "length a" arbitrary: a rule: less_induct)
  case less
  show ?case
  proof (cases "a = []")
    case False
    then obtain n where n: "utf8_step a = (True, n)" "0 < n" "n \<le> length a" "valid_utf8 (drop n a)"
      using less.prems(1) valid_utf8_step by blast
    have "utf8_step (a @ b) = (True, n)"
      using utf8_step_ok(2) [OF n(1), of "drop n a @ b"] False by (simp flip: append_assoc)
    moreover have "valid_utf8 (drop n a @ b)" using less.hyps [of "drop n a"] n False less.prems(2) by simp
    ultimately show ?thesis using n False valid_utf8_step [of "a @ b"] by auto
  qed (use less.prems in simp)
qed

lemma valid_utf8_rest: "valid_utf8 a \<Longrightarrow> valid_utf8 (a @ b) \<Longrightarrow> valid_utf8 b"
proof (induction "length a" arbitrary: a rule: less_induct)
  case less
  show ?case
  proof (cases "a = []")
    case False
    then obtain n where n: "utf8_step a = (True, n)" "0 < n" "n \<le> length a" "valid_utf8 (drop n a)"
      using less.prems(1) valid_utf8_step by blast
    have "utf8_step (a @ b) = (True, n)"
      using utf8_step_ok(2) [OF n(1), of "drop n a @ b"] False by (simp flip: append_assoc)
    then have "valid_utf8 (drop n a @ b)" using less.prems(2) False n(3) valid_utf8_step [of "a @ b"] by auto
    then show ?thesis using less.hyps [of "drop n a"] n False by simp
  qed (use less.prems in simp)
qed

lemma valid_utf8_cut:
  assumes "valid_utf8 (a @ b)" "b = [] \<or> \<not> is_cont (hd b)"
  shows "valid_utf8 a \<and> valid_utf8 b"
  using assms
proof (induction "length a" arbitrary: a rule: less_induct)
  case less
  show ?case
  proof (cases a)
    case (Cons x r)
    then obtain n where n: "utf8_step (a @ b) = (True, n)" "0 < n" "n \<le> length (a @ b)" "valid_utf8 (drop n (a @ b))"
      using less.prems(1) valid_utf8_step [of "a @ b"] by auto
    have le: "n \<le> length a"
    proof (rule ccontr)
      assume "\<not> n \<le> length a"
      then have "Suc (length r) < n" using Cons by simp
      then have "is_cont (safe_get (r @ b) (length r))"
        using utf8_step_conts [of x "r @ b" n] n(1) Cons by simp
      moreover have "b \<noteq> []" using \<open>\<not> n \<le> length a\<close> n(3) by auto
      ultimately show False using less.prems(2) by (simp add: safe_get_def nth_append hd_conv_nth)
    qed
    have "valid_utf8 (drop n a @ b)" using n(4) le by simp
    then have IH: "valid_utf8 (drop n a) \<and> valid_utf8 b"
      using less.hyps [of "drop n a"] less.prems(2) n(2) Cons by simp
    have "take n (a @ b) @ drop n a = a" using le by simp
    then have "utf8_step a = (True, n)" using utf8_step_ok(2) [OF n(1), of "drop n a"] Cons by auto
    then show ?thesis using IH n(2) le Cons valid_utf8_step [of a] by auto
  qed (use less.prems in simp)
qed

lemma valid_utf8_ascii: "\<forall>b \<in> set s. b < 0x80 \<Longrightarrow> valid_utf8 s"
  by (induction s) (simp_all add: valid_utf8.simps [of "_ # _"] utf8_step.simps)

lemma ascii_not_cont: "c < 0x80 \<Longrightarrow> \<not> is_cont c"
  using word_and_le2 [of c "0xC0"] word_and_le1 [of c "0xC0"] by (auto simp: is_cont_def)

end
