(* ===== verification/Kad_Tag.thy ===== *)
theory Kad_Tag
  imports Utf8 Kad_Id
begin

text \<open>
  The KAD tag codec: \<^verbatim>\<open>TagName\<close>, \<^verbatim>\<open>TagValue\<close>, \<^verbatim>\<open>KadTag\<close>, \<^verbatim>\<open>read_tag_list\<close> and
  \<^verbatim>\<open>write_tag_list\<close> of \<^verbatim>\<open>src-tauri/src/network/kad/types.rs\<close>. A \<^verbatim>\<open>String\<close> is its UTF-8
  bytes, an \<^verbatim>\<open>f32\<close> its 32-bit pattern. Readers return the remaining bytes; writers
  return the bytes written or the error the source raises. Every tag-carrying packet of
  the protocol goes through these functions.
\<close>

unbundle bit_operations_syntax

section \<open>Tags\<close>

datatype tag_name = Id u8 | Str bytes

datatype tag_value =
    Hash bytes
  | String bytes
  | Uint64 u64
  | Uint32 u32
  | Uint16 u16
  | Uint8 u8
  | Float32 u32
  | Bool bool
  | Blob bytes
  | Bsob bytes

record kad_tag =
  tname :: tag_name
  tvalue :: tag_value

definition TAGTYPE_HASH :: u8 where "TAGTYPE_HASH = 0x01"
definition TAGTYPE_STRING :: u8 where "TAGTYPE_STRING = 0x02"
definition TAGTYPE_UINT32 :: u8 where "TAGTYPE_UINT32 = 0x03"
definition TAGTYPE_FLOAT32 :: u8 where "TAGTYPE_FLOAT32 = 0x04"
definition TAGTYPE_BOOL :: u8 where "TAGTYPE_BOOL = 0x05"
definition TAGTYPE_BOOLARRAY :: u8 where "TAGTYPE_BOOLARRAY = 0x06"
definition TAGTYPE_BLOB :: u8 where "TAGTYPE_BLOB = 0x07"
definition TAGTYPE_UINT16 :: u8 where "TAGTYPE_UINT16 = 0x08"
definition TAGTYPE_UINT8 :: u8 where "TAGTYPE_UINT8 = 0x09"
definition TAGTYPE_BSOB :: u8 where "TAGTYPE_BSOB = 0x0A"
definition TAGTYPE_UINT64 :: u8 where "TAGTYPE_UINT64 = 0x0B"
definition TAGTYPE_STR1 :: u8 where "TAGTYPE_STR1 = 0x11"
definition TAGTYPE_STR22 :: u8 where "TAGTYPE_STR22 = 0x26"

lemmas tagtypes =
  TAGTYPE_HASH_def TAGTYPE_STRING_def TAGTYPE_UINT32_def TAGTYPE_FLOAT32_def TAGTYPE_BOOL_def
  TAGTYPE_BOOLARRAY_def TAGTYPE_BLOB_def TAGTYPE_UINT16_def TAGTYPE_UINT8_def
  TAGTYPE_BSOB_def TAGTYPE_UINT64_def TAGTYPE_STR1_def TAGTYPE_STR22_def

definition MAX_TAG_STRING_LEN :: nat where "MAX_TAG_STRING_LEN = 65536"
definition MAX_TAG_BLOB_LEN :: nat where "MAX_TAG_BLOB_LEN = 262144"
definition MAX_TAG_NAME_LEN :: nat where "MAX_TAG_NAME_LEN = 256"
definition MAX_TAG_LIST_SIZE :: nat where "MAX_TAG_LIST_SIZE = 32"

lemmas tag_limits =
  MAX_TAG_STRING_LEN_def MAX_TAG_BLOB_LEN_def MAX_TAG_NAME_LEN_def MAX_TAG_LIST_SIZE_def

definition read_value_bytes :: "nat \<Rightarrow> bytes reader" where
  "read_value_bytes len bs =
     (let buf = take len bs
      in if length buf \<noteq> len then Inl UnexpectedEof else Inr (buf, drop len bs))"

definition read_tag_name :: "u8 \<Rightarrow> tag_name reader" where
  "read_tag_name tag_type bs =
     (if tag_type AND 0x80 \<noteq> 0
      then bind_r (read_u8 bs) (\<lambda>(i, bs). Inr (Id i, bs))
      else bind_r (read_u16 bs) (\<lambda>(n, bs).
        let name_len = unat n
        in if MAX_TAG_NAME_LEN < name_len then Inl InvalidData
           else if name_len = 1 then bind_r (read_u8 bs) (\<lambda>(i, bs). Inr (Id i, bs))
           else bind_r (read_exact name_len bs) (\<lambda>(s, bs). Inr (Str (from_utf8_lossy s), bs))))"

definition read_tag_value :: "u8 \<Rightarrow> tag_value reader" where
  "read_tag_value real_type bs =
     (if real_type = TAGTYPE_HASH then
        bind_r (read_exact 16 bs) (\<lambda>(h, bs). Inr (Hash h, bs))
      else if real_type = TAGTYPE_STRING then
        bind_r (read_u16 bs) (\<lambda>(n, bs).
          if MAX_TAG_STRING_LEN < unat n then Inl InvalidData
          else bind_r (read_value_bytes (unat n) bs)
                 (\<lambda>(s, bs). Inr (String (from_utf8_lossy s), bs)))
      else if real_type = TAGTYPE_UINT64 then
        bind_r (read_u64 bs) (\<lambda>(v, bs). Inr (Uint64 v, bs))
      else if real_type = TAGTYPE_UINT32 then
        bind_r (read_u32 bs) (\<lambda>(v, bs). Inr (Uint32 v, bs))
      else if real_type = TAGTYPE_UINT16 then
        bind_r (read_u16 bs) (\<lambda>(v, bs). Inr (Uint16 v, bs))
      else if real_type = TAGTYPE_UINT8 then
        bind_r (read_u8 bs) (\<lambda>(v, bs). Inr (Uint8 v, bs))
      else if real_type = TAGTYPE_FLOAT32 then
        bind_r (read_u32 bs) (\<lambda>(v, bs). Inr (Float32 v, bs))
      else if real_type = TAGTYPE_BOOL then
        bind_r (read_u8 bs) (\<lambda>(v, bs). Inr (Bool (v \<noteq> 0), bs))
      else if real_type = TAGTYPE_BOOLARRAY then
        bind_r (read_u16 bs) (\<lambda>(n, bs).
          let byte_count = (unat n + 7) div 8
          in if MAX_TAG_BLOB_LEN < byte_count then Inl InvalidData
             else bind_r (read_value_bytes byte_count bs) (\<lambda>(b, bs). Inr (Blob b, bs)))
      else if real_type = TAGTYPE_BLOB then
        bind_r (read_u32 bs) (\<lambda>(n, bs).
          if MAX_TAG_BLOB_LEN < unat n then Inl InvalidData
          else bind_r (read_value_bytes (unat n) bs) (\<lambda>(b, bs). Inr (Blob b, bs)))
      else if real_type = TAGTYPE_BSOB then
        bind_r (read_u8 bs) (\<lambda>(n, bs).
          bind_r (read_exact (unat n) bs) (\<lambda>(b, bs). Inr (Bsob b, bs)))
      else if TAGTYPE_STR1 \<le> real_type \<and> real_type \<le> TAGTYPE_STR22 then
        bind_r (read_exact (unat (real_type - TAGTYPE_STR1 + 1)) bs)
          (\<lambda>(s, bs). Inr (String (from_utf8_lossy s), bs))
      else Inl InvalidData)"

definition tag_read_from :: "kad_tag reader" where
  "tag_read_from bs =
     bind_r (read_u8 bs) (\<lambda>(tag_type, bs).
     bind_r (read_tag_name tag_type bs) (\<lambda>(name, bs).
     bind_r (read_tag_value (tag_type AND 0x7F) bs) (\<lambda>(val, bs).
       Inr (\<lparr>tname = name, tvalue = val\<rparr>, bs))))"

fun type_byte :: "tag_value \<Rightarrow> u8" where
  "type_byte (Hash _) = TAGTYPE_HASH"
| "type_byte (String _) = TAGTYPE_STRING"
| "type_byte (Uint64 _) = TAGTYPE_UINT64"
| "type_byte (Uint32 _) = TAGTYPE_UINT32"
| "type_byte (Uint16 _) = TAGTYPE_UINT16"
| "type_byte (Uint8 _) = TAGTYPE_UINT8"
| "type_byte (Float32 _) = TAGTYPE_FLOAT32"
| "type_byte (Bool _) = TAGTYPE_BOOL"
| "type_byte (Blob _) = TAGTYPE_BLOB"
| "type_byte (Bsob _) = TAGTYPE_BSOB"

fun write_tag_value :: "tag_value \<Rightarrow> io_error + bytes" where
  "write_tag_value (Hash h) = Inr h"
| "write_tag_value (String s) =
     (if length s \<le> 65535 then Inr (le16 (word_of_nat (length s)) @ s) else Inl InvalidInput)"
| "write_tag_value (Uint64 v) = Inr (le64 v)"
| "write_tag_value (Uint32 v) = Inr (le32 v)"
| "write_tag_value (Uint16 v) = Inr (le16 v)"
| "write_tag_value (Uint8 v) = Inr [v]"
| "write_tag_value (Float32 v) = Inr (le32 v)"
| "write_tag_value (Bool v) = Inr [if v then 1 else 0]"
| "write_tag_value (Blob b) = Inr (le32 (word_of_nat (length b)) @ b)"
| "write_tag_value (Bsob b) =
     (if length b \<le> 255 then Inr (word_of_nat (length b) # b) else Inl InvalidInput)"

fun name_bytes :: "tag_name \<Rightarrow> bytes" where
  "name_bytes (Id i) = [i]"
| "name_bytes (Str s) = s"

definition tag_write_to :: "kad_tag \<Rightarrow> io_error + bytes" where
  "tag_write_to t =
     (let nb = name_bytes (tname t)
      in if 65535 < length nb then Inl InvalidInput
         else bind_r (write_tag_value (tvalue t)) (\<lambda>v.
           Inr (type_byte (tvalue t) # le16 (word_of_nat (length nb)) @ nb @ v)))"

text \<open>The loop of \<^verbatim>\<open>read_tag_list\<close>: \<open>n\<close> tags are left, \<open>i\<close> were read.\<close>

fun read_tag_loop :: "nat \<Rightarrow> nat \<Rightarrow> kad_tag list \<Rightarrow> kad_tag list reader" where
  "read_tag_loop 0 i tags bs = Inr (tags, bs)"
| "read_tag_loop (Suc n) i tags bs =
     bind_r (tag_read_from bs) (\<lambda>(tag, bs).
       read_tag_loop n (Suc i) (if i < MAX_TAG_LIST_SIZE then tags @ [tag] else tags) bs)"

definition read_tag_list :: "kad_tag list reader" where
  "read_tag_list bs = bind_r (read_u8 bs) (\<lambda>(count, bs). read_tag_loop (unat count) 0 [] bs)"

fun write_tags :: "kad_tag list \<Rightarrow> io_error + bytes" where
  "write_tags [] = Inr []"
| "write_tags (t # ts) =
     bind_r (tag_write_to t) (\<lambda>b. bind_r (write_tags ts) (\<lambda>bs. Inr (b @ bs)))"

definition write_tag_list :: "kad_tag list \<Rightarrow> io_error + bytes" where
  "write_tag_list tags =
     (if 255 < length tags then Inl InvalidInput
      else bind_r (write_tags tags) (\<lambda>bs. Inr (word_of_nat (length tags) # bs)))"

section \<open>Accessors\<close>

definition string_value :: "kad_tag \<Rightarrow> bytes option" where
  "string_value t = (case tvalue t of String s \<Rightarrow> Some s | _ \<Rightarrow> None)"

definition uint32_value :: "kad_tag \<Rightarrow> u32 option" where
  "uint32_value t = (case tvalue t of Uint32 v \<Rightarrow> Some v | _ \<Rightarrow> None)"

definition uint16_value :: "kad_tag \<Rightarrow> u16 option" where
  "uint16_value t = (case tvalue t of Uint16 v \<Rightarrow> Some v | _ \<Rightarrow> None)"

definition uint8_value :: "kad_tag \<Rightarrow> u8 option" where
  "uint8_value t = (case tvalue t of Uint8 v \<Rightarrow> Some v | _ \<Rightarrow> None)"

definition uint64_value :: "kad_tag \<Rightarrow> u64 option" where
  "uint64_value t = (case tvalue t of Uint64 v \<Rightarrow> Some v | _ \<Rightarrow> None)"

definition hash_value :: "kad_tag \<Rightarrow> bytes option" where
  "hash_value t = (case tvalue t of Hash h \<Rightarrow> Some h | _ \<Rightarrow> None)"

definition blob_value :: "kad_tag \<Rightarrow> bytes option" where
  "blob_value t = (case tvalue t of Blob b \<Rightarrow> Some b | Bsob b \<Rightarrow> Some b | _ \<Rightarrow> None)"

definition as_uint :: "kad_tag \<Rightarrow> u64 option" where
  "as_uint t =
     (case tvalue t of
        Uint8 v \<Rightarrow> Some (ucast v)
      | Uint16 v \<Rightarrow> Some (ucast v)
      | Uint32 v \<Rightarrow> Some (ucast v)
      | Uint64 v \<Rightarrow> Some v
      | _ \<Rightarrow> None)"

definition as_file_size :: "kad_tag \<Rightarrow> u64 option" where
  "as_file_size t =
     (case tvalue t of
        Bsob b \<Rightarrow> if length b = 8 then Some (word_of_nat (le_val b)) else None
      | _ \<Rightarrow> as_uint t)"

section \<open>Representable tags\<close>

text \<open>
  What the writer can represent and the reader gives back: string names of one byte
  come back as identifiers (\<open>norm_name\<close>), and the limits are the reader's.
\<close>

fun value_ok :: "tag_value \<Rightarrow> bool" where
  "value_ok (Hash h) = (length h = 16)"
| "value_ok (String s) = (valid_utf8 s \<and> length s \<le> 65535)"
| "value_ok (Blob b) = (length b \<le> MAX_TAG_BLOB_LEN)"
| "value_ok (Bsob b) = (length b \<le> 255)"
| "value_ok _ = True"

fun name_ok :: "tag_name \<Rightarrow> bool" where
  "name_ok (Id i) = True"
| "name_ok (Str s) = (valid_utf8 s \<and> length s \<le> MAX_TAG_NAME_LEN)"

fun norm_name :: "tag_name \<Rightarrow> tag_name" where
  "norm_name (Str [b]) = Id b"
| "norm_name n = n"

definition tag_ok :: "kad_tag \<Rightarrow> bool" where
  "tag_ok t \<longleftrightarrow> name_ok (tname t) \<and> value_ok (tvalue t)"

definition norm_tag :: "kad_tag \<Rightarrow> kad_tag" where
  "norm_tag t = t\<lparr>tname := norm_name (tname t)\<rparr>"

definition tag_bytes :: "kad_tag \<Rightarrow> bytes" where
  "tag_bytes t = (case tag_write_to t of Inr b \<Rightarrow> b | Inl _ \<Rightarrow> [])"

section \<open>Lemmas\<close>

lemma read_value_bytes_append [simp]:
  "n = length xs \<Longrightarrow> read_value_bytes n (xs @ r) = Inr (xs, r)"
  by (simp add: read_value_bytes_def)

lemma unat_of_nat_small:
  "n < 256 \<Longrightarrow> unat (word_of_nat n :: u8) = n" "n < 65536 \<Longrightarrow> unat (word_of_nat n :: u16) = n"
  "n < 4294967296 \<Longrightarrow> unat (word_of_nat n :: u32) = n"
  by (simp_all add: unat_of_nat)

lemma type_byte_bits [simp]: "type_byte v AND 0x80 = 0" "type_byte v AND 0x7F = type_byte v"
  by (cases v; simp add: tagtypes)+

lemma read_tag_value_write:
  assumes "value_ok v"
  shows "\<exists>bs. write_tag_value v = Inr bs
    \<and> (\<forall>rest. read_tag_value (type_byte v) (bs @ rest) = Inr (v, rest))"
  using assms
  by (cases v)
     (auto simp: read_tag_value_def tagtypes tag_limits unat_of_nat_small from_utf8_lossy_valid)

lemma read_tag_name_write:
  assumes "name_ok n" "length (name_bytes n) \<le> 256"
  shows "read_tag_name (type_byte v) (le16 (word_of_nat (length (name_bytes n))) @ name_bytes n @ rest)
    = Inr (norm_name n, rest)"
proof (cases n)
  case (Id i)
  then show ?thesis
    by (simp add: read_tag_name_def tag_limits unat_of_nat_small)
next
  case (Str s)
  show ?thesis
  proof (cases "length s = 1")
    case True
    then obtain b where "s = [b]" by (cases s) auto
    then show ?thesis using Str
      by (simp add: read_tag_name_def tag_limits unat_of_nat_small)
  next
    case False
    then have "norm_name (Str s) = Str s" by (cases "Str s" rule: norm_name.cases) auto
    then show ?thesis using Str False assms
      by (simp add: read_tag_name_def tag_limits unat_of_nat_small from_utf8_lossy_valid)
  qed
qed

lemma tag_read_write:
  assumes "tag_ok t"
  shows "\<exists>bs. tag_write_to t = Inr bs
    \<and> (\<forall>rest. tag_read_from (bs @ rest) = Inr (norm_tag t, rest))"
proof -
  have nlen: "length (name_bytes (tname t)) \<le> 256"
    using assms by (cases "tname t") (auto simp: tag_ok_def tag_limits)
  obtain vb where vb: "write_tag_value (tvalue t) = Inr vb"
    "\<And>rest. read_tag_value (type_byte (tvalue t)) (vb @ rest) = Inr (tvalue t, rest)"
    using read_tag_value_write [of "tvalue t"] assms by (auto simp: tag_ok_def)
  have "tag_write_to t = Inr (type_byte (tvalue t)
      # le16 (word_of_nat (length (name_bytes (tname t)))) @ name_bytes (tname t) @ vb)"
    using nlen vb by (simp add: tag_write_to_def Let_def)
  moreover have "tag_read_from ((type_byte (tvalue t)
      # le16 (word_of_nat (length (name_bytes (tname t)))) @ name_bytes (tname t) @ vb) @ rest)
      = Inr (norm_tag t, rest)" for rest
    using read_tag_name_write [OF _ nlen, of "tvalue t" "vb @ rest"] assms vb(2)
    by (simp add: tag_read_from_def tag_ok_def norm_tag_def)
  ultimately show ?thesis by blast
qed

lemma tag_read_bytes:
  "tag_ok t \<Longrightarrow> tag_read_from (tag_bytes t @ rest) = Inr (norm_tag t, rest)"
  using tag_read_write [of t] by (auto simp: tag_bytes_def)

lemma norm_tag_idem: "norm_name (norm_name n) = norm_name n"
  by (cases n rule: norm_name.cases) auto

lemma norm_tag_id: "norm_name (tname t) = tname t \<Longrightarrow> norm_tag t = t"
  by (simp add: norm_tag_def)

interpretation tag_codec: wire_codec tag_bytes tag_read_from
  "\<lambda>t. tag_ok t \<and> norm_name (tname t) = tname t"
  by unfold_locales (simp add: tag_read_bytes norm_tag_id)

lemma write_tags_ok:
  "\<forall>t \<in> set ts. tag_ok t \<Longrightarrow> write_tags ts = Inr (concat (map tag_bytes ts))"
  by (induction ts) (use tag_read_write in \<open>force simp: tag_bytes_def\<close>)+

lemma read_tag_loop_many:
  "read_tag_loop n i tags bs =
     bind_r (read_many tag_read_from n bs) (\<lambda>(ts, r). Inr (tags @ take (32 - i) ts, r))"
proof (induction n arbitrary: i tags bs)
  case 0
  then show ?case by simp
next
  case (Suc n)
  show ?case
  proof (cases "tag_read_from bs")
    case (Inl e)
    then show ?thesis by simp
  next
    case (Inr p)
    obtain t r where p: "p = (t, r)" by (cases p)
    have "32 - i = Suc (32 - Suc i)" if "i < 32" using that by simp
    then show ?thesis
      using Inr p Suc.IH [of "Suc i" _ r]
      by (cases "read_many tag_read_from n r") (auto simp: tag_limits)
  qed
qed

definition tag_list_bytes :: "kad_tag list \<Rightarrow> bytes" where
  "tag_list_bytes tags = word_of_nat (length tags) # concat (map tag_bytes tags)"

definition tags_ok :: "kad_tag list \<Rightarrow> bool" where
  "tags_ok tags \<longleftrightarrow> length tags \<le> 255 \<and> (\<forall>t \<in> set tags. tag_ok t)"

lemma write_tag_list_ok: "tags_ok tags \<Longrightarrow> write_tag_list tags = Inr (tag_list_bytes tags)"
  by (simp add: write_tag_list_def write_tags_ok tag_list_bytes_def tags_ok_def)

lemma read_tag_list_ok:
  assumes "tags_ok tags"
  shows "read_tag_list (tag_list_bytes tags @ rest) = Inr (take 32 (map norm_tag tags), rest)"
proof -
  have "read_many tag_read_from (length tags) (concat (map tag_bytes tags) @ rest)
      = Inr (map norm_tag tags, rest)"
    using read_many_map [of tags tag_read_from tag_bytes norm_tag "length tags" rest] assms
    by (simp add: tag_read_bytes tags_ok_def)
  then show ?thesis using assms
    by (simp add: read_tag_list_def read_tag_loop_many unat_of_nat_small tag_list_bytes_def
        tags_ok_def)
qed

section \<open>Properties of the tag codec\<close>

text \<open>
  C35: reading back a written tag list. Every list of at most 255 representable tags is
  written without error, and reading it yields its first 32 tags (one-byte string names
  as identifiers) and leaves the cursor exactly behind the list, so that what follows in
  the packet is parsed correctly even when tags are discarded.
\<close>

theorem tag_list_round_trip:
  assumes "length tags \<le> 255" "\<forall>t \<in> set tags. tag_ok t"
  shows "\<exists>bs. write_tag_list tags = Inr bs
    \<and> (\<forall>rest. read_tag_list (bs @ rest) = Inr (take 32 (map norm_tag tags), rest))"
  using assms write_tag_list_ok read_tag_list_ok by (simp add: tags_ok_def)

theorem tag_list_round_trip_witness:
  "\<exists>bs. write_tag_list [\<lparr>tname = Id 0xFD, tvalue = Uint16 40615\<rparr>] = Inr bs
    \<and> read_tag_list (bs @ [7]) = Inr ([\<lparr>tname = Id 0xFD, tvalue = Uint16 40615\<rparr>], [7])"
proof -
  let ?ts = "[\<lparr>tname = Id 0xFD, tvalue = Uint16 40615\<rparr>]"
  have "length ?ts \<le> 255" "\<forall>t \<in> set ?ts. tag_ok t"
    by (simp_all add: tag_ok_def)
  from tag_list_round_trip [OF this] show ?thesis
    by (auto simp: norm_tag_def)
qed

text \<open>
  The errors of the tag writer. Writing fails exactly when the name exceeds 65535
  bytes, a string value exceeds 65535 bytes or a small blob exceeds 255 bytes: nothing
  is silently truncated.
\<close>

theorem tag_write_errors:
  "tag_write_to t = Inl e \<longleftrightarrow> e = InvalidInput \<and>
     (65535 < length (name_bytes (tname t))
      \<or> (\<exists>s. tvalue t = String s \<and> 65535 < length s)
      \<or> (\<exists>b. tvalue t = Bsob b \<and> 255 < length b))"
  by (cases "tvalue t") (auto simp: tag_write_to_def Let_def)

text \<open>
  C36: the two limits on tag names disagree. A tag whose string name has between 257 and
  65535 bytes is written without error, and the program's own reader rejects the result.
\<close>

theorem long_tag_name_not_read_back:
  assumes "256 < length s" "length s \<le> 65535"
  shows "\<exists>bs. tag_write_to \<lparr>tname = Str s, tvalue = Uint8 v\<rparr> = Inr bs
    \<and> tag_read_from (bs @ rest) = Inl InvalidData"
  using assms type_byte_bits(1) [of "Uint8 v"]
  by (simp add: tag_write_to_def tag_read_from_def read_tag_name_def Let_def tag_limits
      unat_of_nat_small)

theorem long_tag_name_not_read_back_witness:
  "\<exists>bs. tag_write_to \<lparr>tname = Str (replicate 300 65), tvalue = Uint8 1\<rparr> = Inr bs
    \<and> tag_read_from (bs @ []) = Inl InvalidData"
  using long_tag_name_not_read_back [of "replicate 300 65" 1 "[]"] by simp

end
