(* ===== verification/Kad_Message.thy ===== *)
theory Kad_Message
  imports Kad_Contact Kad_Tag
begin

text \<open>
  The KAD packet codec, \<^verbatim>\<open>src-tauri/src/network/kad/messages.rs\<close>: the message type, the
  decoder and the encoder. Each branch of \<^verbatim>\<open>decode_message\<close> is a definition of its own.
  The compression library is not part of the sources: a decompressor is a parameter that
  maps its input to the chunks successive \<^verbatim>\<open>read\<close> calls return and to the error that ends
  them, if any; the compressor is a function. The clock stamped on every contact of one
  packet is the argument \<open>now\<close>.
\<close>

unbundle bit_operations_syntax

section \<open>Opcodes and limits\<close>

definition OP_KADEMLIAHEADER :: u8 where "OP_KADEMLIAHEADER = 0xE4"
definition OP_KADEMLIAPACKEDPROT :: u8 where "OP_KADEMLIAPACKEDPROT = 0xE5"
definition KADEMLIA2_BOOTSTRAP_REQ :: u8 where "KADEMLIA2_BOOTSTRAP_REQ = 0x01"
definition KADEMLIA2_BOOTSTRAP_RES :: u8 where "KADEMLIA2_BOOTSTRAP_RES = 0x09"
definition KADEMLIA2_HELLO_REQ :: u8 where "KADEMLIA2_HELLO_REQ = 0x11"
definition KADEMLIA2_HELLO_RES :: u8 where "KADEMLIA2_HELLO_RES = 0x19"
definition KADEMLIA2_HELLO_RES_ACK :: u8 where "KADEMLIA2_HELLO_RES_ACK = 0x22"
definition KADEMLIA2_REQ :: u8 where "KADEMLIA2_REQ = 0x21"
definition KADEMLIA2_RES :: u8 where "KADEMLIA2_RES = 0x29"
definition KADEMLIA2_SEARCH_KEY_REQ :: u8 where "KADEMLIA2_SEARCH_KEY_REQ = 0x33"
definition KADEMLIA2_SEARCH_SOURCE_REQ :: u8 where "KADEMLIA2_SEARCH_SOURCE_REQ = 0x34"
definition KADEMLIA2_SEARCH_NOTES_REQ :: u8 where "KADEMLIA2_SEARCH_NOTES_REQ = 0x35"
definition KADEMLIA2_SEARCH_RES :: u8 where "KADEMLIA2_SEARCH_RES = 0x3B"
definition KADEMLIA2_PUBLISH_KEY_REQ :: u8 where "KADEMLIA2_PUBLISH_KEY_REQ = 0x43"
definition KADEMLIA2_PUBLISH_SOURCE_REQ :: u8 where "KADEMLIA2_PUBLISH_SOURCE_REQ = 0x44"
definition KADEMLIA2_PUBLISH_NOTES_REQ :: u8 where "KADEMLIA2_PUBLISH_NOTES_REQ = 0x45"
definition KADEMLIA2_PUBLISH_RES :: u8 where "KADEMLIA2_PUBLISH_RES = 0x4B"
definition KADEMLIA2_PUBLISH_RES_ACK :: u8 where "KADEMLIA2_PUBLISH_RES_ACK = 0x4C"
definition KADEMLIA_FIREWALLED_REQ :: u8 where "KADEMLIA_FIREWALLED_REQ = 0x50"
definition KADEMLIA_FIREWALLED_RES :: u8 where "KADEMLIA_FIREWALLED_RES = 0x58"
definition KADEMLIA_FINDBUDDY_REQ :: u8 where "KADEMLIA_FINDBUDDY_REQ = 0x51"
definition KADEMLIA_FINDBUDDY_RES :: u8 where "KADEMLIA_FINDBUDDY_RES = 0x5A"
definition KADEMLIA_FIREWALLED_ACK_RES :: u8 where "KADEMLIA_FIREWALLED_ACK_RES = 0x59"
definition KADEMLIA2_PING :: u8 where "KADEMLIA2_PING = 0x60"
definition KADEMLIA2_PONG :: u8 where "KADEMLIA2_PONG = 0x61"
definition KADEMLIA2_FIREWALLUDP :: u8 where "KADEMLIA2_FIREWALLUDP = 0x62"
definition KADEMLIA_BOOTSTRAP_REQ_OLD :: u8 where "KADEMLIA_BOOTSTRAP_REQ_OLD = 0x00"
definition KADEMLIA_BOOTSTRAP_RES_OLD :: u8 where "KADEMLIA_BOOTSTRAP_RES_OLD = 0x08"
definition KADEMLIA_HELLO_REQ_OLD :: u8 where "KADEMLIA_HELLO_REQ_OLD = 0x10"
definition KADEMLIA_HELLO_RES_OLD :: u8 where "KADEMLIA_HELLO_RES_OLD = 0x18"
definition KADEMLIA_REQ_OLD :: u8 where "KADEMLIA_REQ_OLD = 0x20"
definition KADEMLIA_RES_OLD :: u8 where "KADEMLIA_RES_OLD = 0x28"
definition KADEMLIA_SEARCH_REQ_OLD :: u8 where "KADEMLIA_SEARCH_REQ_OLD = 0x30"
definition KADEMLIA_SEARCH_NOTES_REQ_OLD :: u8 where "KADEMLIA_SEARCH_NOTES_REQ_OLD = 0x32"
definition KADEMLIA_SEARCH_RES_OLD :: u8 where "KADEMLIA_SEARCH_RES_OLD = 0x38"
definition KADEMLIA_SEARCH_NOTES_RES_OLD :: u8 where "KADEMLIA_SEARCH_NOTES_RES_OLD = 0x3A"
definition KADEMLIA_PUBLISH_REQ_OLD :: u8 where "KADEMLIA_PUBLISH_REQ_OLD = 0x40"
definition KADEMLIA_PUBLISH_NOTES_REQ_OLD :: u8 where "KADEMLIA_PUBLISH_NOTES_REQ_OLD = 0x42"
definition KADEMLIA_PUBLISH_RES_OLD :: u8 where "KADEMLIA_PUBLISH_RES_OLD = 0x48"
definition KADEMLIA_PUBLISH_NOTES_RES_OLD :: u8 where "KADEMLIA_PUBLISH_NOTES_RES_OLD = 0x4A"
definition KADEMLIA_CALLBACK_REQ :: u8 where "KADEMLIA_CALLBACK_REQ = 0x52"
definition KADEMLIA_FIREWALLED2_REQ :: u8 where "KADEMLIA_FIREWALLED2_REQ = 0x53"

lemmas opcodes =
  OP_KADEMLIAHEADER_def OP_KADEMLIAPACKEDPROT_def KADEMLIA2_BOOTSTRAP_REQ_def
  KADEMLIA2_BOOTSTRAP_RES_def KADEMLIA2_HELLO_REQ_def KADEMLIA2_HELLO_RES_def
  KADEMLIA2_HELLO_RES_ACK_def KADEMLIA2_REQ_def KADEMLIA2_RES_def KADEMLIA2_SEARCH_KEY_REQ_def
  KADEMLIA2_SEARCH_SOURCE_REQ_def KADEMLIA2_SEARCH_NOTES_REQ_def KADEMLIA2_SEARCH_RES_def
  KADEMLIA2_PUBLISH_KEY_REQ_def KADEMLIA2_PUBLISH_SOURCE_REQ_def KADEMLIA2_PUBLISH_NOTES_REQ_def
  KADEMLIA2_PUBLISH_RES_def KADEMLIA2_PUBLISH_RES_ACK_def KADEMLIA_FIREWALLED_REQ_def
  KADEMLIA_FIREWALLED_RES_def KADEMLIA_FINDBUDDY_REQ_def KADEMLIA_FINDBUDDY_RES_def
  KADEMLIA_FIREWALLED_ACK_RES_def KADEMLIA2_PING_def KADEMLIA2_PONG_def KADEMLIA2_FIREWALLUDP_def
  KADEMLIA_BOOTSTRAP_REQ_OLD_def KADEMLIA_BOOTSTRAP_RES_OLD_def KADEMLIA_HELLO_REQ_OLD_def
  KADEMLIA_HELLO_RES_OLD_def KADEMLIA_REQ_OLD_def KADEMLIA_RES_OLD_def
  KADEMLIA_SEARCH_REQ_OLD_def KADEMLIA_SEARCH_NOTES_REQ_OLD_def KADEMLIA_SEARCH_RES_OLD_def
  KADEMLIA_SEARCH_NOTES_RES_OLD_def KADEMLIA_PUBLISH_REQ_OLD_def
  KADEMLIA_PUBLISH_NOTES_REQ_OLD_def KADEMLIA_PUBLISH_RES_OLD_def
  KADEMLIA_PUBLISH_NOTES_RES_OLD_def KADEMLIA_CALLBACK_REQ_def KADEMLIA_FIREWALLED2_REQ_def

definition MAX_SEARCH_TERMS_BYTES :: nat where "MAX_SEARCH_TERMS_BYTES = 4 * 1024"
definition UDP_KAD_MAXFRAGMENT :: nat where "UDP_KAD_MAXFRAGMENT = 1420"
definition UDP_KAD_MAX_PUBLISH_FRAGMENT :: nat where "UDP_KAD_MAX_PUBLISH_FRAGMENT = 7600"
definition MAX_DECOMPRESSED_SIZE :: nat where "MAX_DECOMPRESSED_SIZE = 512 * 1024"
definition MIN_PACKED_EXPANSION :: nat where "MIN_PACKED_EXPANSION = 64 * 1024 + 4 * 1024"
definition MAX_PACKED_RATIO :: nat where "MAX_PACKED_RATIO = 1032"

lemmas packet_limits =
  MAX_SEARCH_TERMS_BYTES_def UDP_KAD_MAXFRAGMENT_def UDP_KAD_MAX_PUBLISH_FRAGMENT_def
  MAX_DECOMPRESSED_SIZE_def MIN_PACKED_EXPANSION_def MAX_PACKED_RATIO_def

definition max_fragment_for :: "u8 \<Rightarrow> nat" where
  "max_fragment_for opcode =
     (if opcode = KADEMLIA2_PUBLISH_KEY_REQ \<or> opcode = KADEMLIA2_PUBLISH_SOURCE_REQ
         \<or> opcode = KADEMLIA2_PUBLISH_NOTES_REQ
      then UDP_KAD_MAX_PUBLISH_FRAGMENT else UDP_KAD_MAXFRAGMENT)"

section \<open>Messages\<close>

record search_result_entry =
  sr_id :: kad_id
  sr_tags :: "kad_tag list"

record publish_entry =
  pe_id :: kad_id
  pe_tags :: "kad_tag list"

text \<open>Fields in the order of the source; a \<^verbatim>\<open>[u8; 16]\<close> is a byte list.\<close>

datatype kad_message =
    BootstrapReq
  | BootstrapRes kad_id u16 u8 "kad_contact list"
  | HelloReq kad_id u16 u8 "kad_tag list"
  | HelloRes kad_id u16 u8 "kad_tag list"
  | HelloResAck kad_id "kad_tag list"
  | KadReq u8 kad_id kad_id
  | KadRes kad_id "kad_contact list"
  | SearchKeyReq kad_id u16 bytes
  | SearchSourceReq kad_id u16 u64
  | SearchNotesReq kad_id u64
  | SearchRes kad_id kad_id "search_result_entry list"
  | PublishKeyReq kad_id "publish_entry list"
  | PublishSourceReq kad_id kad_id "kad_tag list"
  | PublishNotesReq kad_id kad_id "kad_tag list"
  | PublishRes kad_id u8 bool
  | PublishResAck
  | Ping
  | Pong u16
  | FirewalledReq u16
  | Firewalled2Req u16 bytes u8
  | FirewalledRes u32
  | FirewallUdp u8 u16
  | FindBuddyReq kad_id kad_id u16
  | FindBuddyRes kad_id bytes u16 u8
  | CallbackReq kad_id kad_id u16
  | FirewalledAckRes
  | IgnoredLegacy u8

fun request_wire_opcode :: "kad_message \<Rightarrow> u8 option" where
  "request_wire_opcode BootstrapReq = Some KADEMLIA2_BOOTSTRAP_REQ"
| "request_wire_opcode (HelloReq _ _ _ _) = Some KADEMLIA2_HELLO_REQ"
| "request_wire_opcode (KadReq _ _ _) = Some KADEMLIA2_REQ"
| "request_wire_opcode (SearchKeyReq _ _ _) = Some KADEMLIA2_SEARCH_KEY_REQ"
| "request_wire_opcode (SearchSourceReq _ _ _) = Some KADEMLIA2_SEARCH_SOURCE_REQ"
| "request_wire_opcode (SearchNotesReq _ _) = Some KADEMLIA2_SEARCH_NOTES_REQ"
| "request_wire_opcode (PublishKeyReq _ _) = Some KADEMLIA2_PUBLISH_KEY_REQ"
| "request_wire_opcode (PublishSourceReq _ _ _) = Some KADEMLIA2_PUBLISH_SOURCE_REQ"
| "request_wire_opcode (PublishNotesReq _ _ _) = Some KADEMLIA2_PUBLISH_NOTES_REQ"
| "request_wire_opcode (FirewalledReq _) = Some KADEMLIA_FIREWALLED_REQ"
| "request_wire_opcode (Firewalled2Req _ _ _) = Some KADEMLIA_FIREWALLED2_REQ"
| "request_wire_opcode (FindBuddyReq _ _ _) = Some KADEMLIA_FINDBUDDY_REQ"
| "request_wire_opcode (CallbackReq _ _ _) = Some KADEMLIA_CALLBACK_REQ"
| "request_wire_opcode Ping = Some KADEMLIA2_PING"
| "request_wire_opcode _ = None"

section \<open>Decoder\<close>

text \<open>
  \<^verbatim>\<open>if cursor.position() < len { cursor.read_..().unwrap_or(0) } else { 0 }\<close>: an optional
  trailing field. Where the read fails nothing is read after it.
\<close>

definition read_trailing :: "'a reader \<Rightarrow> 'a \<Rightarrow> bytes \<Rightarrow> 'a \<times> bytes" where
  "read_trailing rd d bs =
     (if bs \<noteq> [] then (case rd bs of Inr (v, r) \<Rightarrow> (v, r) | Inl _ \<Rightarrow> (d, [])) else (d, bs))"

text \<open>One entry of a result or publish list: an identifier and its tags.\<close>

definition read_id_tags :: "(kad_id \<times> kad_tag list) reader" where
  "read_id_tags bs =
     bind_r (id_read_from bs) (\<lambda>(i, bs).
     bind_r (read_tag_list bs) (\<lambda>(ts, bs). Inr ((i, ts), bs)))"

definition decode_bootstrap_res :: "int \<Rightarrow> bytes \<Rightarrow> io_error + kad_message" where
  "decode_bootstrap_res now bs =
     bind_r (id_read_from bs) (\<lambda>(sender_id, bs).
     bind_r (read_u16 bs) (\<lambda>(tcp, bs).
     bind_r (read_u8 bs) (\<lambda>(ver, bs).
     bind_r (read_u16 bs) (\<lambda>(n, bs).
       let cnt = unat n
       in if 200 < cnt then Inl InvalidData
          else bind_r (read_many (contact_read_from now) cnt bs) (\<lambda>(contacts, _).
            Inr (BootstrapRes sender_id tcp ver contacts))))))"

definition decode_hello_req :: "bytes \<Rightarrow> io_error + kad_message" where
  "decode_hello_req bs =
     bind_r (id_read_from bs) (\<lambda>(sender_id, bs).
     bind_r (read_u16 bs) (\<lambda>(tcp, bs).
     bind_r (read_u8 bs) (\<lambda>(ver, bs).
     bind_r (read_tag_list bs) (\<lambda>(tags, _). Inr (HelloReq sender_id tcp ver tags)))))"

definition decode_hello_res :: "bytes \<Rightarrow> io_error + kad_message" where
  "decode_hello_res bs =
     bind_r (id_read_from bs) (\<lambda>(sender_id, bs).
     bind_r (read_u16 bs) (\<lambda>(tcp, bs).
     bind_r (read_u8 bs) (\<lambda>(ver, bs).
     bind_r (read_tag_list bs) (\<lambda>(tags, _). Inr (HelloRes sender_id tcp ver tags)))))"

definition decode_hello_res_ack :: "bytes \<Rightarrow> io_error + kad_message" where
  "decode_hello_res_ack bs =
     bind_r (id_read_from bs) (\<lambda>(sender_id, bs).
     bind_r (read_tag_list bs) (\<lambda>(tags, _). Inr (HelloResAck sender_id tags)))"

definition decode_req :: "bytes \<Rightarrow> io_error + kad_message" where
  "decode_req bs =
     bind_r (read_u8 bs) (\<lambda>(search_type, bs).
     bind_r (id_read_from bs) (\<lambda>(target, bs).
     bind_r (id_read_from bs) (\<lambda>(receiver, _). Inr (KadReq search_type target receiver))))"

definition decode_res :: "int \<Rightarrow> bytes \<Rightarrow> io_error + kad_message" where
  "decode_res now bs =
     bind_r (id_read_from bs) (\<lambda>(target, bs).
     bind_r (read_u8 bs) (\<lambda>(n, bs).
     bind_r (read_many (contact_read_from now) (unat n) bs) (\<lambda>(contacts, _).
       Inr (KadRes target contacts))))"

definition decode_search_key_req :: "bytes \<Rightarrow> io_error + kad_message" where
  "decode_search_key_req bs =
     bind_r (id_read_from bs) (\<lambda>(target, bs).
       let (start_position, bs) = read_trailing read_u16 0 bs
       in if start_position AND 0x8000 \<noteq> 0
          then if MAX_SEARCH_TERMS_BYTES < length bs then Inl InvalidData
               else Inr (SearchKeyReq target (start_position AND 0x7FFF) bs)
          else Inr (SearchKeyReq target (start_position AND 0x7FFF) []))"

definition decode_search_source_req :: "bytes \<Rightarrow> io_error + kad_message" where
  "decode_search_source_req bs =
     bind_r (id_read_from bs) (\<lambda>(target, bs).
     bind_r (read_u16 bs) (\<lambda>(start_position, bs).
     bind_r (read_u64 bs) (\<lambda>(file_size, _).
       Inr (SearchSourceReq target start_position file_size))))"

definition decode_search_res :: "bytes \<Rightarrow> io_error + kad_message" where
  "decode_search_res bs =
     bind_r (id_read_from bs) (\<lambda>(sender_id, bs).
     bind_r (id_read_from bs) (\<lambda>(target, bs).
     bind_r (read_u16 bs) (\<lambda>(n, bs).
     bind_r (read_many read_id_tags (min (unat n) 300) bs) (\<lambda>(es, _).
       Inr (SearchRes sender_id target (map (\<lambda>(i, ts). \<lparr>sr_id = i, sr_tags = ts\<rparr>) es))))))"

definition decode_publish_key_req :: "bytes \<Rightarrow> io_error + kad_message" where
  "decode_publish_key_req bs =
     bind_r (id_read_from bs) (\<lambda>(target, bs).
     bind_r (read_u16 bs) (\<lambda>(n, bs).
     bind_r (read_many read_id_tags (min (unat n) 300) bs) (\<lambda>(es, _).
       Inr (PublishKeyReq target (map (\<lambda>(i, ts). \<lparr>pe_id = i, pe_tags = ts\<rparr>) es)))))"

definition decode_publish_source_req :: "bytes \<Rightarrow> io_error + kad_message" where
  "decode_publish_source_req bs =
     bind_r (id_read_from bs) (\<lambda>(target, bs).
     bind_r (id_read_from bs) (\<lambda>(sender_id, bs).
     bind_r (read_tag_list bs) (\<lambda>(tags, _). Inr (PublishSourceReq target sender_id tags))))"

definition decode_publish_res :: "bytes \<Rightarrow> io_error + kad_message" where
  "decode_publish_res bs =
     bind_r (id_read_from bs) (\<lambda>(target, bs).
     bind_r (read_u8 bs) (\<lambda>(ld, bs).
       let request_ack = (if bs \<noteq> [] then fst (read_trailing read_u8 0 bs) AND 0x01 \<noteq> 0 else False)
       in Inr (PublishRes target ld request_ack)))"

definition decode_search_notes_req :: "bytes \<Rightarrow> io_error + kad_message" where
  "decode_search_notes_req bs =
     bind_r (id_read_from bs) (\<lambda>(target, bs).
       Inr (SearchNotesReq target (fst (read_trailing read_u64 0 bs))))"

definition decode_publish_notes_req :: "bytes \<Rightarrow> io_error + kad_message" where
  "decode_publish_notes_req bs =
     bind_r (id_read_from bs) (\<lambda>(target, bs).
     bind_r (id_read_from bs) (\<lambda>(sender_id, bs).
     bind_r (read_tag_list bs) (\<lambda>(tags, _). Inr (PublishNotesReq target sender_id tags))))"

definition decode_pong :: "bytes \<Rightarrow> io_error + kad_message" where
  "decode_pong bs = Inr (Pong (fst (read_trailing read_u16 0 bs)))"

definition decode_firewalled_req :: "bytes \<Rightarrow> io_error + kad_message" where
  "decode_firewalled_req bs = bind_r (read_u16 bs) (\<lambda>(tcp, _). Inr (FirewalledReq tcp))"

definition decode_firewalled2_req :: "bytes \<Rightarrow> io_error + kad_message" where
  "decode_firewalled2_req bs =
     bind_r (read_u16 bs) (\<lambda>(tcp, bs).
     bind_r (read_exact 16 bs) (\<lambda>(user_hash_wire, bs).
     bind_r (read_u8 bs) (\<lambda>(connect_options, _).
       Inr (Firewalled2Req tcp (cuint128_swap user_hash_wire) connect_options))))"

definition decode_firewalled_res :: "bytes \<Rightarrow> io_error + kad_message" where
  "decode_firewalled_res bs = bind_r (read_u32 bs) (\<lambda>(ip, _). Inr (FirewalledRes ip))"

definition decode_firewalludp :: "bytes \<Rightarrow> io_error + kad_message" where
  "decode_firewalludp bs =
     bind_r (read_u8 bs) (\<lambda>(error_code, bs).
     bind_r (read_u16 bs) (\<lambda>(udp, _). Inr (FirewallUdp error_code udp)))"

definition decode_findbuddy_req :: "bytes \<Rightarrow> io_error + kad_message" where
  "decode_findbuddy_req bs =
     bind_r (id_read_from bs) (\<lambda>(buddy_id, bs).
     bind_r (id_read_from bs) (\<lambda>(user_id, bs).
     bind_r (read_u16 bs) (\<lambda>(tcp, _). Inr (FindBuddyReq buddy_id user_id tcp))))"

definition decode_findbuddy_res :: "bytes \<Rightarrow> io_error + kad_message" where
  "decode_findbuddy_res bs =
     bind_r (id_read_from bs) (\<lambda>(buddy_id, bs).
     bind_r (read_exact 16 bs) (\<lambda>(user_hash_wire, bs).
     bind_r (read_u16 bs) (\<lambda>(tcp, bs).
       Inr (FindBuddyRes buddy_id (cuint128_swap user_hash_wire) tcp
              (fst (read_trailing read_u8 0 bs))))))"

definition decode_callback_req :: "bytes \<Rightarrow> io_error + kad_message" where
  "decode_callback_req bs =
     bind_r (id_read_from bs) (\<lambda>(buddy_id, bs).
     bind_r (id_read_from bs) (\<lambda>(file_id, bs).
     bind_r (read_u16 bs) (\<lambda>(tcp, _). Inr (CallbackReq buddy_id file_id tcp))))"

definition decode_search_res_old :: "bytes \<Rightarrow> io_error + kad_message" where
  "decode_search_res_old bs =
     bind_r (id_read_from bs) (\<lambda>(target, bs).
     bind_r (read_u16 bs) (\<lambda>(n, bs).
     bind_r (read_many read_id_tags (min (unat n) 300) bs) (\<lambda>(es, _).
       Inr (SearchRes zero target (map (\<lambda>(i, ts). \<lparr>sr_id = i, sr_tags = ts\<rparr>) es)))))"

definition decode_publish_res_old :: "bytes \<Rightarrow> io_error + kad_message" where
  "decode_publish_res_old bs =
     bind_r (id_read_from bs) (\<lambda>(target, _). Inr (PublishRes target 0 False))"

definition is_ignored_legacy :: "u8 \<Rightarrow> bool" where
  "is_ignored_legacy opcode \<longleftrightarrow>
     opcode \<in> {KADEMLIA_BOOTSTRAP_REQ_OLD, KADEMLIA_BOOTSTRAP_RES_OLD, KADEMLIA_HELLO_REQ_OLD,
       KADEMLIA_HELLO_RES_OLD, KADEMLIA_REQ_OLD, KADEMLIA_RES_OLD, KADEMLIA_SEARCH_REQ_OLD,
       KADEMLIA_SEARCH_NOTES_REQ_OLD, KADEMLIA_PUBLISH_REQ_OLD, KADEMLIA_PUBLISH_NOTES_REQ_OLD,
       KADEMLIA_PUBLISH_NOTES_RES_OLD}"

definition decode_message :: "int \<Rightarrow> u8 \<Rightarrow> bytes \<Rightarrow> io_error + kad_message" where
  "decode_message now opcode bs =
     (if opcode = KADEMLIA2_BOOTSTRAP_REQ then Inr BootstrapReq
      else if opcode = KADEMLIA2_BOOTSTRAP_RES then decode_bootstrap_res now bs
      else if opcode = KADEMLIA2_HELLO_REQ then decode_hello_req bs
      else if opcode = KADEMLIA2_HELLO_RES then decode_hello_res bs
      else if opcode = KADEMLIA2_HELLO_RES_ACK then decode_hello_res_ack bs
      else if opcode = KADEMLIA2_REQ then decode_req bs
      else if opcode = KADEMLIA2_RES then decode_res now bs
      else if opcode = KADEMLIA2_SEARCH_KEY_REQ then decode_search_key_req bs
      else if opcode = KADEMLIA2_SEARCH_SOURCE_REQ then decode_search_source_req bs
      else if opcode = KADEMLIA2_SEARCH_RES then decode_search_res bs
      else if opcode = KADEMLIA2_PUBLISH_KEY_REQ then decode_publish_key_req bs
      else if opcode = KADEMLIA2_PUBLISH_SOURCE_REQ then decode_publish_source_req bs
      else if opcode = KADEMLIA2_PUBLISH_RES then decode_publish_res bs
      else if opcode = KADEMLIA2_SEARCH_NOTES_REQ then decode_search_notes_req bs
      else if opcode = KADEMLIA2_PUBLISH_NOTES_REQ then decode_publish_notes_req bs
      else if opcode = KADEMLIA2_PUBLISH_RES_ACK then Inr PublishResAck
      else if opcode = KADEMLIA2_PING then Inr Ping
      else if opcode = KADEMLIA2_PONG then decode_pong bs
      else if opcode = KADEMLIA_FIREWALLED_REQ then decode_firewalled_req bs
      else if opcode = KADEMLIA_FIREWALLED2_REQ then decode_firewalled2_req bs
      else if opcode = KADEMLIA_FIREWALLED_RES then decode_firewalled_res bs
      else if opcode = KADEMLIA2_FIREWALLUDP then decode_firewalludp bs
      else if opcode = KADEMLIA_FINDBUDDY_REQ then decode_findbuddy_req bs
      else if opcode = KADEMLIA_FINDBUDDY_RES then decode_findbuddy_res bs
      else if opcode = KADEMLIA_CALLBACK_REQ then decode_callback_req bs
      else if opcode = KADEMLIA_FIREWALLED_ACK_RES then Inr FirewalledAckRes
      else if opcode = KADEMLIA_SEARCH_RES_OLD \<or> opcode = KADEMLIA_SEARCH_NOTES_RES_OLD
        then decode_search_res_old bs
      else if opcode = KADEMLIA_PUBLISH_RES_OLD then decode_publish_res_old bs
      else if is_ignored_legacy opcode then Inr (IgnoredLegacy opcode)
      else Inl InvalidData)"

text \<open>
  Decompression. A decompressor gives the chunks its \<^verbatim>\<open>read\<close> calls return, each of at most
  4096 bytes, and how the sequence ends: \<open>None\<close> for end of stream. The loop stops at the
  first empty read; its boolean result is the \<^verbatim>\<open>over_size_limit\<close> flag. \<^verbatim>\<open>usize\<close> is 64 bits.
\<close>

type_synonym inflater = "bytes \<Rightarrow> bytes list \<times> io_error option"

definition usize_max :: nat where "usize_max = 2 ^ 64 - 1"

definition max_output :: "nat \<Rightarrow> nat" where
  "max_output n =
     min (min (max (min (min (n * 10) usize_max + 300) usize_max) MIN_PACKED_EXPANSION)
            (min (n * MAX_PACKED_RATIO) usize_max))
       MAX_DECOMPRESSED_SIZE"

fun inflate_loop :: "nat \<Rightarrow> bytes \<Rightarrow> bytes list \<Rightarrow> io_error option \<Rightarrow> bool \<times> (io_error + bytes)" where
  "inflate_loop mx acc [] fin = (False, case fin of None \<Rightarrow> Inr acc | Some e \<Rightarrow> Inl e)"
| "inflate_loop mx acc (c # cs) fin =
     (if c = [] then (False, Inr acc)
      else let acc' = acc @ c
           in if mx < length acc' then (True, Inl InvalidData)
              else inflate_loop mx acc' cs fin)"

definition inflate_payload :: "inflater \<Rightarrow> inflater \<Rightarrow> bytes \<Rightarrow> io_error + bytes" where
  "inflate_payload zlib raw compressed =
     (let mx = max_output (length compressed);
          (over_size_limit, r) = (case zlib compressed of (cs, fin) \<Rightarrow> inflate_loop mx [] cs fin)
      in case r of
           Inl e \<Rightarrow>
             if \<not> over_size_limit \<and> (e = InvalidData \<or> e = UnexpectedEof \<or> e = Other)
             then (case raw compressed of (cs, fin) \<Rightarrow> snd (inflate_loop mx [] cs fin))
             else Inl e
         | Inr d \<Rightarrow> Inr d)"

definition decode_packet :: "inflater \<Rightarrow> inflater \<Rightarrow> int \<Rightarrow> bytes \<Rightarrow> io_error + kad_message" where
  "decode_packet zlib raw now data =
     (case data of
        [] \<Rightarrow> Inl InvalidData
      | header # rest \<Rightarrow>
          bind_r
            (if header = OP_KADEMLIAHEADER then Inr rest
             else if header = OP_KADEMLIAPACKEDPROT then
               if length data < 3 then Inl InvalidData
               else bind_r (inflate_payload zlib raw (drop 2 data)) (\<lambda>d. Inr (data ! 1 # d))
             else Inl InvalidData)
            (\<lambda>payload. case payload of
                [] \<Rightarrow> Inl InvalidData
              | opcode # body \<Rightarrow> decode_message now opcode body))"

section \<open>Encoder\<close>

definition write_contacts :: "kad_contact list \<Rightarrow> bytes" where
  "write_contacts cs = concat (map contact_write_to cs)"

fun write_entries :: "(kad_id \<times> kad_tag list) list \<Rightarrow> io_error + bytes" where
  "write_entries [] = Inr []"
| "write_entries ((i, ts) # es) =
     bind_r (write_tag_list ts) (\<lambda>b.
     bind_r (write_entries es) (\<lambda>bs. Inr (id_write_to i @ b @ bs)))"

definition wire_len :: "search_result_entry \<Rightarrow> nat option" where
  "wire_len e =
     (case write_tag_list (sr_tags e) of
        Inl _ \<Rightarrow> None
      | Inr b \<Rightarrow> Some (length (id_write_to (sr_id e) @ b)))"

text \<open>The match of \<^verbatim>\<open>encode_message\<close> in two parts, in the order of the source.\<close>

fun encode_message_rest :: "kad_message \<Rightarrow> io_error + bytes" where
  "encode_message_rest (SearchNotesReq target file_size) =
     Inr (KADEMLIA2_SEARCH_NOTES_REQ # id_write_to target @ le64 file_size)"
| "encode_message_rest (PublishNotesReq target sender_id tags) =
     bind_r (write_tag_list tags) (\<lambda>b.
       Inr (KADEMLIA2_PUBLISH_NOTES_REQ # id_write_to target @ id_write_to sender_id @ b))"
| "encode_message_rest PublishResAck = Inr [KADEMLIA2_PUBLISH_RES_ACK]"
| "encode_message_rest Ping = Inr [KADEMLIA2_PING]"
| "encode_message_rest (Pong udp) = Inr (KADEMLIA2_PONG # le16 udp)"
| "encode_message_rest (FirewalledReq tcp) = Inr (KADEMLIA_FIREWALLED_REQ # le16 tcp)"
| "encode_message_rest (Firewalled2Req tcp user_hash connect_options) =
     Inr (KADEMLIA_FIREWALLED2_REQ # le16 tcp @ cuint128_swap user_hash @ [connect_options])"
| "encode_message_rest (FirewalledRes ip) = Inr (KADEMLIA_FIREWALLED_RES # le32 ip)"
| "encode_message_rest (FirewallUdp error_code udp) =
     Inr (KADEMLIA2_FIREWALLUDP # error_code # le16 udp)"
| "encode_message_rest (FindBuddyReq buddy_id user_id tcp) =
     Inr (KADEMLIA_FINDBUDDY_REQ # id_write_to buddy_id @ id_write_to user_id @ le16 tcp)"
| "encode_message_rest (FindBuddyRes buddy_id user_hash tcp connect_options) =
     Inr (KADEMLIA_FINDBUDDY_RES # id_write_to buddy_id @ cuint128_swap user_hash @ le16 tcp
            @ [connect_options])"
| "encode_message_rest (CallbackReq buddy_id file_id tcp) =
     Inr (KADEMLIA_CALLBACK_REQ # id_write_to buddy_id @ id_write_to file_id @ le16 tcp)"
| "encode_message_rest FirewalledAckRes = Inr [KADEMLIA_FIREWALLED_ACK_RES]"
| "encode_message_rest _ = Inl InvalidInput"

fun encode_message :: "kad_message \<Rightarrow> io_error + bytes" where
  "encode_message BootstrapReq = Inr [KADEMLIA2_BOOTSTRAP_REQ]"
| "encode_message (BootstrapRes sender_id tcp ver contacts) =
     Inr (KADEMLIA2_BOOTSTRAP_RES # id_write_to sender_id @ le16 tcp @ [ver]
            @ le16 (word_of_nat (length contacts)) @ write_contacts contacts)"
| "encode_message (HelloReq sender_id tcp ver tags) =
     bind_r (write_tag_list tags) (\<lambda>b.
       Inr (KADEMLIA2_HELLO_REQ # id_write_to sender_id @ le16 tcp @ [ver] @ b))"
| "encode_message (HelloRes sender_id tcp ver tags) =
     bind_r (write_tag_list tags) (\<lambda>b.
       Inr (KADEMLIA2_HELLO_RES # id_write_to sender_id @ le16 tcp @ [ver] @ b))"
| "encode_message (HelloResAck sender_id tags) =
     bind_r (write_tag_list tags) (\<lambda>b. Inr (KADEMLIA2_HELLO_RES_ACK # id_write_to sender_id @ b))"
| "encode_message (KadReq search_type target receiver) =
     Inr (KADEMLIA2_REQ # search_type # id_write_to target @ id_write_to receiver)"
| "encode_message (KadRes target contacts) =
     (let cnt = min (length contacts) 255
      in Inr (KADEMLIA2_RES # id_write_to target @ [word_of_nat cnt]
                @ write_contacts (take cnt contacts)))"
| "encode_message (SearchKeyReq target start_position search_terms) =
     (if search_terms = [] then
        Inr (KADEMLIA2_SEARCH_KEY_REQ # id_write_to target @ le16 start_position)
      else
        Inr (KADEMLIA2_SEARCH_KEY_REQ # id_write_to target @ le16 (start_position OR 0x8000)
               @ search_terms))"
| "encode_message (SearchSourceReq target start_position file_size) =
     Inr (KADEMLIA2_SEARCH_SOURCE_REQ # id_write_to target @ le16 start_position @ le64 file_size)"
| "encode_message (SearchRes sender_id target results) =
     bind_r (write_entries (map (\<lambda>r. (sr_id r, sr_tags r)) results)) (\<lambda>b.
       Inr (KADEMLIA2_SEARCH_RES # id_write_to sender_id @ id_write_to target
              @ le16 (word_of_nat (length results)) @ b))"
| "encode_message (PublishKeyReq target entries) =
     bind_r (write_entries (map (\<lambda>e. (pe_id e, pe_tags e)) entries)) (\<lambda>b.
       Inr (KADEMLIA2_PUBLISH_KEY_REQ # id_write_to target
              @ le16 (word_of_nat (length entries)) @ b))"
| "encode_message (PublishSourceReq target sender_id tags) =
     bind_r (write_tag_list tags) (\<lambda>b.
       Inr (KADEMLIA2_PUBLISH_SOURCE_REQ # id_write_to target @ id_write_to sender_id @ b))"
| "encode_message (PublishRes target ld _) =
     Inr (KADEMLIA2_PUBLISH_RES # id_write_to target @ [ld])"
| "encode_message m = encode_message_rest m"

definition encode_packet :: "(bytes \<Rightarrow> io_error + bytes) \<Rightarrow> kad_message \<Rightarrow> io_error + bytes" where
  "encode_packet deflate m =
     bind_r (encode_message m) (\<lambda>payload.
       let max_fragment = max_fragment_for (case payload of [] \<Rightarrow> 0 | b # _ \<Rightarrow> b)
       in if max_fragment - 1 < length payload then
            bind_r (deflate (tl payload)) (\<lambda>compressed_body.
              if max_fragment < 2 + length compressed_body then Inl InvalidData
              else Inr (OP_KADEMLIAPACKEDPROT # hd payload # compressed_body))
          else Inr (OP_KADEMLIAHEADER # payload))"

definition build_hello_req ::
  "(bytes \<Rightarrow> io_error + bytes) \<Rightarrow> kad_id \<Rightarrow> u16 \<Rightarrow> u8 \<Rightarrow> kad_tag list \<Rightarrow> io_error + bytes" where
  "build_hello_req deflate sender_id tcp ver tags =
     encode_packet deflate (HelloReq sender_id tcp ver tags)"

end
