(* ===== verification/Kad_Message_Props.thy ===== *)
theory Kad_Message_Props
  imports Kad_Message
begin

text \<open>
  Lemmas and properties of the KAD packet codec: what a receiver gets of an encoded
  message, the well-formedness of decoded values, the limits on decompression and on
  datagram sizes.
\<close>

unbundle bit_operations_syntax

section \<open>What a message comes back as\<close>

text \<open>
  The decoder sees a contact as just heard of (\<open>heard\<close>), keeps 32 normalised tags of a
  list, 255 contacts and 300 entries, and drops the flag bit of a start position.
\<close>

definition heard :: "int \<Rightarrow> kad_contact \<Rightarrow> kad_contact" where
  "heard now c = \<lparr>cid = cid c, cip = cip c, udp_port = udp_port c, tcp_port = tcp_port c,
      version = version c, last_seen = now, verified = False, contact_type = CONTACT_TYPE_NEW,
      udp_key = None, kad_options = 0, created_at = now, expires_at = 0, last_type_set = 0,
      received_hello = False\<rparr>"

definition norm_tags :: "kad_tag list \<Rightarrow> kad_tag list" where
  "norm_tags tags = take 32 (map norm_tag tags)"

fun received_as :: "int \<Rightarrow> kad_message \<Rightarrow> kad_message" where
  "received_as now (BootstrapRes i p v cs) = BootstrapRes i p v (map (heard now) cs)"
| "received_as now (HelloReq i p v ts) = HelloReq i p v (norm_tags ts)"
| "received_as now (HelloRes i p v ts) = HelloRes i p v (norm_tags ts)"
| "received_as now (HelloResAck i ts) = HelloResAck i (norm_tags ts)"
| "received_as now (KadRes t cs) = KadRes t (map (heard now) (take 255 cs))"
| "received_as now (SearchKeyReq t p terms) = SearchKeyReq t (p AND 0x7FFF) terms"
| "received_as now (SearchRes i t es) =
     SearchRes i t (map (\<lambda>e. e\<lparr>sr_tags := norm_tags (sr_tags e)\<rparr>) (take 300 es))"
| "received_as now (PublishKeyReq t es) =
     PublishKeyReq t (map (\<lambda>e. e\<lparr>pe_tags := norm_tags (pe_tags e)\<rparr>) (take 300 es))"
| "received_as now (PublishSourceReq t i ts) = PublishSourceReq t i (norm_tags ts)"
| "received_as now (PublishNotesReq t i ts) = PublishNotesReq t i (norm_tags ts)"
| "received_as now (PublishRes t l _) = PublishRes t l False"
| "received_as now m = m"

text \<open>Messages whose fields fit the wire format.\<close>

fun message_ok :: "kad_message \<Rightarrow> bool" where
  "message_ok (BootstrapRes _ _ _ cs) = (length cs \<le> 200)"
| "message_ok (HelloReq _ _ _ ts) = tags_ok ts"
| "message_ok (HelloRes _ _ _ ts) = tags_ok ts"
| "message_ok (HelloResAck _ ts) = tags_ok ts"
| "message_ok (SearchKeyReq _ _ terms) = (length terms \<le> MAX_SEARCH_TERMS_BYTES)"
| "message_ok (SearchRes _ _ es) = (length es < 65536 \<and> (\<forall>e \<in> set es. tags_ok (sr_tags e)))"
| "message_ok (PublishKeyReq _ es) = (length es < 65536 \<and> (\<forall>e \<in> set es. tags_ok (pe_tags e)))"
| "message_ok (PublishSourceReq _ _ ts) = tags_ok ts"
| "message_ok (PublishNotesReq _ _ ts) = tags_ok ts"
| "message_ok (Firewalled2Req _ h _) = (length h = 16)"
| "message_ok (FindBuddyRes _ h _ _) = (length h = 16)"
| "message_ok (IgnoredLegacy _) = False"
| "message_ok _ = True"

section \<open>Lemmas on the pieces\<close>

lemma id_read_write [simp]: "id_read_from (id_write_to i @ r) = Inr (i, r)"
  "id_read_from (id_write_to i) = Inr (i, [])"
  using kad_id_codec.dec_enc [of i r] kad_id_codec.dec_enc [of i "[]"] by simp_all

lemma le_read_end [simp]: "read_u16 (le16 a) = Inr (a, [])" "read_u32 (le32 b) = Inr (b, [])"
  "read_u64 (le64 c) = Inr (c, [])"
  using read_u16_le16 [of a "[]"] read_u32_le32 [of b "[]"] read_u64_le64 [of c "[]"] by simp_all

lemma read_contacts_written:
  "k \<le> length cs \<Longrightarrow> read_many (contact_read_from now) k (write_contacts cs)
     = Inr (map (heard now) (take k cs), write_contacts (drop k cs))"
  using read_many_map [of cs "contact_read_from now" contact_write_to "heard now" k "[]"]
  by (simp add: contact_read_write heard_def write_contacts_def)

definition entry_bytes :: "kad_id \<times> kad_tag list \<Rightarrow> bytes" where
  "entry_bytes e = id_write_to (fst e) @ tag_list_bytes (snd e)"

lemma write_entries_ok:
  "(\<forall>e \<in> set es. tags_ok (snd e)) \<Longrightarrow> write_entries es = Inr (concat (map entry_bytes es))"
  by (induction es rule: write_entries.induct) (simp_all add: write_tag_list_ok entry_bytes_def)

lemma read_entries_written:
  assumes "\<forall>e \<in> set es. tags_ok (snd e)" "k \<le> length es"
  shows "read_many read_id_tags k (concat (map entry_bytes es))
    = Inr (map (apsnd norm_tags) (take k es), concat (map entry_bytes (drop k es)))"
proof -
  have "read_id_tags (entry_bytes e @ r) = Inr (apsnd norm_tags e, r)" if "e \<in> set es" for e r
    using assms(1) that
    by (cases e) (force simp: read_id_tags_def entry_bytes_def read_tag_list_ok norm_tags_def)
  from read_many_map [of es read_id_tags entry_bytes "apsnd norm_tags" k "[]", OF this assms(2)]
  show ?thesis by simp
qed

lemma start_flag: "((p :: u16) OR 0x8000) AND 0x8000 \<noteq> 0"
  "((p :: u16) OR 0x8000) AND 0x7FFF = p AND 0x7FFF"
proof -
  have "bit (((p :: u16) OR 0x8000) AND 0x8000) 15" by (simp add: bit_simps)
  then show "((p :: u16) OR 0x8000) AND 0x8000 \<noteq> 0" by (metis bit_0_eq bot_apply bot_bool_def)
  have "(0x8000 :: u16) AND 0x7FFF = 0" by simp
  then show "((p :: u16) OR 0x8000) AND 0x7FFF = p AND 0x7FFF"
    by (simp only: bit.conj_disj_distrib2 bit.disj_zero_right)
qed

lemma payload_shape: "encode_message m = Inr p \<Longrightarrow> \<exists>op body. p = op # body"
  by (cases m) (auto simp: bind_r_Inr_iff Let_def split: if_splits)

lemmas decode_branches =
  decode_bootstrap_res_def decode_hello_req_def decode_hello_res_def decode_hello_res_ack_def
  decode_req_def decode_res_def decode_search_key_req_def decode_search_source_req_def
  decode_search_res_def decode_publish_key_req_def decode_publish_source_req_def
  decode_publish_res_def decode_search_notes_req_def decode_publish_notes_req_def decode_pong_def
  decode_firewalled_req_def decode_firewalled2_req_def decode_firewalled_res_def
  decode_firewalludp_def decode_findbuddy_req_def decode_findbuddy_res_def decode_callback_req_def
  decode_search_res_old_def decode_publish_res_old_def

lemma take_min_300: "take (min (length xs) 300) xs = take 300 xs"
  by (simp add: min_def)

lemma decode_search_res_written:
  assumes "length es < 65536" "\<forall>e \<in> set es. tags_ok (sr_tags e)"
  shows "\<exists>b. encode_message (SearchRes i t es) = Inr (KADEMLIA2_SEARCH_RES # b)
    \<and> decode_search_res b = Inr (received_as now (SearchRes i t es))"
proof -
  let ?es = "map (\<lambda>r. (sr_id r, sr_tags r)) es"
  have ok: "\<forall>e \<in> set ?es. tags_ok (snd e)" using assms(2) by auto
  have k: "min (length es) 300 \<le> length ?es" by simp
  show ?thesis
    using assms(1) write_entries_ok [OF ok] read_entries_written [OF ok k]
    by (simp add: decode_search_res_def unat_of_nat_small take_map take_min_300)
qed

lemma decode_publish_key_req_written:
  assumes "length es < 65536" "\<forall>e \<in> set es. tags_ok (pe_tags e)"
  shows "\<exists>b. encode_message (PublishKeyReq t es) = Inr (KADEMLIA2_PUBLISH_KEY_REQ # b)
    \<and> decode_publish_key_req b = Inr (received_as now (PublishKeyReq t es))"
proof -
  let ?es = "map (\<lambda>r. (pe_id r, pe_tags r)) es"
  have ok: "\<forall>e \<in> set ?es. tags_ok (snd e)" using assms(2) by auto
  have k: "min (length es) 300 \<le> length ?es" by simp
  show ?thesis
    using assms(1) write_entries_ok [OF ok] read_entries_written [OF ok k]
    by (simp add: decode_publish_key_req_def unat_of_nat_small take_map take_min_300)
qed

lemma decode_search_key_req_written:
  assumes "length terms \<le> MAX_SEARCH_TERMS_BYTES"
  shows "\<exists>b. encode_message (SearchKeyReq t p terms) = Inr (KADEMLIA2_SEARCH_KEY_REQ # b)
    \<and> decode_search_key_req b = Inr (received_as now (SearchKeyReq t p terms))"
proof -
  have ne: "le16 q @ x \<noteq> []" for q x using length_le_simps(1) [of q] by (cases "le16 q") auto
  have t: "read_trailing read_u16 0 (le16 q @ x) = (q, x)" for q x
    by (simp only: read_trailing_def ne read_u16_le16) simp
  show ?thesis
    using assms t [of p "[]"] by (simp add: decode_search_key_req_def t start_flag)
qed

lemma tags_written: "tags_ok ts \<Longrightarrow> write_tag_list ts = Inr (tag_list_bytes ts)
    \<and> read_tag_list (tag_list_bytes ts) = Inr (norm_tags ts, [])"
  using read_tag_list_ok [of ts "[]"] by (simp add: write_tag_list_ok norm_tags_def)

lemma read_exact_hash: "length h = 16 \<Longrightarrow> read_exact 16 (cuint128_swap h @ r) = Inr (cuint128_swap h, r)"
  by simp

lemma le_nonempty [simp]: "le16 a \<noteq> []" "le64 c \<noteq> []"
  using length_le_simps(1) [of a] length_le_simps(3) [of c] by (metis list.size(3) zero_neq_numeral)+

lemma dispatch:
  "decode_message now KADEMLIA2_SEARCH_RES b = decode_search_res b"
  "decode_message now KADEMLIA2_PUBLISH_KEY_REQ b = decode_publish_key_req b"
  "decode_message now KADEMLIA2_SEARCH_KEY_REQ b = decode_search_key_req b"
  by (simp_all add: decode_message_def opcodes)

lemma decode_encode_message:
  assumes "message_ok m"
  shows "\<exists>op body. encode_message m = Inr (op # body)
    \<and> decode_message now op body = Inr (received_as now m)"
proof (cases m)
  case (SearchRes i t es)
  then show ?thesis using decode_search_res_written [of es i t now] assms dispatch
    by (metis message_ok.simps)
next
  case (PublishKeyReq t es)
  then show ?thesis using decode_publish_key_req_written [of es t now] assms dispatch
    by (metis message_ok.simps)
next
  case (SearchKeyReq t p terms)
  then show ?thesis using decode_search_key_req_written [of terms t p now] assms dispatch
    by (metis message_ok.simps)
qed (use assms in \<open>simp_all add: decode_message_def opcodes decode_branches tags_written
      read_contacts_written unat_of_nat_small Let_def read_trailing_def min_def\<close>)

section \<open>Well-formed values\<close>

text \<open>
  The invariants of the Rust types and the limits of the decoder: hashes are 16 bytes,
  strings are UTF-8, lists are capped, contacts carry the time of arrival and no claim of
  being verified.
\<close>

fun value_wf :: "tag_value \<Rightarrow> bool" where
  "value_wf (Hash h) = (length h = 16)"
| "value_wf (String s) = valid_utf8 s"
| "value_wf (Blob b) = (length b \<le> MAX_TAG_BLOB_LEN)"
| "value_wf (Bsob b) = (length b \<le> 255)"
| "value_wf _ = True"

fun name_wf :: "tag_name \<Rightarrow> bool" where
  "name_wf (Id i) = True"
| "name_wf (Str s) = valid_utf8 s"

definition tags_wf :: "kad_tag list \<Rightarrow> bool" where
  "tags_wf ts \<longleftrightarrow> length ts \<le> MAX_TAG_LIST_SIZE
     \<and> (\<forall>t \<in> set ts. name_wf (tname t) \<and> value_wf (tvalue t))"

fun message_wf :: "int \<Rightarrow> kad_message \<Rightarrow> bool" where
  "message_wf now (BootstrapRes _ _ _ cs) = (length cs \<le> 200 \<and> (\<forall>c \<in> set cs. fresh_contact now c))"
| "message_wf now (HelloReq _ _ _ ts) = tags_wf ts"
| "message_wf now (HelloRes _ _ _ ts) = tags_wf ts"
| "message_wf now (HelloResAck _ ts) = tags_wf ts"
| "message_wf now (KadRes _ cs) = (length cs \<le> 255 \<and> (\<forall>c \<in> set cs. fresh_contact now c))"
| "message_wf now (SearchKeyReq _ p terms) =
     (p AND 0x8000 = 0 \<and> length terms \<le> MAX_SEARCH_TERMS_BYTES)"
| "message_wf now (SearchRes _ _ es) = (length es \<le> 300 \<and> (\<forall>e \<in> set es. tags_wf (sr_tags e)))"
| "message_wf now (PublishKeyReq _ es) = (length es \<le> 300 \<and> (\<forall>e \<in> set es. tags_wf (pe_tags e)))"
| "message_wf now (PublishSourceReq _ _ ts) = tags_wf ts"
| "message_wf now (PublishNotesReq _ _ ts) = tags_wf ts"
| "message_wf now (Firewalled2Req _ h _) = (length h = 16)"
| "message_wf now (FindBuddyRes _ h _ _) = (length h = 16)"
| "message_wf now (IgnoredLegacy op) = is_ignored_legacy op"
| "message_wf now _ = True"

text \<open>Bytes a decoded message accounts for: a contact takes 25 of them, an entry at least 17.\<close>

fun wire_weight :: "kad_message \<Rightarrow> nat" where
  "wire_weight (BootstrapRes _ _ _ cs) = 21 + 25 * length cs"
| "wire_weight (KadRes _ cs) = 17 + 25 * length cs"
| "wire_weight (SearchRes _ _ es) = 18 + 17 * length es"
| "wire_weight (PublishKeyReq _ es) = 18 + 17 * length es"
| "wire_weight (SearchKeyReq _ _ terms) = 16 + length terms"
| "wire_weight m = 0"

lemma read_many_all:
  assumes "read_many rd n bs = Inr (xs, r)" "\<And>b x r. rd b = Inr (x, r) \<Longrightarrow> P x"
  shows "length xs = n \<and> (\<forall>x \<in> set xs. P x)"
  using assms(1)
proof (induction n arbitrary: bs xs)
  case 0
  then show ?case by simp
next
  case (Suc n)
  then obtain x b ys where "rd bs = Inr (x, b)" "read_many rd n b = Inr (ys, r)" "xs = x # ys"
    by (auto simp: bind_r_Inr_iff)
  then show ?case using Suc.IH assms(2) by fastforce
qed

lemma read_many_weight:
  assumes "read_many rd n bs = Inr (xs, r)"
    and "\<And>b x r. rd b = Inr (x, r) \<Longrightarrow> k + length r \<le> length b"
  shows "k * length xs + length r \<le> length bs"
  using assms(1)
proof (induction n arbitrary: bs xs)
  case 0
  then show ?case by simp
next
  case (Suc n)
  then obtain x b ys where s: "rd bs = Inr (x, b)" "read_many rd n b = Inr (ys, r)" "xs = x # ys"
    by (auto simp: bind_r_Inr_iff)
  have "k * length ys + length r \<le> length b" by (rule Suc.IH [OF s(2)])
  then show ?case using assms(2) [OF s(1)] s(3) by simp
qed

lemma read_lengths:
  "read_exact n b = Inr (x, r) \<Longrightarrow> length x = n \<and> length b = n + length r"
  "read_u8 b = Inr (v8, r) \<Longrightarrow> length b = 1 + length r"
  "read_u16 b = Inr (v16, r) \<Longrightarrow> length b = 2 + length r"
  "read_u32 b = Inr (v32, r) \<Longrightarrow> length b = 4 + length r"
  "id_read_from b = Inr (i, r) \<Longrightarrow> length b = 16 + length r"
  by (auto simp: read_exact_def read_u8_def read_u16_def read_u32_def id_read_from_def
      bind_r_Inr_iff split: if_splits list.splits)

lemma contact_read_wf:
  "contact_read_from now b = Inr (c, r) \<Longrightarrow> fresh_contact now c \<and> 25 + length r \<le> length b"
  by (auto simp: contact_read_from_def bind_r_Inr_iff fresh_contact_def dest!: read_lengths)

lemma tag_name_read_wf: "read_tag_name ty b = Inr (n, r) \<Longrightarrow> name_wf n"
  by (auto simp: read_tag_name_def bind_r_Inr_iff Let_def valid_from_utf8_lossy split: if_splits)

lemma unat_u8_le: "unat (a :: u8) \<le> 255"
  using unat_bounds(1) [of a] by linarith

lemma tag_value_read_wf: "read_tag_value ty b = Inr (v, r) \<Longrightarrow> value_wf v"
  by (auto simp: read_tag_value_def bind_r_Inr_iff Let_def valid_from_utf8_lossy
      read_value_bytes_def unat_u8_le split: if_splits dest!: read_lengths(1))

lemma tag_read_wf:
  "tag_read_from b = Inr (t, r) \<Longrightarrow> name_wf (tname t) \<and> value_wf (tvalue t)"
  by (auto simp: tag_read_from_def bind_r_Inr_iff dest!: tag_name_read_wf tag_value_read_wf)

lemma read_tag_list_wf:
  assumes "read_tag_list b = Inr (ts, r)"
  shows "tags_wf ts"
proof -
  obtain n b' us where u: "read_many tag_read_from n b' = Inr (us, r)" "ts = take 32 us"
    using assms by (auto simp: read_tag_list_def read_tag_loop_many bind_r_Inr_iff)
  have "\<forall>t \<in> set us. name_wf (tname t) \<and> value_wf (tvalue t)"
    using read_many_all [OF u(1), of "\<lambda>t. name_wf (tname t) \<and> value_wf (tvalue t)"] tag_read_wf
    by blast
  then show ?thesis using u(2) by (auto simp: tags_wf_def tag_limits dest: in_set_takeD)
qed

lemma tag_name_read_len: "read_tag_name ty b = Inr (n, r) \<Longrightarrow> length r \<le> length b"
  by (auto simp: read_tag_name_def bind_r_Inr_iff Let_def split: if_splits dest!: read_lengths)

lemma read_u64_len: "read_u64 b = Inr (v, r) \<Longrightarrow> length b = 8 + length r"
  by (auto simp: read_u64_def bind_r_Inr_iff dest!: read_lengths)

lemma tag_value_read_len: "read_tag_value ty b = Inr (v, r) \<Longrightarrow> length r \<le> length b"
  by (auto simp: read_tag_value_def bind_r_Inr_iff Let_def read_value_bytes_def
      split: if_splits dest!: read_lengths read_u64_len)

lemma tag_read_len: "tag_read_from b = Inr (t, r) \<Longrightarrow> 1 + length r \<le> length b"
  by (auto simp: tag_read_from_def bind_r_Inr_iff
      dest!: tag_name_read_len tag_value_read_len read_lengths(2))

lemma read_tag_list_len:
  assumes "read_tag_list b = Inr (ts, r)"
  shows "1 + length r \<le> length b"
proof -
  obtain n b' us where u: "read_many tag_read_from n b' = Inr (us, r)" "length b = 1 + length b'"
    using assms by (auto simp: read_tag_list_def read_tag_loop_many bind_r_Inr_iff dest: read_lengths(2))
  show ?thesis using read_many_weight [OF u(1), of 1] tag_read_len u(2) by force
qed

lemma read_id_tags_wf:
  "read_id_tags b = Inr (e, r) \<Longrightarrow> (case e of (i, ts) \<Rightarrow> tags_wf ts)"
  "read_id_tags b = Inr (e, r) \<Longrightarrow> 17 + length r \<le> length b"
   apply (auto simp: read_id_tags_def bind_r_Inr_iff dest!: read_tag_list_wf) [1]
  apply (auto simp: read_id_tags_def bind_r_Inr_iff dest!: read_tag_list_len read_lengths(5)) [1]
  done

lemmas read_contacts_wf = read_many_all [where rd = "contact_read_from now" and P = "fresh_contact now"
    for now, OF _ conjunct1 [OF contact_read_wf]]

lemma read_entries_wf:
  "read_many read_id_tags n b = Inr (es, r) \<Longrightarrow>
   length es = n \<and> (\<forall>i ts. (i, ts) \<in> set es \<longrightarrow> tags_wf ts)"
  using read_many_all [of read_id_tags n b es r "\<lambda>(i, ts). tags_wf ts"] read_id_tags_wf(1) by fast

lemmas read_contacts_len = read_many_weight [where rd = "contact_read_from now" and k = 25 for now,
    OF _ conjunct2 [OF contact_read_wf]]

lemmas read_entries_len = read_many_weight [where rd = read_id_tags and k = 17,
    OF _ read_id_tags_wf(2)]

lemma decode_branch_wf:
  "decode_bootstrap_res now b = Inr m \<Longrightarrow> message_wf now m"
  "decode_res now b = Inr m \<Longrightarrow> message_wf now m"
  "decode_search_res b = Inr m \<Longrightarrow> message_wf now m"
  "decode_search_res_old b = Inr m \<Longrightarrow> message_wf now m"
  "decode_publish_key_req b = Inr m \<Longrightarrow> message_wf now m"
  by (auto simp: decode_branches bind_r_Inr_iff Let_def unat_u8_le split: if_splits
      dest!: read_contacts_wf read_entries_wf)

lemma read_trailing_len:
  "read_trailing read_u16 d b = (v, r) \<Longrightarrow> v \<noteq> d \<Longrightarrow> length b = 2 + length r"
  by (auto simp: read_trailing_def split: if_splits sum.splits prod.splits dest: read_lengths(3))

lemma decode_search_key_cases:
  assumes "decode_search_key_req b = Inr m"
  obtains t p terms where "m = SearchKeyReq t (p AND 0x7FFF) terms"
    "length terms \<le> MAX_SEARCH_TERMS_BYTES" "16 + length terms \<le> length b"
proof -
  obtain t r where i: "id_read_from b = Inr (t, r)"
    using assms by (auto simp: decode_search_key_req_def bind_r_Inr_iff)
  obtain p q where p: "read_trailing read_u16 0 r = (p, q)" by fastforce
  show thesis
  proof (cases "p AND 0x8000 = 0")
    case True
    then show thesis using that [of t p "[]"] assms i p read_lengths(5) [OF i]
      by (simp add: decode_search_key_req_def)
  next
    case False
    then have "p \<noteq> 0" by auto
    then have "length r = 2 + length q" by (rule read_trailing_len [OF p])
    then show thesis using that [of t p q] assms i p read_lengths(5) [OF i] False
      by (simp add: decode_search_key_req_def split: if_splits)
  qed
qed

lemma mask_no_flag: "((p :: u16) AND 0x7FFF) AND 0x8000 = 0"
proof -
  have "(0x7FFF :: u16) AND 0x8000 = 0" by simp
  then show ?thesis by (simp only: and.assoc and_zero_eq)
qed

lemma decode_search_key_wf: "decode_search_key_req b = Inr m \<Longrightarrow> message_wf now m"
  by (erule decode_search_key_cases) (simp add: mask_no_flag)

lemma decode_message_wf:
  assumes "decode_message now op b = Inr m"
  shows "message_wf now m"
proof -
  note rest = decode_hello_req_def decode_hello_res_def decode_hello_res_ack_def
    decode_req_def decode_search_source_req_def decode_publish_source_req_def
    decode_publish_res_def decode_search_notes_req_def decode_publish_notes_req_def decode_pong_def
    decode_firewalled_req_def decode_firewalled2_req_def decode_firewalled_res_def
    decode_firewalludp_def decode_findbuddy_req_def decode_findbuddy_res_def
    decode_callback_req_def decode_publish_res_old_def
  show ?thesis
    using assms unfolding decode_message_def
    by (auto simp: rest bind_r_Inr_iff Let_def split: if_split_asm
        dest!: read_tag_list_wf read_lengths(1) dest: decode_branch_wf decode_search_key_wf)
qed

lemma decode_branch_weight:
  "decode_bootstrap_res now b = Inr m \<Longrightarrow> wire_weight m \<le> length b"
  "decode_res now b = Inr m \<Longrightarrow> wire_weight m \<le> length b"
  "decode_search_res b = Inr m \<Longrightarrow> wire_weight m \<le> length b"
  "decode_search_res_old b = Inr m \<Longrightarrow> wire_weight m \<le> length b"
  "decode_publish_key_req b = Inr m \<Longrightarrow> wire_weight m \<le> length b"
  "decode_search_key_req b = Inr m \<Longrightarrow> wire_weight m \<le> length b"
  by (auto simp: decode_bootstrap_res_def decode_res_def decode_search_res_def
      decode_search_res_old_def decode_publish_key_req_def bind_r_Inr_iff Let_def split: if_splits
      dest!: read_contacts_len read_entries_len read_lengths elim!: decode_search_key_cases)

lemma decode_message_weight:
  assumes "decode_message now op b = Inr m"
  shows "wire_weight m \<le> length b"
proof -
  note rest = decode_hello_req_def decode_hello_res_def decode_hello_res_ack_def
    decode_req_def decode_search_source_req_def decode_publish_source_req_def
    decode_publish_res_def decode_search_notes_req_def decode_publish_notes_req_def decode_pong_def
    decode_firewalled_req_def decode_firewalled2_req_def decode_firewalled_res_def
    decode_firewalludp_def decode_findbuddy_req_def decode_findbuddy_res_def
    decode_callback_req_def decode_publish_res_old_def
  show ?thesis
    using assms unfolding decode_message_def
    by (auto simp: rest bind_r_Inr_iff Let_def split: if_split_asm dest: decode_branch_weight)
qed

lemma inflate_loop_bound:
  "length acc \<le> mx \<Longrightarrow> inflate_loop mx acc cs fin = (ov, Inr d) \<Longrightarrow> length d \<le> mx \<and> \<not> ov"
  by (induction mx acc cs fin rule: inflate_loop.induct)
     (auto simp: Let_def split: if_splits option.splits)

lemma inflate_loop_snd_bound:
  "snd (inflate_loop mx [] cs fin) = Inr d \<Longrightarrow> length d \<le> mx"
  using inflate_loop_bound [of "[]" mx cs fin] by (metis list.size(3) prod.collapse zero_le)

lemma inflate_loop_all:
  "[] \<notin> set cs \<Longrightarrow> length (acc @ concat cs) \<le> mx \<Longrightarrow>
   inflate_loop mx acc cs None = (False, Inr (acc @ concat cs))"
  by (induction cs arbitrary: acc) (auto simp: Let_def)

lemma inflate_loop_over:
  "[] \<notin> set cs \<Longrightarrow> length acc \<le> mx \<Longrightarrow> mx < length (acc @ concat cs) \<Longrightarrow>
   inflate_loop mx acc cs fin = (True, Inl InvalidData)"
  by (induction cs arbitrary: acc) (auto simp: Let_def)

lemma inflate_payload_bound:
  "inflate_payload zlib raw z = Inr d \<Longrightarrow> length d \<le> max_output (length z)"
  by (auto simp: inflate_payload_def Let_def split: prod.splits sum.splits if_splits
      dest: inflate_loop_snd_bound inflate_loop_bound [of "[]", simplified])

lemma max_output_small:
  assumes "n \<le> MIN_PACKED_EXPANSION" "n \<le> 1032 * k" "k \<le> 65536"
  shows "n \<le> max_output k"
  using assms by (simp add: max_output_def packet_limits usize_max_def)

lemma max_output_le: "max_output n \<le> MAX_DECOMPRESSED_SIZE" "max_output n \<le> 1032 * n"
  by (simp_all add: max_output_def MAX_PACKED_RATIO_def min_le_iff_disj)

lemma decode_plain: "decode_packet zlib raw now (OP_KADEMLIAHEADER # op # body) = decode_message now op body"
  by (simp add: decode_packet_def)

lemma decode_packet_body:
  assumes "decode_packet zlib raw now data = Inr m"
  shows "\<exists>op body. decode_message now op body = Inr m"
proof (cases data)
  case (Cons header rest)
  obtain payload where
    "(case payload of [] \<Rightarrow> Inl InvalidData | op # body \<Rightarrow> decode_message now op body) = Inr m"
    using assms unfolding Cons decode_packet_def list.case bind_r_Inr_iff by blast
  then show ?thesis by (cases payload) auto
qed (use assms in \<open>simp add: decode_packet_def\<close>)

lemma decode_packed:
  "z \<noteq> [] \<Longrightarrow> inflate_payload zlib raw z = Inr body \<Longrightarrow>
   decode_packet zlib raw now (OP_KADEMLIAPACKEDPROT # op # z) = decode_message now op body"
  by (cases z) (simp_all add: decode_packet_def opcodes)

lemma inflate_payload_ok:
  assumes "zlib z = (cs, None)" "[] \<notin> set cs" "concat cs = body"
    and "length body \<le> max_output (length z)"
  shows "inflate_payload zlib raw z = Inr body"
  using assms inflate_loop_all [of cs "[]" "max_output (length z)"]
  by (simp add: inflate_payload_def)

text \<open>
  The transport is transparent: what \<open>encode_packet\<close> puts on the wire, compressed or not,
  reaches \<open>decode_message\<close> as the encoded payload.
\<close>

lemma transport_transparent:
  assumes codec: "\<forall>b z. deflate b = Inr z \<longrightarrow>
      (\<exists>cs. zlib z = (cs, None) \<and> [] \<notin> set cs \<and> concat cs = b) \<and> length b \<le> 1032 * length z"
    and enc: "encode_message m = Inr (op # body)" "encode_packet deflate m = Inr p"
    and size: "length body \<le> MIN_PACKED_EXPANSION"
  shows "decode_packet zlib raw now p = decode_message now op body"
proof (cases "max_fragment_for op - 1 < length (op # body)")
  case False
  then have "p = OP_KADEMLIAHEADER # op # body"
    using enc by (simp add: encode_packet_def Let_def)
  then show ?thesis by (simp add: decode_plain)
next
  case True
  then obtain z where z: "deflate body = Inr z" "p = OP_KADEMLIAPACKEDPROT # op # z"
    "2 + length z \<le> max_fragment_for op"
    using enc by (auto simp: encode_packet_def Let_def bind_r_Inr_iff split: if_splits)
  obtain cs where cs: "zlib z = (cs, None)" "[] \<notin> set cs" "concat cs = body"
    and ratio: "length body \<le> 1032 * length z"
    using codec z(1) by blast
  have small: "length z \<le> 65536" "0 < length body"
    using z(3) True by (auto simp: max_fragment_for_def packet_limits split: if_splits)
  have "length body \<le> max_output (length z)" by (intro max_output_small size ratio small)
  then have "inflate_payload zlib raw z = Inr body" using inflate_payload_ok cs by blast
  moreover have "z \<noteq> []" using ratio small(2) by auto
  ultimately show ?thesis using z(2) by (simp add: decode_packed)
qed

section \<open>Properties of the packet codec\<close>

text \<open>
  C16: packets survive the wire. If the compressor's output is expanded again by the
  decompressor in non-empty chunks, never in a ratio above 1032 to 1, then every message
  that fits the format and whose body is at most 68 KiB, once encoded, is decoded by the
  receiver to that message as received: contacts as just heard of, at most 32 normalised
  tags, 255 contacts and 300 entries. This holds for plain and for compressed packets.
\<close>

theorem packet_round_trip:
  assumes "\<forall>b z. deflate b = Inr z \<longrightarrow>
      (\<exists>cs. zlib z = (cs, None) \<and> [] \<notin> set cs \<and> concat cs = b) \<and> length b \<le> 1032 * length z"
    and "message_ok m" "encode_packet deflate m = Inr p"
    and "\<forall>op body. encode_message m = Inr (op # body) \<longrightarrow> length body \<le> MIN_PACKED_EXPANSION"
  shows "decode_packet zlib raw now p = Inr (received_as now m)"
proof -
  obtain op body where enc: "encode_message m = Inr (op # body)"
    and dec: "decode_message now op body = Inr (received_as now m)"
    using decode_encode_message [OF assms(2)] by blast
  show ?thesis using transport_transparent [OF assms(1) enc assms(3)] assms(4) enc dec by simp
qed

definition sample_query :: kad_message where
  "sample_query = SearchKeyReq zero 3 (replicate 1500 65)"

definition sample_body :: bytes where
  "sample_body = id_write_to zero @ le16 (3 OR 0x8000) @ replicate 1500 65"

definition sample_deflate :: "bytes \<Rightarrow> io_error + bytes" where
  "sample_deflate b = (if b = sample_body then Inr [1, 2] else Inl Other)"

definition sample_inflate :: inflater where
  "sample_inflate z = ([sample_body], None)"

lemma length_sample_body: "length sample_body = 1518"
  by (simp add: sample_body_def id_write_to_def)

lemma sample_codec:
  "\<forall>b z. sample_deflate b = Inr z \<longrightarrow> (\<exists>cs. sample_inflate z = (cs, None)
      \<and> [] \<notin> set cs \<and> concat cs = b) \<and> length b \<le> 1032 * length z"
proof -
  have "[] \<noteq> sample_body" using length_sample_body by (metis list.size(3) zero_neq_numeral)
  then show ?thesis using length_sample_body
    by (auto simp: sample_deflate_def sample_inflate_def split: if_splits)
qed

theorem packet_round_trip_witness:
  "encode_packet sample_deflate sample_query
     = Inr [OP_KADEMLIAPACKEDPROT, KADEMLIA2_SEARCH_KEY_REQ, 1, 2]
   \<and> decode_packet sample_inflate sample_inflate 7
       [OP_KADEMLIAPACKEDPROT, KADEMLIA2_SEARCH_KEY_REQ, 1, 2] = Inr sample_query"
proof -
  let ?p = "[OP_KADEMLIAPACKEDPROT, KADEMLIA2_SEARCH_KEY_REQ, 1, 2]"
  note len = length_sample_body
  have enc: "encode_message sample_query = Inr (KADEMLIA2_SEARCH_KEY_REQ # sample_body)"
    by (simp add: sample_query_def sample_body_def)
  have p: "encode_packet sample_deflate sample_query = Inr ?p"
    by (simp add: encode_packet_def enc len max_fragment_for_def opcodes packet_limits
        sample_deflate_def)
  have ok: "message_ok sample_query" by (simp add: sample_query_def packet_limits)
  have small: "\<forall>op body. encode_message sample_query = Inr (op # body) \<longrightarrow>
      length body \<le> MIN_PACKED_EXPANSION"
    using enc len by (auto simp: packet_limits)
  have "received_as 7 sample_query = sample_query" by (simp add: sample_query_def)
  then show ?thesis using packet_round_trip [OF sample_codec ok p small, of sample_inflate 7] p by simp
qed

text \<open>
  C18: what the decoder hands on is a well-formed value. Whatever bytes arrive, and
  whatever the decompressors return, a decoded message has 16-byte hashes, UTF-8 strings,
  blobs within their limit, at most 32 tags per list, 200 or 255 contacts, 300 entries and
  4096 bytes of search terms, its contacts are unverified and stamped with the time of
  arrival.
\<close>

theorem decoded_packet_wf:
  assumes "decode_packet zlib raw now data = Inr m"
  shows "message_wf now m"
  using decode_packet_body [OF assms] decode_message_wf by blast

theorem decoded_packet_wf_witness:
  "decode_packet sample_inflate sample_inflate 7 [OP_KADEMLIAHEADER, KADEMLIA2_PONG, 0x40, 0x12]
     = Inr (Pong 0x1240) \<and> message_wf 7 (Pong 0x1240)"
proof -
  have "decode_packet sample_inflate sample_inflate 7 [OP_KADEMLIAHEADER, KADEMLIA2_PONG, 0x40, 0x12]
     = Inr (Pong 0x1240)"
    by (simp add: decode_packet_def decode_message_def opcodes decode_pong_def read_trailing_def
        read_u16_def read_exact_def)
  then show ?thesis using decoded_packet_wf by blast
qed

text \<open>
  C19: no amplification. A compressed packet of \<open>n\<close> bytes yields a body of at most 512 KiB
  and at most \<open>1032 * (n - 2)\<close> bytes, the decoded lists are paid for by that body, at 25 bytes
  a contact and 17 an entry, and a stream that grows over the limit is refused without
  being handed to the second decompressor.
\<close>

theorem packed_packet_bounds:
  assumes "header # op # z = data" "header = OP_KADEMLIAPACKEDPROT"
  shows "(\<forall>m. decode_packet zlib raw now data = Inr m \<longrightarrow>
       (\<exists>body. decode_message now op body = Inr m \<and> wire_weight m \<le> length body
          \<and> length body \<le> MAX_DECOMPRESSED_SIZE \<and> length body \<le> 1032 * length z))
    \<and> (\<forall>cs fin. zlib z = (cs, fin) \<and> [] \<notin> set cs \<and> max_output (length z) < length (concat cs) \<longrightarrow>
         decode_packet zlib raw now data = Inl InvalidData)"
proof (intro conjI allI impI)
  fix m
  assume a: "decode_packet zlib raw now data = Inr m"
  have ne: "z \<noteq> []" using a assms by (auto simp: decode_packet_def opcodes)
  then obtain body where b: "inflate_payload zlib raw z = Inr body" "decode_message now op body = Inr m"
    using a assms by (cases z) (auto simp: decode_packet_def opcodes bind_r_Inr_iff)
  show "\<exists>body. decode_message now op body = Inr m \<and> wire_weight m \<le> length body
      \<and> length body \<le> MAX_DECOMPRESSED_SIZE \<and> length body \<le> 1032 * length z"
    using b decode_message_weight [OF b(2)] inflate_payload_bound [OF b(1)] max_output_le le_trans
    by blast
next
  fix cs fin
  assume a: "zlib z = (cs, fin) \<and> [] \<notin> set cs \<and> max_output (length z) < length (concat cs)"
  then have "inflate_payload zlib raw z = Inl InvalidData"
    using inflate_loop_over [of cs "[]" "max_output (length z)" fin]
    by (simp add: inflate_payload_def)
  then show "decode_packet zlib raw now data = Inl InvalidData"
    using assms by (auto simp: decode_packet_def opcodes)
qed

theorem packed_packet_bounds_witness:
  "max_output 1 < length (replicate 2000 (0 :: u8))
   \<and> decode_packet (\<lambda>_. ([replicate 2000 0], None)) sample_inflate 7
       [OP_KADEMLIAPACKEDPROT, KADEMLIA2_PING, 9] = Inl InvalidData"
proof -
  have "max_output 1 < length (replicate 2000 (0 :: u8))"
    by (simp add: max_output_def packet_limits usize_max_def)
  moreover have "[] \<notin> set [replicate 2000 (0 :: u8)]" by simp
  ultimately show ?thesis
    using packed_packet_bounds [of OP_KADEMLIAPACKEDPROT KADEMLIA2_PING "[9]"
        "[OP_KADEMLIAPACKEDPROT, KADEMLIA2_PING, 9]" "\<lambda>_. ([replicate 2000 0], None)"
        sample_inflate 7]
    by fastforce
qed

text \<open>
  C20: an encoded packet always fits its datagram: 1420 bytes, or 7600 for the three publish
  requests; it is refused otherwise. Its second byte is the opcode under which requests are
  rate limited.
\<close>

theorem encoded_packet_fits:
  assumes "encode_packet deflate m = Inr p"
  shows "2 \<le> length p \<and> length p \<le> max_fragment_for (p ! 1)
    \<and> (request_wire_opcode m \<noteq> None \<longrightarrow> request_wire_opcode m = Some (p ! 1))"
proof -
  obtain payload where pl: "encode_message m = Inr payload"
    using assms by (auto simp: encode_packet_def bind_r_Inr_iff)
  obtain op body where ob: "payload = op # body" using payload_shape [OF pl] by blast
  have op: "request_wire_opcode m \<noteq> None \<Longrightarrow> request_wire_opcode m = Some op"
    using pl ob by (cases m) (auto simp: bind_r_Inr_iff split: if_splits)
  have "0 < max_fragment_for op" by (simp add: max_fragment_for_def packet_limits)
  then show ?thesis using assms pl ob op
    by (auto simp: encode_packet_def bind_r_Inr_iff Let_def split: if_splits)
qed

theorem encoded_packet_fits_witness:
  "encode_packet sample_deflate Ping = Inr [OP_KADEMLIAHEADER, KADEMLIA2_PING]
   \<and> request_wire_opcode Ping = Some ([OP_KADEMLIAHEADER, KADEMLIA2_PING] ! 1)"
proof -
  have "encode_packet sample_deflate Ping = Inr [OP_KADEMLIAHEADER, KADEMLIA2_PING]"
    by (simp add: encode_packet_def max_fragment_for_def opcodes packet_limits)
  then show ?thesis using encoded_packet_fits by fastforce
qed

end
