(* ===== verification/Query_Expr.thy ===== *)
theory Query_Expr
  imports Utf8 "HOL-Library.Sublist"
begin

text \<open>
  The boolean search query of \<^verbatim>\<open>src-tauri/src/search/query.rs\<close>: the tree \<^verbatim>\<open>QueryExpr\<close>,
  its wire form, its evaluation against a file name and the term sets the DHT lookup is
  chosen from. A string is its UTF-8 bytes; \<^verbatim>\<open>str::contains\<close> is \<open>sublist\<close>, and splitting
  at the ASCII separators of \<^verbatim>\<open>kad/publish.rs\<close> works on bytes. The query parser
  (\<^verbatim>\<open>parse\<close> and its lexer) is in \<open>Query_Text\<close>.
\<close>

unbundle bit_operations_syntax

section \<open>The tree\<close>

datatype query_expr =
    QTerm bytes
  | QAnd query_expr query_expr
  | QOr query_expr query_expr
  | QNot query_expr query_expr

definition MAX_WIRE_CHAIN :: nat where "MAX_WIRE_CHAIN = 8"

text \<open>\<^verbatim>\<open>INV_KAD_KEYWORD_CHARS\<close>: \<^verbatim>\<open>' ()[]{}<>,._-!?:;\/"'\<close>.\<close>

definition is_kad_keyword_separator :: "u8 \<Rightarrow> bool" where
  "is_kad_keyword_separator c \<longleftrightarrow>
     c \<in> {0x20, 0x28, 0x29, 0x5B, 0x5D, 0x7B, 0x7D, 0x3C, 0x3E, 0x2C, 0x2E, 0x5F, 0x2D, 0x21,
           0x3F, 0x3A, 0x3B, 0x5C, 0x2F, 0x22}"

text \<open>\<^verbatim>\<open>str::split\<close> with a predicate: empty pieces are kept.\<close>

fun split_on :: "(u8 \<Rightarrow> bool) \<Rightarrow> bytes \<Rightarrow> bytes list" where
  "split_on p [] = [[]]"
| "split_on p (c # cs) =
     (if p c then [] # split_on p cs
      else case split_on p cs of [] \<Rightarrow> [[c]] | w # ws \<Rightarrow> (c # w) # ws)"

section \<open>Wire form\<close>

definition is_char_boundary :: "bytes \<Rightarrow> nat \<Rightarrow> bool" where
  "is_char_boundary s i \<longleftrightarrow> i = 0 \<or> i = length s \<or> i < length s \<and> \<not> is_cont (s ! i)"

fun back_off :: "bytes \<Rightarrow> nat \<Rightarrow> nat" where
  "back_off s 0 = 0"
| "back_off s (Suc e) = (if is_char_boundary s (Suc e) then Suc e else back_off s e)"

definition write_term :: "bytes \<Rightarrow> bytes" where
  "write_term s =
     (let e = back_off s (min (length s) 65535);
          b = take e s
      in 0x01 # le16 (word_of_nat (length b)) @ b)"

fun same_op :: "query_expr \<Rightarrow> query_expr \<Rightarrow> bool" where
  "same_op (QAnd _ _) (QAnd _ _) = True"
| "same_op (QOr _ _) (QOr _ _) = True"
| "same_op _ _ = False"

fun qsize :: "query_expr \<Rightarrow> nat" where
  "qsize (QTerm s) = 1"
| "qsize (QAnd l r) = Suc (qsize l + qsize r)"
| "qsize (QOr l r) = Suc (qsize l + qsize r)"
| "qsize (QNot l r) = Suc (qsize l + qsize r)"

fun op_children :: "query_expr \<Rightarrow> query_expr list" where
  "op_children (QAnd l r) = [l, r]"
| "op_children (QOr l r) = [l, r]"
| "op_children _ = []"

lemma op_children_size: "sum_list (map qsize (op_children x)) < qsize x"
  by (cases x) simp_all

text \<open>The loop of \<^verbatim>\<open>chain_operands\<close>: the stack, top first, and the operands so far.\<close>

function chain_loop :: "query_expr \<Rightarrow> query_expr list \<Rightarrow> query_expr list \<Rightarrow> query_expr list" where
  "chain_loop self [] operands = operands"
| "chain_loop self (x # stack) operands =
     (if same_op self x then chain_loop self (op_children x @ stack) operands
      else chain_loop self stack (operands @ [x]))"
  by pat_completeness auto
termination
proof (relation "measure (\<lambda>(self, stack, operands). sum_list (map qsize stack))")
  show "((self, op_children x @ stack, operands), (self, x # stack, operands))
      \<in> measure (\<lambda>(self, stack, operands). sum_list (map qsize stack))"
    if "same_op self x" for self x stack and operands :: "query_expr list"
    using op_children_size [of x] by simp
  show "((self, stack, operands @ [x]), (self, x # stack, operands))
      \<in> measure (\<lambda>(self, stack, operands). sum_list (map qsize stack))"
    for self x stack and operands :: "query_expr list"
    by (cases x) simp_all
qed simp

definition chain_operands :: "query_expr \<Rightarrow> query_expr list" where
  "chain_operands q = chain_loop q [q] []"

text \<open>The operands of a run, by recursion on the tree.\<close>

fun run_operands :: "query_expr \<Rightarrow> query_expr \<Rightarrow> query_expr list" where
  "run_operands q (QAnd l r) =
     (if same_op q (QAnd l r) then run_operands q l @ run_operands q r else [QAnd l r])"
| "run_operands q (QOr l r) =
     (if same_op q (QOr l r) then run_operands q l @ run_operands q r else [QOr l r])"
| "run_operands q x = [x]"

lemma run_operands_eq:
  "run_operands q x = (if same_op q x then concat (map (run_operands q) (op_children x)) else [x])"
  by (cases x; cases q) simp_all

lemma chain_loop_run: "chain_loop q st ops = ops @ concat (map (run_operands q) st)"
proof (induction q st ops rule: chain_loop.induct)
  case (2 q x st ops)
  then show ?case by (simp add: run_operands_eq [of q x])
qed simp

lemma chain_operands_run: "chain_operands q = run_operands q q"
  by (simp add: chain_operands_def chain_loop_run)

lemma qsize_pos [simp]: "0 < qsize q"
  by (cases q) simp_all

lemma run_operands_size: "sum_list (map qsize (run_operands q x)) \<le> qsize x"
  by (induction q x rule: run_operands.induct) (auto simp: add_mono le_SucI)

lemma run_operands_size_less:
  "same_op q x \<Longrightarrow> sum_list (map qsize (run_operands q x)) < qsize x"
  using run_operands_size [of q]
  by (cases x; cases q) (simp_all add: le_imp_less_Suc add_mono)

lemma sum_take_drop:
  fixes f :: "'a \<Rightarrow> nat"
  assumes "\<And>x. 0 < f x" "0 < k" "k < length xs"
  shows "sum_list (map f (take k xs)) < sum_list (map f xs)"
    and "sum_list (map f (drop k xs)) < sum_list (map f xs)"
proof -
  have pos: "0 < sum_list (map f ys)" if "ys \<noteq> []" for ys
    using that assms(1) by (cases ys) (auto simp: add_pos_nonneg)
  have "sum_list (map f xs) = sum_list (map f (take k xs)) + sum_list (map f (drop k xs))"
    by (metis append_take_drop_id map_append sum_list_append)
  moreover have "0 < sum_list (map f (take k xs))" "0 < sum_list (map f (drop k xs))"
    using assms(2,3) by (auto intro!: pos)
  ultimately show "sum_list (map f (take k xs)) < sum_list (map f xs)"
    "sum_list (map f (drop k xs)) < sum_list (map f xs)" by simp_all
qed

fun op_code :: "query_expr \<Rightarrow> u8" where
  "op_code (QOr _ _) = 0x01"
| "op_code (QNot _ _) = 0x02"
| "op_code _ = 0x00"

definition is_run :: "query_expr \<Rightarrow> bool" where
  "is_run q \<longleftrightarrow> (case q of QAnd _ _ \<Rightarrow> True | QOr _ _ \<Rightarrow> True | _ \<Rightarrow> False)"

lemma same_op_self: "is_run q \<Longrightarrow> same_op q q"
  by (cases q) (simp_all add: is_run_def)

function write_wire :: "query_expr \<Rightarrow> bytes"
  and write_balanced :: "u8 \<Rightarrow> query_expr list \<Rightarrow> bytes" where
  "write_wire q =
     (if is_run q \<and> MAX_WIRE_CHAIN < length (chain_operands q)
      then write_balanced (op_code q) (chain_operands q)
      else case q of
             QTerm s \<Rightarrow> write_term s
           | QAnd l r \<Rightarrow> [0x00, 0x00] @ write_wire l @ write_wire r
           | QOr l r \<Rightarrow> [0x00, 0x01] @ write_wire l @ write_wire r
           | QNot l r \<Rightarrow> [0x00, 0x02] @ write_wire l @ write_wire r)"
| "write_balanced op [] = []"
| "write_balanced op [only] = write_wire only"
| "write_balanced op (x # y # zs) =
     (let mid = (length (x # y # zs) + 1) div 2
      in [0x00, op] @ write_balanced op (take mid (x # y # zs))
           @ write_balanced op (drop mid (x # y # zs)))"
  by pat_completeness auto
termination
proof (relation "measures [\<lambda>a. (case a of Inl q \<Rightarrow> qsize q | Inr (op, xs) \<Rightarrow> sum_list (map qsize xs)),
    \<lambda>a. (case a of Inl q \<Rightarrow> 0 | Inr _ \<Rightarrow> 1)]", goal_cases)
  case (2 q)
  then show ?case
    using run_operands_size_less [of q q] same_op_self by (simp add: chain_operands_run)
next
  case (10 op x y zs mid)
  then show ?case using sum_take_drop(1) [of qsize mid "x # y # zs"] by simp
next
  case (11 op x y zs mid)
  then show ?case using sum_take_drop(2) [of qsize mid "x # y # zs"] by simp
qed simp_all

declare write_wire.simps [simp del]

definition to_wire_bytes :: "query_expr \<Rightarrow> bytes" where
  "to_wire_bytes q = write_wire q"

section \<open>Evaluation and term sets\<close>

fun matches_whole_words :: "query_expr \<Rightarrow> bytes \<Rightarrow> bool" where
  "matches_whole_words (QTerm s) h = (s \<in> set (split_on is_kad_keyword_separator h))"
| "matches_whole_words (QAnd l r) h = (matches_whole_words l h \<and> matches_whole_words r h)"
| "matches_whole_words (QOr l r) h = (matches_whole_words l h \<or> matches_whole_words r h)"
| "matches_whole_words (QNot l r) h = (matches_whole_words l h \<and> \<not> matches_whole_words r h)"

fun query_matches :: "query_expr \<Rightarrow> bytes \<Rightarrow> bool" where
  "query_matches (QTerm s) h = sublist s h"
| "query_matches (QAnd l r) h = (query_matches l h \<and> query_matches r h)"
| "query_matches (QOr l r) h = (query_matches l h \<or> query_matches r h)"
| "query_matches (QNot l r) h = (query_matches l h \<and> \<not> matches_whole_words r h)"

fun collect_positive :: "query_expr \<Rightarrow> bytes list \<Rightarrow> bytes list" where
  "collect_positive (QTerm s) out = out @ [s]"
| "collect_positive (QAnd l r) out = collect_positive r (collect_positive l out)"
| "collect_positive (QOr l r) out = collect_positive r (collect_positive l out)"
| "collect_positive (QNot l r) out = collect_positive l out"

text \<open>\<^verbatim>\<open>out.retain(|t| seen.insert(t))\<close>: first occurrences stay.\<close>

fun retain_unseen :: "bytes list \<Rightarrow> bytes list \<Rightarrow> bytes list" where
  "retain_unseen seen [] = []"
| "retain_unseen seen (t # ts) =
     (if t \<in> set seen then retain_unseen seen ts else t # retain_unseen (t # seen) ts)"

definition positive_terms :: "query_expr \<Rightarrow> bytes list" where
  "positive_terms q = retain_unseen [] (collect_positive q [])"

fun push_new :: "bytes list \<Rightarrow> bytes list \<Rightarrow> bytes list" where
  "push_new out [] = out"
| "push_new out (t # ts) = push_new (if t \<in> set out then out else out @ [t]) ts"

fun required_terms :: "query_expr \<Rightarrow> bytes list" where
  "required_terms (QTerm s) = [s]"
| "required_terms (QAnd l r) = push_new (required_terms l) (required_terms r)"
| "required_terms (QOr l r) =
     (let right = required_terms r in filter (\<lambda>t. t \<in> set right) (required_terms l))"
| "required_terms (QNot l r) = required_terms l"

fun is_trivial :: "query_expr \<Rightarrow> bool" where
  "is_trivial (QTerm s) = True"
| "is_trivial _ = False"

fun contains_or :: "query_expr \<Rightarrow> bool" where
  "contains_or (QOr l r) = True"
| "contains_or (QAnd l r) = (contains_or l \<or> contains_or r)"
| "contains_or (QNot l r) = (contains_or l \<or> contains_or r)"
| "contains_or (QTerm s) = False"

fun contains_not :: "query_expr \<Rightarrow> bool" where
  "contains_not (QNot l r) = True"
| "contains_not (QAnd l r) = (contains_not l \<or> contains_not r)"
| "contains_not (QOr l r) = (contains_not l \<or> contains_not r)"
| "contains_not (QTerm s) = False"

fun without_term :: "query_expr \<Rightarrow> bytes \<Rightarrow> query_expr option" where
  "without_term (QTerm s) k = (if s = k then None else Some (QTerm s))"
| "without_term (QAnd l r) k =
     (case (without_term l k, without_term r k) of
        (None, None) \<Rightarrow> None
      | (Some x, None) \<Rightarrow> Some x
      | (None, Some x) \<Rightarrow> Some x
      | (Some a, Some b) \<Rightarrow> Some (QAnd a b))"
| "without_term (QOr l r) k = Some (QOr l r)"
| "without_term (QNot l r) k = Some (QNot l r)"

section \<open>Folding operands\<close>

fun fold_and :: "query_expr list \<Rightarrow> query_expr option" where
  "fold_and [] = None"
| "fold_and (q # qs) = Some (foldl QAnd q qs)"

fun fold_or :: "query_expr list \<Rightarrow> query_expr option" where
  "fold_or [] = None"
| "fold_or (q # qs) = Some (foldl QOr q qs)"

definition apply_exclusions :: "query_expr \<Rightarrow> query_expr list \<Rightarrow> query_expr" where
  "apply_exclusions q exclusions = foldl QNot q exclusions"

end
