(* ===== verification/Search_Expr.thy ===== *)
theory Search_Expr
  imports Kad_Tag Query_Expr
begin

text \<open>
  Search expressions on the wire. The sending side is the constraint builder
  \<^verbatim>\<open>build_search_expression_with_node\<close> and the 64-bit scan
  \<^verbatim>\<open>search_expression_uses_64bit\<close> of \<^verbatim>\<open>src-tauri/src/network/kad/messages.rs\<close>; the
  receiving side is the parser and the evaluator of
  \<^verbatim>\<open>src-tauri/src/network/kad_search.rs\<close>. Lower-casing needs the Unicode tables and is a
  parameter: \<open>lower\<close> stands for \<^verbatim>\<open>kad_keyword_lowercase\<close>, \<open>tolow\<close> for
  \<^verbatim>\<open>str::to_lowercase\<close>.
\<close>

unbundle bit_operations_syntax

section \<open>Building an expression\<close>

definition TAG_FILENAME :: u8 where "TAG_FILENAME = 0x01"
definition TAG_FILESIZE :: u8 where "TAG_FILESIZE = 0x02"
definition TAG_FILETYPE :: u8 where "TAG_FILETYPE = 0x03"
definition TAG_SOURCES :: u8 where "TAG_SOURCES = 0x15"
definition FT_FILEFORMAT :: u8 where "FT_FILEFORMAT = 0x04"
definition ED2K_SEARCH_OP_GREATER_EQUAL :: u8 where "ED2K_SEARCH_OP_GREATER_EQUAL = 3"
definition ED2K_SEARCH_OP_LESS_EQUAL :: u8 where "ED2K_SEARCH_OP_LESS_EQUAL = 4"

lemmas search_consts =
  TAG_FILENAME_def TAG_FILESIZE_def TAG_FILETYPE_def TAG_SOURCES_def FT_FILEFORMAT_def
  ED2K_SEARCH_OP_GREATER_EQUAL_def ED2K_SEARCH_OP_LESS_EQUAL_def

record search_constraints =
  file_type :: "bytes option"
  file_extension :: "bytes option"
  min_size :: "u64 option"
  max_size :: "u64 option"
  min_availability :: "u32 option"

text \<open>\<^verbatim>\<open>str::trim\<close>: the UTF-8 encodings of the characters with the White\_Space property.\<close>

definition whitespace_encodings :: "bytes list" where
  "whitespace_encodings =
     [[0x09], [0x0A], [0x0B], [0x0C], [0x0D], [0x20], [0xC2, 0x85], [0xC2, 0xA0],
      [0xE1, 0x9A, 0x80], [0xE2, 0x80, 0x80], [0xE2, 0x80, 0x81], [0xE2, 0x80, 0x82],
      [0xE2, 0x80, 0x83], [0xE2, 0x80, 0x84], [0xE2, 0x80, 0x85], [0xE2, 0x80, 0x86],
      [0xE2, 0x80, 0x87], [0xE2, 0x80, 0x88], [0xE2, 0x80, 0x89], [0xE2, 0x80, 0x8A],
      [0xE2, 0x80, 0xA8], [0xE2, 0x80, 0xA9], [0xE2, 0x80, 0xAF], [0xE2, 0x81, 0x9F],
      [0xE3, 0x80, 0x80]]"

text \<open>Strip from the front any sequence of the given non-empty words.\<close>

function strip_words :: "bytes list \<Rightarrow> bytes \<Rightarrow> bytes" where
  "strip_words ws s =
     (case find (\<lambda>w. w \<noteq> [] \<and> prefix w s) ws of
        None \<Rightarrow> s
      | Some w \<Rightarrow> strip_words ws (drop (length w) s))"
  by pat_completeness auto
termination
  by (relation "measure (\<lambda>(ws, s). length s)")
     (auto simp: find_Some_iff prefix_def)

definition trim_str :: "bytes \<Rightarrow> bytes" where
  "trim_str s =
     rev (strip_words (map rev whitespace_encodings) (rev (strip_words whitespace_encodings s)))"

definition write_meta_string :: "bytes \<Rightarrow> u8 \<Rightarrow> bytes" where
  "write_meta_string val tag_id =
     [0x02] @ le16 (word_of_nat (length val)) @ val @ le16 1 @ [tag_id]"

definition write_numeric_leaf :: "u64 \<Rightarrow> u8 \<Rightarrow> u8 \<Rightarrow> bytes" where
  "write_numeric_leaf val op tag_id =
     (if 0xFFFFFFFF < val then 0x08 # le64 val else 0x03 # le32 (ucast val))
       @ [op] @ le16 1 @ [tag_id]"

definition constraint_nodes :: "search_constraints \<Rightarrow> bytes list" where
  "constraint_nodes c =
     (case file_type c of
        Some ft \<Rightarrow> if ft \<noteq> [] then [write_meta_string ft TAG_FILETYPE] else []
      | None \<Rightarrow> [])
     @ (case file_extension c of
          Some e \<Rightarrow>
            (let e = dropWhile (\<lambda>b. b = 0x2E) (trim_str e)
             in if e \<noteq> [] then [write_meta_string e FT_FILEFORMAT] else [])
        | None \<Rightarrow> [])
     @ (case min_size c of
          Some v \<Rightarrow> if 0 < v then [write_numeric_leaf v ED2K_SEARCH_OP_GREATER_EQUAL TAG_FILESIZE] else []
        | None \<Rightarrow> [])
     @ (case max_size c of
          Some v \<Rightarrow> if 0 < v then [write_numeric_leaf v ED2K_SEARCH_OP_LESS_EQUAL TAG_FILESIZE] else []
        | None \<Rightarrow> [])
     @ (case min_availability c of
          Some v \<Rightarrow>
            if 0 < v then [write_numeric_leaf (ucast v) ED2K_SEARCH_OP_GREATER_EQUAL TAG_SOURCES] else []
        | None \<Rightarrow> [])"

text \<open>The right-leaning chain: every operand but the last is preceded by the operator AND.\<close>

fun and_chain :: "bytes list \<Rightarrow> bytes" where
  "and_chain [] = []"
| "and_chain [n] = n"
| "and_chain (n # m # ns) = [0x00, 0x00] @ n @ and_chain (m # ns)"

definition build_search_expression_with_node :: "bytes option \<Rightarrow> search_constraints \<Rightarrow> bytes" where
  "build_search_expression_with_node keyword_node c =
     (let nodes = (case keyword_node of
            Some n \<Rightarrow> if n \<noteq> [] then [n] else []
          | None \<Rightarrow> []) @ constraint_nodes c
      in and_chain nodes)"

section \<open>The 64-bit scan\<close>

definition u16_at :: "bytes \<Rightarrow> nat \<Rightarrow> nat" where
  "u16_at d p = unat (d ! p) + 256 * unat (d ! (p + 1))"

text \<open>One node at \<open>pos\<close>: whether it is a 64-bit leaf, the next position, the operands owed.\<close>

definition leaf_or_operator :: "bytes \<Rightarrow> nat \<Rightarrow> nat \<Rightarrow> (bool \<times> nat \<times> nat) option" where
  "leaf_or_operator d pos owed =
     (if length d \<le> pos then None
      else let kind = d ! pos; pos = pos + 1
      in if kind = 0x00 then
           if length d \<le> pos then None else Some (False, pos + 1, owed + 2)
         else if kind = 0x01 then
           if length d < pos + 2 then None
           else let len = u16_at d pos; pos = pos + 2
                in if length d < pos + len then None else Some (False, pos + len, owed)
         else if kind = 0x02 then
           if length d < pos + 2 then None
           else let len = u16_at d pos; pos = pos + 2
                in if length d < pos + len + 2 then None
                   else let pos = pos + len; name_len = u16_at d pos; pos = pos + 2
                        in if length d < pos + name_len then None
                           else Some (False, pos + name_len, owed)
         else if kind = 0x03 then
           if length d < pos + 4 + 1 + 2 then None
           else let pos = pos + 4 + 1; name_len = u16_at d pos; pos = pos + 2
                in if length d < pos + name_len then None else Some (False, pos + name_len, owed)
         else if kind = 0x08 then
           if length d < pos + 8 + 1 + 2 then None
           else let pos = pos + 8 + 1; name_len = u16_at d pos; pos = pos + 2
                in if length d < pos + name_len then None else Some (True, pos + name_len, owed)
         else None)"

text \<open>
  The loop of \<^verbatim>\<open>scan\<close>. The outer \<open>option\<close> is \<open>None\<close> when the loop does not return, the
  inner one is the result of the source.
\<close>

partial_function (option) scan_loop :: "bytes \<Rightarrow> nat \<Rightarrow> nat \<Rightarrow> bool \<Rightarrow> bool option option" where
  "scan_loop d pos owed uses64 =
     (if owed = 0 then Some (Some uses64)
      else case leaf_or_operator d pos (owed - 1) of
             None \<Rightarrow> Some None
           | Some (is64, next_pos, owed') \<Rightarrow> scan_loop d next_pos owed' (uses64 \<or> is64))"

definition search_expression_uses_64bit :: "bytes \<Rightarrow> bool option" where
  "search_expression_uses_64bit expr =
     (case scan_loop expr 0 1 False of
        None \<Rightarrow> None
      | Some r \<Rightarrow> Some (case r of Some b \<Rightarrow> b | None \<Rightarrow> False))"

section \<open>Receiving an expression\<close>

datatype search_tag_ref = TagId u8 | TagStr bytes

datatype kad_numeric_op = NumEq | NumGt | NumLt | NumGe | NumLe | NumNe

datatype kad_search_expr =
    SAnd kad_search_expr kad_search_expr
  | SOr kad_search_expr kad_search_expr
  | SNot kad_search_expr kad_search_expr
  | SString bytes
  | SMetaString search_tag_ref bytes
  | SNumeric search_tag_ref kad_numeric_op u64

definition MAX_KAD_SEARCH_EXPR_DEPTH :: nat where "MAX_KAD_SEARCH_EXPR_DEPTH = 32"

definition read_kad_numeric_op :: "u8 \<Rightarrow> io_error + kad_numeric_op" where
  "read_kad_numeric_op op =
     (if op = 0x00 then Inr NumEq
      else if op = 0x01 then Inr NumGt
      else if op = 0x02 then Inr NumLt
      else if op = 0x03 then Inr NumGe
      else if op = 0x04 then Inr NumLe
      else if op = 0x05 then Inr NumNe
      else Inl InvalidData)"

definition read_kad_search_string :: "bytes reader" where
  "read_kad_search_string bs =
     bind_r (read_u16 bs) (\<lambda>(n, bs).
       let len = unat n
       in if 1024 < len then Inl InvalidData
          else if length bs < len then Inl UnexpectedEof
          else Inr (from_utf8_lossy (take len bs), drop len bs))"

definition read_kad_search_tag_ref :: "(bytes \<Rightarrow> bytes) \<Rightarrow> search_tag_ref reader" where
  "read_kad_search_tag_ref tolow bs =
     bind_r (read_u16 bs) (\<lambda>(n, bs).
       let len = unat n
       in if 128 < len then Inl InvalidData
          else if length bs < len then Inl UnexpectedEof
          else let b = take len bs; bs = drop len bs
               in if len = 1 then Inr (TagId (b ! 0), bs)
                  else Inr (TagStr (tolow (from_utf8_lossy b)), bs))"

function parse_kad_search_expression_node ::
  "(bytes \<Rightarrow> bytes) \<Rightarrow> nat \<Rightarrow> nat \<Rightarrow> bytes \<Rightarrow> io_error + (kad_search_expr \<times> nat \<times> bytes)" where
  "parse_kad_search_expression_node tolow depth node_budget bs =
     (if MAX_KAD_SEARCH_EXPR_DEPTH \<le> depth then Inl InvalidData
      else if node_budget = 0 then Inl InvalidData
      else bind_r (read_u8 bs) (\<lambda>(kind, bs).
        if kind = 0x00 then
          bind_r (read_u8 bs) (\<lambda>(op, bs).
          bind_r (parse_kad_search_expression_node tolow (depth + 1) (node_budget - 1) bs)
            (\<lambda>(left, node_budget, bs).
          bind_r (parse_kad_search_expression_node tolow (depth + 1) node_budget bs)
            (\<lambda>(right, node_budget, bs).
          if op = 0x00 then Inr (SAnd left right, node_budget, bs)
          else if op = 0x01 then Inr (SOr left right, node_budget, bs)
          else if op = 0x02 then Inr (SNot left right, node_budget, bs)
          else Inl InvalidData)))
        else if kind = 0x01 then
          bind_r (read_kad_search_string bs) (\<lambda>(s, bs). Inr (SString s, node_budget - 1, bs))
        else if kind = 0x02 then
          bind_r (read_kad_search_string bs) (\<lambda>(val, bs).
          bind_r (read_kad_search_tag_ref tolow bs) (\<lambda>(tag, bs).
            Inr (SMetaString tag val, node_budget - 1, bs)))
        else if kind = 0x03 then
          bind_r (read_u32 bs) (\<lambda>(val, bs).
          bind_r (read_u8 bs) (\<lambda>(o8, bs).
          bind_r (read_kad_numeric_op o8) (\<lambda>op.
          bind_r (read_kad_search_tag_ref tolow bs) (\<lambda>(tag, bs).
            Inr (SNumeric tag op (ucast val), node_budget - 1, bs)))))
        else if kind = 0x08 then
          bind_r (read_u64 bs) (\<lambda>(val, bs).
          bind_r (read_u8 bs) (\<lambda>(o8, bs).
          bind_r (read_kad_numeric_op o8) (\<lambda>op.
          bind_r (read_kad_search_tag_ref tolow bs) (\<lambda>(tag, bs).
            Inr (SNumeric tag op val, node_budget - 1, bs)))))
        else Inl InvalidData))"
  by pat_completeness auto
termination
  by (relation "measure (\<lambda>(tolow, depth, node_budget, bs). MAX_KAD_SEARCH_EXPR_DEPTH - depth)") auto

declare parse_kad_search_expression_node.simps [simp del] strip_words.simps [simp del]

definition parse_kad_search_expression :: "(bytes \<Rightarrow> bytes) \<Rightarrow> bytes \<Rightarrow> kad_search_expr option" where
  "parse_kad_search_expression tolow d =
     (if d = [] then None
      else if 16 * 1024 < length d then None
      else case parse_kad_search_expression_node tolow 0 256 d of
             Inl _ \<Rightarrow> None
           | Inr (expr, _, rest) \<Rightarrow> if rest \<noteq> [] then None else Some expr)"

section \<open>Evaluating an expression\<close>

fun tag_name_matches :: "(bytes \<Rightarrow> bytes) \<Rightarrow> search_tag_ref \<Rightarrow> tag_name \<Rightarrow> bool" where
  "tag_name_matches tolow (TagId a) (Id b) = (a = b)"
| "tag_name_matches tolow (TagStr a) (Str b) = (a = tolow b)"
| "tag_name_matches tolow (TagStr a) (Id b) = (length a = 1 \<and> a ! 0 = b)"
| "tag_name_matches tolow _ _ = False"

text \<open>The literals are \<^verbatim>\<open>"filename"\<close>, \<^verbatim>\<open>"name"\<close>, \<^verbatim>\<open>"filesize"\<close> and \<^verbatim>\<open>"size"\<close>.\<close>

definition ascii :: "string \<Rightarrow> bytes" where
  "ascii s = map (\<lambda>c. word_of_nat (of_char c)) s"

fun tag_matches_filename :: "search_tag_ref \<Rightarrow> bool" where
  "tag_matches_filename (TagId i) = (i = TAG_FILENAME)"
| "tag_matches_filename (TagStr n) = (n = ascii ''filename'' \<or> n = ascii ''name'')"

fun tag_matches_fileformat :: "search_tag_ref \<Rightarrow> bool" where
  "tag_matches_fileformat (TagId i) = (i = FT_FILEFORMAT)"
| "tag_matches_fileformat (TagStr n) = False"

fun tag_matches_filesize :: "search_tag_ref \<Rightarrow> bool" where
  "tag_matches_filesize (TagId i) = (i = TAG_FILESIZE)"
| "tag_matches_filesize (TagStr n) = (n = ascii ''filesize'' \<or> n = ascii ''size'')"

definition search_entry_tag_u64 :: "kad_tag \<Rightarrow> u64 option" where
  "search_entry_tag_u64 t = (if tname t = Id TAG_FILESIZE then as_file_size t else None)"

fun find_map :: "('a \<Rightarrow> 'b option) \<Rightarrow> 'a list \<Rightarrow> 'b option" where
  "find_map f [] = None"
| "find_map f (x # xs) = (case f x of Some y \<Rightarrow> Some y | None \<Rightarrow> find_map f xs)"

text \<open>\<^verbatim>\<open>rsplit_once('.')\<close>, the part behind the last dot.\<close>

definition extension_of :: "bytes \<Rightarrow> bytes option" where
  "extension_of s =
     (if 0x2E \<in> set s then Some (rev (takeWhile (\<lambda>b. b \<noteq> 0x2E) (rev s))) else None)"

fun numeric_holds :: "kad_numeric_op \<Rightarrow> u64 \<Rightarrow> u64 \<Rightarrow> bool" where
  "numeric_holds NumEq a v = (a = v)"
| "numeric_holds NumGt a v = (v < a)"
| "numeric_holds NumLt a v = (a < v)"
| "numeric_holds NumGe a v = (v \<le> a)"
| "numeric_holds NumLe a v = (a \<le> v)"
| "numeric_holds NumNe a v = (a \<noteq> v)"

definition option_or :: "'a option \<Rightarrow> 'a option \<Rightarrow> 'a option" where
  "option_or a b = (case a of Some x \<Rightarrow> Some x | None \<Rightarrow> b)"

definition entry_uint :: "kad_tag \<Rightarrow> u64 option" where
  "entry_uint t =
     option_or (uint64_value t)
       (option_or (map_option ucast (uint32_value t))
         (option_or (map_option ucast (uint16_value t)) (map_option ucast (uint8_value t))))"

fun matches_search_expr_impl ::
  "(bytes \<Rightarrow> bytes) \<Rightarrow> (bytes \<Rightarrow> bytes) \<Rightarrow> kad_search_expr \<Rightarrow> bytes \<Rightarrow> u64 \<Rightarrow> kad_tag list option \<Rightarrow> bool" where
  "matches_search_expr_impl lower tolow (SAnd l r) name fsize tags =
     (matches_search_expr_impl lower tolow l name fsize tags
      \<and> matches_search_expr_impl lower tolow r name fsize tags)"
| "matches_search_expr_impl lower tolow (SOr l r) name fsize tags =
     (matches_search_expr_impl lower tolow l name fsize tags
      \<or> matches_search_expr_impl lower tolow r name fsize tags)"
| "matches_search_expr_impl lower tolow (SNot l r) name fsize tags =
     (matches_search_expr_impl lower tolow l name fsize tags
      \<and> \<not> matches_search_expr_impl lower tolow r name fsize tags)"
| "matches_search_expr_impl lower tolow (SString val) name fsize tags =
     (let words = filter (\<lambda>w. w \<noteq> []) (split_on is_kad_keyword_separator (lower val))
      in words \<noteq> [] \<and> (\<forall>w \<in> set words. sublist w name))"
| "matches_search_expr_impl lower tolow (SMetaString tag val) name fsize tags =
     (let val = lower val
      in if tag_matches_filename tag then sublist val name
         else if tag_matches_fileformat tag then
           let wanted = dropWhile (\<lambda>b. b = 0x2E) val
           in (case extension_of name of
                 None \<Rightarrow> False
               | Some e \<Rightarrow> wanted \<noteq> [] \<and> e = wanted)
         else case tags of
                None \<Rightarrow> False
              | Some ts \<Rightarrow>
                  (case find (\<lambda>t. tag_name_matches tolow tag (tname t)) ts of
                     None \<Rightarrow> False
                   | Some t \<Rightarrow> (case string_value t of
                                  None \<Rightarrow> False
                                | Some v \<Rightarrow> sublist val (lower v))))"
| "matches_search_expr_impl lower tolow (SNumeric tag op val) name fsize tags =
     (let numeric =
            (if tag_matches_filesize tag then Some fsize
             else case tags of
                    None \<Rightarrow> None
                  | Some ts \<Rightarrow>
                      (case find (\<lambda>t. tag_name_matches tolow tag (tname t)) ts of
                         None \<Rightarrow> None
                       | Some t \<Rightarrow> entry_uint t))
      in case numeric of None \<Rightarrow> False | Some actual \<Rightarrow> numeric_holds op actual val)"

definition entry_name :: "(bytes \<Rightarrow> bytes) \<Rightarrow> kad_tag list \<Rightarrow> bytes" where
  "entry_name lower tags =
     (case find (\<lambda>t. tname t = Id TAG_FILENAME) tags of
        None \<Rightarrow> []
      | Some t \<Rightarrow> (case string_value t of None \<Rightarrow> [] | Some s \<Rightarrow> lower s))"

definition entry_size :: "kad_tag list \<Rightarrow> u64" where
  "entry_size tags = (case find_map search_entry_tag_u64 tags of None \<Rightarrow> 0 | Some v \<Rightarrow> v)"

definition matches_search_expr_for_tags ::
  "(bytes \<Rightarrow> bytes) \<Rightarrow> (bytes \<Rightarrow> bytes) \<Rightarrow> kad_search_expr \<Rightarrow> kad_tag list \<Rightarrow> bool" where
  "matches_search_expr_for_tags lower tolow expr tags =
     matches_search_expr_impl lower tolow expr (entry_name lower tags) (entry_size tags) (Some tags)"

definition matches_requested_file_size_tags :: "kad_tag list \<Rightarrow> u64 \<Rightarrow> bool" where
  "matches_requested_file_size_tags tags requested_size =
     (if requested_size = 0 then True
      else case find_map search_entry_tag_u64 tags of
             None \<Rightarrow> False
           | Some fsize \<Rightarrow> fsize = requested_size)"

end
