(* ===== verification/Search_Wire.thy ===== *)
theory Search_Wire
  imports Search_Expr
begin

text \<open>
  The wire form of an expression tree (\<open>ser\<close>) against the two programs that read it: the
  parser of an indexing node returns the tree, and the 64-bit scan finds its 64-bit leaves
  and always ends.
\<close>

unbundle bit_operations_syntax

section \<open>Serialised expressions\<close>

fun num_op_byte :: "kad_numeric_op \<Rightarrow> u8" where
  "num_op_byte NumEq = 0"
| "num_op_byte NumGt = 1"
| "num_op_byte NumLt = 2"
| "num_op_byte NumGe = 3"
| "num_op_byte NumLe = 4"
| "num_op_byte NumNe = 5"

fun ref_bytes :: "search_tag_ref \<Rightarrow> bytes" where
  "ref_bytes (TagId i) = [i]"
| "ref_bytes (TagStr s) = s"

text \<open>The wire form of an expression tree.\<close>

fun ser :: "kad_search_expr \<Rightarrow> bytes" where
  "ser (SAnd l r) = [0x00, 0x00] @ ser l @ ser r"
| "ser (SOr l r) = [0x00, 0x01] @ ser l @ ser r"
| "ser (SNot l r) = [0x00, 0x02] @ ser l @ ser r"
| "ser (SString s) = 0x01 # le16 (word_of_nat (length s)) @ s"
| "ser (SMetaString t v) =
     0x02 # le16 (word_of_nat (length v)) @ v
       @ le16 (word_of_nat (length (ref_bytes t))) @ ref_bytes t"
| "ser (SNumeric t op v) =
     (if 0xFFFFFFFF < v then 0x08 # le64 v else 0x03 # le32 (ucast v))
       @ [num_op_byte op] @ le16 (word_of_nat (length (ref_bytes t))) @ ref_bytes t"

fun expr_ok :: "kad_search_expr \<Rightarrow> bool" where
  "expr_ok (SAnd l r) = (expr_ok l \<and> expr_ok r)"
| "expr_ok (SOr l r) = (expr_ok l \<and> expr_ok r)"
| "expr_ok (SNot l r) = (expr_ok l \<and> expr_ok r)"
| "expr_ok (SString s) = (valid_utf8 s \<and> length s \<le> 1024)"
| "expr_ok (SMetaString t v) = (valid_utf8 v \<and> length v \<le> 1024 \<and> (\<exists>i. t = TagId i))"
| "expr_ok (SNumeric t op v) = (\<exists>i. t = TagId i)"

fun nodes :: "kad_search_expr \<Rightarrow> nat" where
  "nodes (SAnd l r) = Suc (nodes l + nodes r)"
| "nodes (SOr l r) = Suc (nodes l + nodes r)"
| "nodes (SNot l r) = Suc (nodes l + nodes r)"
| "nodes _ = 1"

fun depth :: "kad_search_expr \<Rightarrow> nat" where
  "depth (SAnd l r) = Suc (max (depth l) (depth r))"
| "depth (SOr l r) = Suc (max (depth l) (depth r))"
| "depth (SNot l r) = Suc (max (depth l) (depth r))"
| "depth _ = 1"

fun uses64 :: "kad_search_expr \<Rightarrow> bool" where
  "uses64 (SAnd l r) = (uses64 l \<or> uses64 r)"
| "uses64 (SOr l r) = (uses64 l \<or> uses64 r)"
| "uses64 (SNot l r) = (uses64 l \<or> uses64 r)"
| "uses64 (SNumeric t op v) = (0xFFFFFFFF < v)"
| "uses64 _ = False"

section \<open>Parsing what was serialised\<close>

lemma read_search_string_ser:
  "valid_utf8 s \<Longrightarrow> length s \<le> 1024 \<Longrightarrow>
   read_kad_search_string (le16 (word_of_nat (length s)) @ s @ r) = Inr (s, r)"
  by (simp add: read_kad_search_string_def unat_of_nat_small Let_def from_utf8_lossy_valid)

lemma read_tag_ref_ser:
  "read_kad_search_tag_ref tolow (le16 1 @ i # r) = Inr (TagId i, r)"
  by (simp add: read_kad_search_tag_ref_def)

lemma read_num_op [simp]: "read_kad_numeric_op (num_op_byte op) = Inr op"
  by (cases op) (simp_all add: read_kad_numeric_op_def)

lemma ucast_small: "\<not> 0xFFFFFFFF < v \<Longrightarrow> ucast (ucast (v :: u64) :: u32) = v"
proof -
  assume "\<not> 0xFFFFFFFF < v"
  then have "unat v \<le> 4294967295" by (simp add: word_less_nat_alt)
  then have "take_bit 32 (unat v) = unat v" by (simp add: take_bit_nat_eq_self_iff)
  then show ?thesis by (simp add: word_unat_eq_iff unsigned_ucast_eq unsigned_take_bit_eq)
qed

lemma parse_op:
  assumes "d < 32" "0 < n"
    and "parse_kad_search_expression_node tolow (d + 1) (n - 1) bs = Inr (l, n1, r1)"
    and "parse_kad_search_expression_node tolow (d + 1) n1 r1 = Inr (r, n2, r2)"
  shows "parse_kad_search_expression_node tolow d n (0x00 # 0x00 # bs) = Inr (SAnd l r, n2, r2)"
    and "parse_kad_search_expression_node tolow d n (0x00 # 0x01 # bs) = Inr (SOr l r, n2, r2)"
    and "parse_kad_search_expression_node tolow d n (0x00 # 0x02 # bs) = Inr (SNot l r, n2, r2)"
  using assms
  by (subst parse_kad_search_expression_node.simps, simp add: MAX_KAD_SEARCH_EXPR_DEPTH_def)+

lemma parse_leaf:
  assumes "d < 32" "0 < n" "\<forall>l r. e \<noteq> SAnd l r \<and> e \<noteq> SOr l r \<and> e \<noteq> SNot l r" "expr_ok e"
  shows "parse_kad_search_expression_node tolow d n (ser e @ rest) = Inr (e, n - 1, rest)"
  using assms
  by (cases e; subst parse_kad_search_expression_node.simps)
     (auto simp: MAX_KAD_SEARCH_EXPR_DEPTH_def read_search_string_ser read_tag_ref_ser ucast_small)

lemma parse_ser:
  "expr_ok e \<Longrightarrow> d + depth e \<le> 32 \<Longrightarrow> nodes e \<le> n \<Longrightarrow>
   parse_kad_search_expression_node tolow d n (ser e @ rest) = Inr (e, n - nodes e, rest)"
proof (induction e arbitrary: d n rest)
  case (SAnd l r)
  then show ?case
    using parse_op(1) [OF _ _ SAnd.IH(1) [of "d + 1" "n - 1" "ser r @ rest"]
        SAnd.IH(2) [of "d + 1" "n - 1 - nodes l" rest]]
    by simp
next
  case (SOr l r)
  then show ?case
    using parse_op(2) [OF _ _ SOr.IH(1) [of "d + 1" "n - 1" "ser r @ rest"]
        SOr.IH(2) [of "d + 1" "n - 1 - nodes l" rest]]
    by simp
next
  case (SNot l r)
  then show ?case
    using parse_op(3) [OF _ _ SNot.IH(1) [of "d + 1" "n - 1" "ser r @ rest"]
        SNot.IH(2) [of "d + 1" "n - 1 - nodes l" rest]]
    by simp
qed (use parse_leaf in \<open>simp_all del: ser.simps expr_ok.simps\<close>)

section \<open>Scanning what was serialised\<close>

lemma u16_at_le16: "u16_at (pre @ le16 w @ post) (length pre) = unat w"
proof -
  have d: "le16 w = [word_of_nat (unat w mod 256), word_of_nat (unat w div 256 mod 256)]"
    by (simp add: le16_def numeral_2_eq_2)
  have "unat w div 256 < 256" using unat_bounds(2) [of w] by (simp add: div_less_iff_less_mult)
  then show ?thesis unfolding u16_at_def d
    by (simp add: nth_append unat_of_nat_small)
qed

text \<open>Bytes of a serialised leaf fit their length prefixes.\<close>

fun scan_ok :: "kad_search_expr \<Rightarrow> bool" where
  "scan_ok (SAnd l r) = (scan_ok l \<and> scan_ok r)"
| "scan_ok (SOr l r) = (scan_ok l \<and> scan_ok r)"
| "scan_ok (SNot l r) = (scan_ok l \<and> scan_ok r)"
| "scan_ok (SString s) = (length s < 65536)"
| "scan_ok (SMetaString t v) = (length v < 65536 \<and> length (ref_bytes t) < 65536)"
| "scan_ok (SNumeric t op v) = (length (ref_bytes t) < 65536)"

lemma leaf_scan_string:
  assumes "length s < 65536"
  shows "leaf_or_operator (pre @ ser (SString s) @ post) (length pre) owed
    = Some (False, length pre + length (ser (SString s)), owed)"
  using u16_at_le16 [of "pre @ [0x01]" "word_of_nat (length s)" "s @ post"] assms
  by (simp add: leaf_or_operator_def nth_append unat_of_nat_small)

lemma u16_at_mid:
  "p = length pre \<Longrightarrow> n < 65536 \<Longrightarrow> u16_at (pre @ le16 (word_of_nat n) @ post) p = n"
  using u16_at_le16 [of pre "word_of_nat n" post] by (simp add: unat_of_nat_small)

lemma leaf_scan_meta:
  assumes "length v < 65536" "length (ref_bytes t) < 65536"
  shows "leaf_or_operator (pre @ ser (SMetaString t v) @ post) (length pre) owed
    = Some (False, length pre + length (ser (SMetaString t v)), owed)"
proof -
  let ?d = "pre @ ser (SMetaString t v) @ post"
  have a: "u16_at ?d (length pre + 1) = length v"
    using u16_at_mid [of "length pre + 1" "pre @ [0x02]" "length v"] assms by simp
  have b: "u16_at ?d (length pre + 1 + 2 + length v) = length (ref_bytes t)"
    using u16_at_mid [of "length pre + 1 + 2 + length v"
        "pre @ [0x02] @ le16 (word_of_nat (length v)) @ v" "length (ref_bytes t)"] assms
    by simp
  have c: "?d ! length pre = 0x02"
    "length ?d = length pre + 1 + 2 + length v + 2 + length (ref_bytes t) + length post"
    by (simp_all add: nth_append)
  show ?thesis
    unfolding leaf_or_operator_def Let_def c(1) a b c(2) by simp
qed

lemma leaf_scan_num:
  assumes "length (ref_bytes t) < 65536"
  shows "leaf_or_operator (pre @ ser (SNumeric t op v) @ post) (length pre) owed
    = Some (uses64 (SNumeric t op v), length pre + length (ser (SNumeric t op v)), owed)"
proof -
  let ?d = "pre @ ser (SNumeric t op v) @ post"
  show ?thesis
  proof (cases "0xFFFFFFFF < v")
    case True
    have b: "u16_at ?d (length pre + 1 + (8 + 1)) = length (ref_bytes t)"
      using True u16_at_mid [of "length pre + 1 + (8 + 1)"
          "pre @ [0x08] @ le64 v @ [num_op_byte op]" "length (ref_bytes t)"] assms
      by simp
    have c: "?d ! length pre = 0x08"
      "length ?d = length pre + 1 + (8 + 1) + 2 + length (ref_bytes t) + length post"
      using True by (simp_all add: nth_append)
    show ?thesis unfolding leaf_or_operator_def Let_def c(1)
      using b c(2) True by (simp add: add.assoc)
  next
    case False
    have b: "u16_at ?d (length pre + 1 + (4 + 1)) = length (ref_bytes t)"
      using False u16_at_mid [of "length pre + 1 + (4 + 1)"
          "pre @ [0x03] @ le32 (ucast v) @ [num_op_byte op]" "length (ref_bytes t)"] assms
      by simp
    have c: "?d ! length pre = 0x03"
      "length ?d = length pre + 1 + (4 + 1) + 2 + length (ref_bytes t) + length post"
      using False by (simp_all add: nth_append)
    show ?thesis unfolding leaf_or_operator_def Let_def c(1)
      using b c(2) False by (simp add: add.assoc)
  qed
qed

lemma leaf_scan_op:
  "leaf_or_operator (pre @ 0x00 # op # bs) (length pre) owed = Some (False, length pre + 2, owed + 2)"
  by (simp add: leaf_or_operator_def nth_append)

lemma scan_step:
  "leaf_or_operator d pos k = Some (b, pos', k') \<Longrightarrow>
   scan_loop d pos (Suc k) u = scan_loop d pos' k' (u \<or> b)"
  by (subst scan_loop.simps) simp

lemma scan_ser:
  "scan_ok e \<Longrightarrow> scan_loop (pre @ ser e @ post) (length pre) (Suc k) u
     = scan_loop (pre @ ser e @ post) (length pre + length (ser e)) k (u \<or> uses64 e)"
proof (induction e arbitrary: pre post k u)
  case (SAnd l r)
  then show ?case
    using scan_step [OF leaf_scan_op [of pre "0x00" "ser l @ ser r @ post" k], of u]
      SAnd.IH(1) [of "pre @ [0x00, 0x00]" "ser r @ post" "Suc k" u]
      SAnd.IH(2) [of "pre @ [0x00, 0x00] @ ser l" post k "u \<or> uses64 l"]
    by (simp add: numeral_2_eq_2 disj_assoc add.assoc)
next
  case (SOr l r)
  then show ?case
    using scan_step [OF leaf_scan_op [of pre "0x01" "ser l @ ser r @ post" k], of u]
      SOr.IH(1) [of "pre @ [0x00, 0x01]" "ser r @ post" "Suc k" u]
      SOr.IH(2) [of "pre @ [0x00, 0x01] @ ser l" post k "u \<or> uses64 l"]
    by (simp add: numeral_2_eq_2 disj_assoc add.assoc)
next
  case (SNot l r)
  then show ?case
    using scan_step [OF leaf_scan_op [of pre "0x02" "ser l @ ser r @ post" k], of u]
      SNot.IH(1) [of "pre @ [0x00, 0x02]" "ser r @ post" "Suc k" u]
      SNot.IH(2) [of "pre @ [0x00, 0x02] @ ser l" post k "u \<or> uses64 l"]
    by (simp add: numeral_2_eq_2 disj_assoc add.assoc)
next
  case (SString s)
  then show ?case using scan_step [OF leaf_scan_string] by (simp del: ser.simps)
next
  case (SMetaString t v)
  then show ?case using scan_step [OF leaf_scan_meta] by (simp del: ser.simps)
next
  case (SNumeric t op v)
  then show ?case using scan_step [OF leaf_scan_num] by (simp del: ser.simps)
qed

lemma uses_64bit_ser:
  assumes "scan_ok e"
  shows "search_expression_uses_64bit (ser e) = Some (uses64 e)"
  using scan_ser [OF assms, of "[]" "[]" 0 False]
  by (simp add: search_expression_uses_64bit_def scan_loop.simps [of _ _ 0])

lemma leaf_progress: "leaf_or_operator d pos k = Some (b, pos', k') \<Longrightarrow> pos < pos' \<and> pos < length d"
  by (auto simp: leaf_or_operator_def Let_def split: if_splits)

lemma scan_loop_returns: "\<exists>r. scan_loop d pos owed u = Some r"
proof (induction "length d - pos" arbitrary: pos owed u rule: less_induct)
  case less
  show ?case
  proof (cases "leaf_or_operator d pos (owed - 1)")
    case None
    then show ?thesis by (subst scan_loop.simps) simp
  next
    case (Some a)
    obtain b pos' k' where a: "a = (b, pos', k')" by (cases a)
    have "length d - pos' < length d - pos"
      using leaf_progress [of d pos "owed - 1" b pos' k'] Some a by auto
    from less.hyps [OF this] show ?thesis using Some a by (subst scan_loop.simps) simp
  qed
qed

end
