(* ===== verification/Search_Tree.thy ===== *)
theory Search_Tree
  imports Search_Wire
begin

text \<open>
  The tree a query is sent as. \<open>write_wire\<close> rebalances runs of more than eight operands;
  \<open>wire_tree\<close> is the tree it writes. Its size, its depth and its meaning are those of the
  query.
\<close>

unbundle bit_operations_syntax

section \<open>The tree a query is sent as\<close>

definition op_node :: "u8 \<Rightarrow> kad_search_expr \<Rightarrow> kad_search_expr \<Rightarrow> kad_search_expr" where
  "op_node op l r = (if op = 0x01 then SOr l r else SAnd l r)"

function wire_tree :: "query_expr \<Rightarrow> kad_search_expr"
  and balanced_tree :: "u8 \<Rightarrow> query_expr list \<Rightarrow> kad_search_expr" where
  "wire_tree q =
     (if is_run q \<and> MAX_WIRE_CHAIN < length (chain_operands q)
      then balanced_tree (op_code q) (chain_operands q)
      else case q of
             QTerm s \<Rightarrow> SString s
           | QAnd l r \<Rightarrow> SAnd (wire_tree l) (wire_tree r)
           | QOr l r \<Rightarrow> SOr (wire_tree l) (wire_tree r)
           | QNot l r \<Rightarrow> SNot (wire_tree l) (wire_tree r))"
| "balanced_tree op [] = SString []"
| "balanced_tree op [only] = wire_tree only"
| "balanced_tree op (x # y # zs) =
     (let mid = (length (x # y # zs) + 1) div 2
      in op_node op (balanced_tree op (take mid (x # y # zs)))
           (balanced_tree op (drop mid (x # y # zs))))"
  by pat_completeness auto
termination
proof (relation "measures [\<lambda>a. (case a of Inl q \<Rightarrow> qsize q | Inr (op, xs) \<Rightarrow> sum_list (map qsize xs)),
    \<lambda>a. (case a of Inl q \<Rightarrow> 0 | Inr _ \<Rightarrow> 1)]", goal_cases)
  case (2 q)
  then show ?case
    using run_operands_size_less [of q q] same_op_self by (simp add: chain_operands_run)
next
  case (10 op x y zs mid)
  then show ?case using sum_take_drop(1) [of qsize mid "x # y # zs"] by simp
next
  case (11 op x y zs mid)
  then show ?case using sum_take_drop(2) [of qsize mid "x # y # zs"] by simp
qed simp_all

declare wire_tree.simps [simp del]

fun all_terms :: "query_expr \<Rightarrow> bytes list" where
  "all_terms (QTerm s) = [s]"
| "all_terms (QAnd l r) = all_terms l @ all_terms r"
| "all_terms (QOr l r) = all_terms l @ all_terms r"
| "all_terms (QNot l r) = all_terms l @ all_terms r"

lemma all_terms_run: "concat (map all_terms (run_operands q x)) = all_terms x"
  by (induction q x rule: run_operands.induct) simp_all

lemma all_terms_operand: "x \<in> set (run_operands q y) \<Longrightarrow> set (all_terms x) \<subseteq> set (all_terms y)"
  unfolding all_terms_run [of q y, symmetric] by auto

lemma leaves_pos: "0 < length (all_terms q)"
  by (induction q) simp_all

lemma is_run_code: "is_run q \<Longrightarrow> op_code q \<noteq> 0x02"
  by (cases q) (simp_all add: is_run_def)

lemma operands_nonempty: "chain_operands q \<noteq> []"
  using all_terms_run [of q q] leaves_pos [of q] by (auto simp: chain_operands_run)

lemma write_term_short: "length s \<le> 65535 \<Longrightarrow> write_term s = ser (SString s)"
proof -
  assume a: "length s \<le> 65535"
  have "back_off s (length s) = length s" by (cases "length s") (simp_all add: is_char_boundary_def)
  then show ?thesis using a by (simp add: write_term_def min_def)
qed

lemma take_drop_mid:
  fixes x y :: 'a and zs :: "'a list"
  defines "xs \<equiv> x # y # zs" and "mid \<equiv> (length (x # y # zs) + 1) div 2"
  shows "take mid xs \<noteq> []" "drop mid xs \<noteq> []" "mid < length xs" "0 < mid"
    "2 * mid \<le> length xs + 1"
  by (auto simp: xs_def mid_def)

definition long_run :: "query_expr \<Rightarrow> bool" where
  "long_run q \<longleftrightarrow> is_run q \<and> MAX_WIRE_CHAIN < length (chain_operands q)"

lemma short_run:
  "\<not> long_run q \<Longrightarrow> write_wire q = (case q of QTerm s \<Rightarrow> write_term s
       | QAnd l r \<Rightarrow> [0x00, 0x00] @ write_wire l @ write_wire r
       | QOr l r \<Rightarrow> [0x00, 0x01] @ write_wire l @ write_wire r
       | QNot l r \<Rightarrow> [0x00, 0x02] @ write_wire l @ write_wire r)"
  "\<not> long_run q \<Longrightarrow> wire_tree q = (case q of QTerm s \<Rightarrow> SString s
       | QAnd l r \<Rightarrow> SAnd (wire_tree l) (wire_tree r)
       | QOr l r \<Rightarrow> SOr (wire_tree l) (wire_tree r)
       | QNot l r \<Rightarrow> SNot (wire_tree l) (wire_tree r))"
  using write_wire.simps [of q] wire_tree.simps [of q] by (simp_all only: long_run_def if_False)

lemma long_run_eq:
  "long_run q \<Longrightarrow> write_wire q = write_balanced (op_code q) (chain_operands q)"
  "long_run q \<Longrightarrow> wire_tree q = balanced_tree (op_code q) (chain_operands q)"
  using write_wire.simps [of q] wire_tree.simps [of q] by (simp_all only: long_run_def if_True simp_thms)

lemma write_wire_ser:
  "(\<forall>s \<in> set (all_terms q). length s \<le> 65535) \<Longrightarrow> write_wire q = ser (wire_tree q)"
  "xs \<noteq> [] \<Longrightarrow> op = 0 \<or> op = 1 \<Longrightarrow> (\<forall>x \<in> set xs. \<forall>s \<in> set (all_terms x). length s \<le> 65535) \<Longrightarrow>
   write_balanced op xs = ser (balanced_tree op xs)"
proof (induction q and op xs rule: wire_tree_balanced_tree.induct)
  case (1 q)
  show ?case
  proof (cases "long_run q")
    case True
    have "op_code q = 0 \<or> op_code q = 1"
      by (cases q) (use True in \<open>simp_all add: is_run_def long_run_def\<close>)
    moreover have "\<forall>x \<in> set (chain_operands q). \<forall>s \<in> set (all_terms x). length s \<le> 65535"
      using "1.prems" all_terms_operand [of _ q q] by (auto simp: chain_operands_run)
    ultimately have "write_balanced (op_code q) (chain_operands q)
        = ser (balanced_tree (op_code q) (chain_operands q))"
      using "1.IH"(1) True operands_nonempty unfolding long_run_def by blast
    then show ?thesis using True by (simp add: long_run_eq)
  next
    case False
    show ?thesis
      by (cases q) (use "1.IH" [unfolded long_run_def [symmetric]] "1.prems" False short_run [OF False] write_term_short in
          \<open>simp_all del: ser.simps(4)\<close>)
  qed
next
  case (4 op x y zs)
  let ?xs = "x # y # zs" and ?mid = "(length (x # y # zs) + 1) div 2"
  note m = take_drop_mid [where x = x and y = y and zs = zs]
  have a: "write_balanced op (take ?mid ?xs) = ser (balanced_tree op (take ?mid ?xs))"
    using "4.IH"(1) [OF refl m(1)] "4.prems"(2,3) in_set_takeD by fast
  have b: "write_balanced op (drop ?mid ?xs) = ser (balanced_tree op (drop ?mid ?xs))"
    using "4.IH"(2) [OF refl m(2)] "4.prems"(2,3) in_set_dropD by fast
  show ?case
    unfolding write_balanced.simps balanced_tree.simps Let_def a b op_node_def
    using "4.prems"(2) by auto
qed simp_all

lemma run_code: "long_run q \<Longrightarrow> op_code q = 0 \<or> op_code q = 1"
  by (cases q) (simp_all add: is_run_def long_run_def)

lemmas tree_induct = wire_tree_balanced_tree.induct [unfolded long_run_def [symmetric]]

lemma wire_tree_nodes:
  "Suc (nodes (wire_tree q)) = 2 * length (all_terms q)"
  "xs \<noteq> [] \<Longrightarrow> Suc (nodes (balanced_tree op xs)) = 2 * length (concat (map all_terms xs))"
proof (induction q and op xs rule: tree_induct)
  case (1 q)
  show ?case
  proof (cases "long_run q")
    case True
    then show ?thesis
      using "1.IH"(1) [OF True operands_nonempty] all_terms_run [of q q]
      by (simp add: long_run_eq chain_operands_run)
  next
    case False
    then show ?thesis using "1.IH" short_run(2) [OF False] by (cases q) auto
  qed
next
  case (4 op x y zs)
  let ?xs = "x # y # zs" and ?mid = "(length (x # y # zs) + 1) div 2"
  note m = take_drop_mid [where x = x and y = y and zs = zs]
  have "concat (map all_terms ?xs)
      = concat (map all_terms (take ?mid ?xs)) @ concat (map all_terms (drop ?mid ?xs))"
    by (metis append_take_drop_id concat_append map_append)
  then show ?case
    using "4.IH"(1) [OF refl m(1)] "4.IH"(2) [OF refl m(2)]
    unfolding balanced_tree.simps Let_def op_node_def by auto
qed simp_all

lemma wire_tree_ok:
  "(\<forall>s \<in> set (all_terms q). valid_utf8 s \<and> length s \<le> 1024) \<Longrightarrow>
   expr_ok (wire_tree q) \<and> \<not> uses64 (wire_tree q)"
  "xs \<noteq> [] \<Longrightarrow> (\<forall>x \<in> set xs. \<forall>s \<in> set (all_terms x). valid_utf8 s \<and> length s \<le> 1024) \<Longrightarrow>
   expr_ok (balanced_tree op xs) \<and> \<not> uses64 (balanced_tree op xs)"
proof (induction q and op xs rule: tree_induct)
  case (1 q)
  show ?case
  proof (cases "long_run q")
    case True
    have "\<forall>x \<in> set (chain_operands q). \<forall>s \<in> set (all_terms x). valid_utf8 s \<and> length s \<le> 1024"
      using "1.prems" all_terms_operand [of _ q q] by (auto simp: chain_operands_run)
    then show ?thesis
      using "1.IH"(1) [OF True operands_nonempty] True by (simp add: long_run_eq)
  next
    case False
    then show ?thesis using "1.IH" "1.prems" short_run(2) [OF False] by (cases q) auto
  qed
next
  case (4 op x y zs)
  let ?xs = "x # y # zs" and ?mid = "(length (x # y # zs) + 1) div 2"
  note m = take_drop_mid [where x = x and y = y and zs = zs]
  have "expr_ok (balanced_tree op (take ?mid ?xs)) \<and> \<not> uses64 (balanced_tree op (take ?mid ?xs))"
    using "4.IH"(1) [OF refl m(1)] "4.prems"(2) in_set_takeD by fast
  moreover have "expr_ok (balanced_tree op (drop ?mid ?xs)) \<and> \<not> uses64 (balanced_tree op (drop ?mid ?xs))"
    using "4.IH"(2) [OF refl m(2)] "4.prems"(2) in_set_dropD by fast
  ultimately show ?case unfolding balanced_tree.simps Let_def op_node_def by auto
qed simp_all

section \<open>What the receiver evaluates\<close>

text \<open>
  The query with the receiver's reading of exclusion: the excluded side is tested by
  substring, where \<open>query_matches\<close> requires a whole word.
\<close>

fun remote_matches :: "query_expr \<Rightarrow> bytes \<Rightarrow> bool" where
  "remote_matches (QTerm s) h = sublist s h"
| "remote_matches (QAnd l r) h = (remote_matches l h \<and> remote_matches r h)"
| "remote_matches (QOr l r) h = (remote_matches l h \<or> remote_matches r h)"
| "remote_matches (QNot l r) h = (remote_matches l h \<and> \<not> remote_matches r h)"

definition keyword_ok :: "(bytes \<Rightarrow> bytes) \<Rightarrow> bytes \<Rightarrow> bool" where
  "keyword_ok lower s \<longleftrightarrow> s \<noteq> [] \<and> valid_utf8 s \<and> length s \<le> 1024 \<and> lower s = s
     \<and> (\<forall>c \<in> set s. \<not> is_kad_keyword_separator c)"

lemma split_on_none: "\<forall>c \<in> set s. \<not> p c \<Longrightarrow> split_on p s = [s]"
  by (induction s) simp_all

lemma eval_keyword:
  "keyword_ok lower s \<Longrightarrow>
   matches_search_expr_impl lower tolow (SString s) h sz tags = sublist s h"
  by (simp add: keyword_ok_def split_on_none)

lemma remote_run:
  "remote_matches x h =
     (if op_code q = 1 then \<exists>y \<in> set (run_operands q x). remote_matches y h
      else \<forall>y \<in> set (run_operands q x). remote_matches y h)"
  by (induction q x rule: run_operands.induct) (auto elim: same_op.elims)

lemma op_node_eval:
  "matches_search_expr_impl lower tolow (op_node op l r) h sz tags =
     (if op = 1 then matches_search_expr_impl lower tolow l h sz tags
          \<or> matches_search_expr_impl lower tolow r h sz tags
      else matches_search_expr_impl lower tolow l h sz tags
          \<and> matches_search_expr_impl lower tolow r h sz tags)"
  by (simp add: op_node_def)

lemma wire_tree_eval:
  "(\<forall>s \<in> set (all_terms q). keyword_ok lower s) \<Longrightarrow>
   matches_search_expr_impl lower tolow (wire_tree q) h sz tags = remote_matches q h"
  "xs \<noteq> [] \<Longrightarrow> op = 0 \<or> op = 1 \<Longrightarrow> (\<forall>x \<in> set xs. \<forall>s \<in> set (all_terms x). keyword_ok lower s) \<Longrightarrow>
   matches_search_expr_impl lower tolow (balanced_tree op xs) h sz tags =
     (if op = 1 then \<exists>x \<in> set xs. remote_matches x h else \<forall>x \<in> set xs. remote_matches x h)"
proof (induction q and op xs rule: tree_induct)
  case (1 q)
  show ?case
  proof (cases "long_run q")
    case True
    have "\<forall>x \<in> set (chain_operands q). \<forall>s \<in> set (all_terms x). keyword_ok lower s"
      using "1.prems" all_terms_operand [of _ q q] by (auto simp: chain_operands_run)
    then show ?thesis
      using "1.IH"(1) [OF True operands_nonempty run_code [OF True]] True remote_run [of q h q]
      by (simp add: long_run_eq chain_operands_run)
  next
    case False
    then show ?thesis using "1.IH" "1.prems" short_run(2) [OF False] eval_keyword
      by (cases q) auto
  qed
next
  case (4 op x y zs)
  let ?xs = "x # y # zs" and ?mid = "(length (x # y # zs) + 1) div 2"
  let ?ev = "\<lambda>ys. if op = 1 then \<exists>x \<in> set ys. remote_matches x h else \<forall>x \<in> set ys. remote_matches x h"
  note m = take_drop_mid [where x = x and y = y and zs = zs]
  have a: "matches_search_expr_impl lower tolow (balanced_tree op (take ?mid ?xs)) h sz tags = ?ev (take ?mid ?xs)"
    using "4.IH"(1) [OF refl m(1) "4.prems"(2)] "4.prems"(3) in_set_takeD by fast
  have b: "matches_search_expr_impl lower tolow (balanced_tree op (drop ?mid ?xs)) h sz tags = ?ev (drop ?mid ?xs)"
    using "4.IH"(2) [OF refl m(2) "4.prems"(2)] "4.prems"(3) in_set_dropD by fast
  have u: "set ?xs = set (take ?mid ?xs) \<union> set (drop ?mid ?xs)"
    by (metis append_take_drop_id set_append)
  have "matches_search_expr_impl lower tolow (balanced_tree op ?xs) h sz tags
      = (if op = 1 then ?ev (take ?mid ?xs) \<or> ?ev (drop ?mid ?xs)
         else ?ev (take ?mid ?xs) \<and> ?ev (drop ?mid ?xs))"
    unfolding balanced_tree.simps Let_def op_node_eval a b ..
  also have "\<dots> = ?ev ?xs" unfolding u by auto
  finally show ?case .
qed simp_all

section \<open>How deep a query is nested on the wire\<close>

text \<open>Nested runs of operators: a run of one operator counts once. \<open>ctx\<close> is the enclosing run.\<close>

fun rd :: "nat \<Rightarrow> query_expr \<Rightarrow> nat" where
  "rd ctx (QTerm s) = 0"
| "rd ctx (QNot l r) = Suc (max (rd 0 l) (rd 0 r))"
| "rd ctx (QAnd l r) = (if ctx = 1 then 0 else 1) + max (rd 1 l) (rd 1 r)"
| "rd ctx (QOr l r) = (if ctx = 2 then 0 else 1) + max (rd 2 l) (rd 2 r)"

definition run_depth :: "query_expr \<Rightarrow> nat" where
  "run_depth q = rd 0 q"

definition op_ctx :: "query_expr \<Rightarrow> nat" where
  "op_ctx q = (case q of QAnd _ _ \<Rightarrow> 1 | QOr _ _ \<Rightarrow> 2 | _ \<Rightarrow> 0)"

lemma rd_run: "is_run q \<Longrightarrow> rd 0 q = Suc (rd (op_ctx q) q)"
  by (cases q) (simp_all add: is_run_def op_ctx_def)

lemma rd_other: "is_run q \<Longrightarrow> \<not> same_op q x \<Longrightarrow> rd (op_ctx q) x = rd 0 x"
  by (cases q; cases x) (simp_all add: is_run_def op_ctx_def)

lemma rd_operand:
  "is_run q \<Longrightarrow> y \<in> set (run_operands q x) \<Longrightarrow> rd 0 y \<le> rd (op_ctx q) x"
proof (induction q x arbitrary: rule: run_operands.induct)
  case (1 q l r)
  then show ?case by (cases "same_op q (QAnd l r)") (auto simp: rd_other elim!: same_op.elims, auto simp: op_ctx_def le_max_iff_disj)
next
  case (2 q l r)
  then show ?case by (cases "same_op q (QOr l r)") (auto simp: rd_other elim!: same_op.elims, auto simp: op_ctx_def le_max_iff_disj)
qed (simp_all add: rd_other)

lemma same_run:
  "same_op q x \<Longrightarrow> run_operands q y = run_operands x y \<and> op_ctx q = op_ctx x \<and> is_run x"
proof -
  assume a: "same_op q x"
  then have "run_operands q y = run_operands x y"
    by (induction x y rule: run_operands.induct) (auto elim!: same_op.elims)
  then show ?thesis using a by (auto elim!: same_op.elims simp: op_ctx_def is_run_def)
qed

lemma all_terms_nonempty: "all_terms q \<noteq> []"
  using leaves_pos [of q] by auto

lemma operands_leaves: "length (run_operands q x) \<le> length (all_terms x)"
  by (induction q x rule: run_operands.induct)
     (auto simp: Suc_le_eq leaves_pos add_mono all_terms_nonempty)

lemma balanced_depth:
  "xs \<noteq> [] \<Longrightarrow> (\<forall>x \<in> set xs. depth (wire_tree x) \<le> D) \<Longrightarrow> length xs \<le> 2 ^ k \<Longrightarrow>
   depth (balanced_tree op xs) \<le> D + k"
proof (induction "length xs" arbitrary: xs k rule: less_induct)
  case less
  consider x where "xs = [x]" | x y zs where "xs = x # y # zs"
    using less.prems(1) by (metis list.exhaust)
  then show ?case
  proof cases
    case 1
    then show ?thesis using less.prems by (simp add: trans_le_add1)
  next
    case (2 x y zs)
    let ?mid = "(length xs + 1) div 2"
    note m = take_drop_mid [where x = x and y = y and zs = zs, folded 2]
    have eq: "balanced_tree op xs =
        op_node op (balanced_tree op (take ?mid xs)) (balanced_tree op (drop ?mid xs))"
      unfolding 2 balanced_tree.simps Let_def ..
    obtain j where k: "k = Suc j" using less.prems(3) 2 by (cases k) auto
    have half: "length (take ?mid xs) \<le> 2 ^ j" "length (drop ?mid xs) \<le> 2 ^ j"
      using less.prems(3) unfolding k 2 by auto
    have shorter: "length (take ?mid xs) < length xs" "length (drop ?mid xs) < length xs"
      unfolding 2 by auto
    have "depth (balanced_tree op (take ?mid xs)) \<le> D + j"
      using less.hyps [OF shorter(1) m(1) _ half(1)] less.prems(2) in_set_takeD [of _ ?mid xs] 2
      by blast
    moreover have "depth (balanced_tree op (drop ?mid xs)) \<le> D + j"
      using less.hyps [OF shorter(2) m(2) _ half(2)] less.prems(2) in_set_dropD [of _ ?mid xs] 2
      by blast
    ultimately show ?thesis unfolding eq op_node_def k by auto
  qed
qed

lemma child_depth:
  assumes "is_run q" "length (run_operands q c) \<le> 8"
    and IH: "depth (wire_tree c) \<le> 1 + 7 * rd 0 c"
      "is_run c \<and> \<not> long_run c \<Longrightarrow> depth (wire_tree c) \<le> length (run_operands c c) + 7 * (rd 0 c - 1)"
  shows "depth (wire_tree c) \<le> length (run_operands q c) + 7 * rd (op_ctx q) c"
proof (cases "same_op q c")
  case True
  note r = same_run [OF True, of c]
  have "\<not> long_run c" using assms(2) r by (simp add: long_run_def MAX_WIRE_CHAIN_def chain_operands_run)
  then have "depth (wire_tree c) \<le> length (run_operands q c) + 7 * (rd 0 c - 1)"
    using IH(2) r by simp
  then show ?thesis using rd_run [of c] r by simp
next
  case False
  then have "run_operands q c = [c]" by (simp add: run_operands_eq)
  then show ?thesis using IH(1) rd_other [OF assms(1) False] by simp
qed

lemma short_run_depth:
  assumes "is_run q" "\<not> long_run q" "q = QAnd l r \<or> q = QOr l r"
    and "depth (wire_tree l) \<le> length (run_operands q l) + 7 * rd (op_ctx q) l"
      "depth (wire_tree r) \<le> length (run_operands q r) + 7 * rd (op_ctx q) r"
  shows "depth (wire_tree q) \<le> length (run_operands q q) + 7 * (rd 0 q - 1)"
proof -
  have pos: "0 < length (run_operands q x)" for x
    using all_terms_run [of q x] all_terms_nonempty [of x] by fastforce
  have len: "length (run_operands q q) = length (run_operands q l) + length (run_operands q r)"
    using assms(3) by auto
  have d: "depth (wire_tree q) = Suc (max (depth (wire_tree l)) (depth (wire_tree r)))"
    using short_run(2) [OF assms(2)] assms(3) by auto
  have x: "rd 0 q - 1 = max (rd (op_ctx q) l) (rd (op_ctx q) r)"
    using assms(3) by (auto simp: op_ctx_def)
  have "7 * rd (op_ctx q) l \<le> 7 * (rd 0 q - 1)" "7 * rd (op_ctx q) r \<le> 7 * (rd 0 q - 1)"
    unfolding x by simp_all
  then show ?thesis unfolding d len using assms(4,5) pos [of l] pos [of r] by linarith
qed

lemma long_run_depth:
  assumes "long_run q" "length (all_terms q) \<le> 128"
    and IH: "\<And>x. qsize x < qsize q \<Longrightarrow> length (all_terms x) \<le> 128 \<Longrightarrow>
      depth (wire_tree x) \<le> 1 + 7 * rd 0 x"
  shows "depth (wire_tree q) \<le> 1 + 7 * rd 0 q"
proof -
  have run: "is_run q" using assms(1) by (simp add: long_run_def)
  let ?D = "1 + 7 * (rd 0 q - 1)"
  have "depth (wire_tree x) \<le> ?D" if x: "x \<in> set (run_operands q q)" for x
  proof -
    have "qsize x \<le> sum_list (map qsize (run_operands q q))" using x by (simp add: member_le_sum_list)
    then have sz: "qsize x < qsize q" using run_operands_size_less [OF same_op_self [OF run]] by simp
    have "length (all_terms x) \<le> length (concat (map all_terms (run_operands q q)))"
      using x by (simp add: length_concat member_le_sum_list)
    then have "length (all_terms x) \<le> 128" using assms(2) all_terms_run [of q q] by simp
    then have "depth (wire_tree x) \<le> 1 + 7 * rd 0 x" using IH [OF sz] by blast
    then show ?thesis using rd_operand [OF run x] rd_run [OF run] by simp
  qed
  moreover have "length (run_operands q q) \<le> 2 ^ 7"
    using operands_leaves [of q q] assms(2) by simp
  ultimately have "depth (balanced_tree (op_code q) (run_operands q q)) \<le> ?D + 7"
    using balanced_depth [of "run_operands q q" ?D 7 "op_code q"] operands_nonempty [of q]
    unfolding chain_operands_run by blast
  then show ?thesis using rd_run [OF run] assms(1) by (simp add: long_run_eq chain_operands_run)
qed

lemma wire_tree_depth:
  "length (all_terms q) \<le> 128 \<Longrightarrow> depth (wire_tree q) \<le> 1 + 7 * rd 0 q \<and>
     (is_run q \<and> \<not> long_run q \<longrightarrow> depth (wire_tree q) \<le> length (run_operands q q) + 7 * (rd 0 q - 1))"
proof (induction "qsize q" arbitrary: q rule: less_induct)
  case less
  show ?case
  proof (cases "is_run q")
    case False
    then show ?thesis
    proof (cases q)
      case (QNot l r)
      have "\<not> long_run q" using False by (simp add: long_run_def)
      then show ?thesis using short_run(2) [of q] less.hyps [of l] less.hyps [of r] less.prems False QNot
        by auto
    qed (use short_run(2) [of q] in \<open>simp_all add: long_run_def is_run_def\<close>)
  next
    case run: True
    show ?thesis
    proof (cases "long_run q")
      case True
      have "depth (wire_tree q) \<le> 1 + 7 * rd 0 q"
        using long_run_depth [OF True less.prems] less.hyps by blast
      then show ?thesis using True by simp
    next
      case False
      then have short: "length (run_operands q q) \<le> 8"
        using run by (simp add: long_run_def MAX_WIRE_CHAIN_def chain_operands_run)
      obtain l r where lr: "q = QAnd l r \<or> q = QOr l r" using run by (cases q) (auto simp: is_run_def)
      have kid: "depth (wire_tree c) \<le> length (run_operands q c) + 7 * rd (op_ctx q) c"
        if "c = l \<or> c = r" for c
      proof (rule child_depth [OF run])
        show "length (run_operands q c) \<le> 8" using short lr that by auto
        have "qsize c < qsize q" "length (all_terms c) \<le> 128" using lr that less.prems by auto
        from less.hyps [OF this]
        show "depth (wire_tree c) \<le> 1 + 7 * rd 0 c"
          "is_run c \<and> \<not> long_run c \<Longrightarrow> depth (wire_tree c) \<le> length (run_operands c c) + 7 * (rd 0 c - 1)"
          by blast+
      qed
      have "depth (wire_tree q) \<le> length (run_operands q q) + 7 * (rd 0 q - 1)"
        using short_run_depth [OF run False lr] kid by blast
      then show ?thesis using short rd_run [OF run] by simp
    qed
  qed
qed

end
