(* ===== verification/Search_Props.thy ===== *)
theory Search_Props
  imports Search_Tree
begin

text \<open>
  Constraints joined to a query, the two readings of exclusion, and the properties of
  search expressions.
\<close>

unbundle bit_operations_syntax

section \<open>Constraints\<close>

definition wire_extension :: "bytes \<Rightarrow> bytes" where
  "wire_extension e = dropWhile (\<lambda>b. b = 0x2E) (trim_str e)"

definition constraint_exprs :: "search_constraints \<Rightarrow> kad_search_expr list" where
  "constraint_exprs c =
     (case file_type c of
        Some ft \<Rightarrow> if ft \<noteq> [] then [SMetaString (TagId TAG_FILETYPE) ft] else [] | None \<Rightarrow> [])
     @ (case file_extension c of
          Some e \<Rightarrow> if wire_extension e \<noteq> []
                    then [SMetaString (TagId FT_FILEFORMAT) (wire_extension e)] else []
        | None \<Rightarrow> [])
     @ (case min_size c of
          Some v \<Rightarrow> if 0 < v then [SNumeric (TagId TAG_FILESIZE) NumGe v] else [] | None \<Rightarrow> [])
     @ (case max_size c of
          Some v \<Rightarrow> if 0 < v then [SNumeric (TagId TAG_FILESIZE) NumLe v] else [] | None \<Rightarrow> [])
     @ (case min_availability c of
          Some v \<Rightarrow> if 0 < v then [SNumeric (TagId TAG_SOURCES) NumGe (ucast v)] else [] | None \<Rightarrow> [])"

definition constraints_ok :: "search_constraints \<Rightarrow> bool" where
  "constraints_ok c \<longleftrightarrow>
     (\<forall>ft. file_type c = Some ft \<longrightarrow> valid_utf8 ft \<and> length ft \<le> 1024)
     \<and> (\<forall>e. file_extension c = Some e \<longrightarrow>
          valid_utf8 (wire_extension e) \<and> length (wire_extension e) \<le> 1024)"

text \<open>What the constraints demand of an entry, read off its tags.\<close>

definition constraints_hold :: "(bytes \<Rightarrow> bytes) \<Rightarrow> search_constraints \<Rightarrow> kad_tag list \<Rightarrow> bool" where
  "constraints_hold lower c tags \<longleftrightarrow>
     (\<forall>ft. file_type c = Some ft \<and> ft \<noteq> [] \<longrightarrow>
        (\<exists>t v. find (\<lambda>t. tname t = Id TAG_FILETYPE) tags = Some t \<and> string_value t = Some v
           \<and> sublist (lower ft) (lower v)))
     \<and> (\<forall>e. file_extension c = Some e \<and> wire_extension e \<noteq> [] \<longrightarrow>
          (\<exists>x. extension_of (entry_name lower tags) = Some x \<and> x \<noteq> []
             \<and> x = dropWhile (\<lambda>b. b = 0x2E) (lower (wire_extension e))))
     \<and> (\<forall>v. min_size c = Some v \<longrightarrow> v \<le> entry_size tags)
     \<and> (\<forall>v. max_size c = Some v \<and> 0 < v \<longrightarrow> entry_size tags \<le> v)
     \<and> (\<forall>v. min_availability c = Some v \<and> 0 < v \<longrightarrow>
          (\<exists>t a. find (\<lambda>t. tname t = Id TAG_SOURCES) tags = Some t \<and> entry_uint t = Some a
             \<and> ucast v \<le> a))"

fun and_tree :: "kad_search_expr list \<Rightarrow> kad_search_expr" where
  "and_tree [] = SString []"
| "and_tree [e] = e"
| "and_tree (e # f # es) = SAnd e (and_tree (f # es))"

lemma ser_constraints: "map ser (constraint_exprs c) = constraint_nodes c"
  by (auto simp: constraint_exprs_def constraint_nodes_def write_meta_string_def
      write_numeric_leaf_def wire_extension_def Let_def search_consts split: option.splits)

lemma ser_and_tree: "es \<noteq> [] \<Longrightarrow> and_chain (map ser es) = ser (and_tree es)"
  by (induction es rule: and_tree.induct) simp_all

lemma and_tree_facts:
  "es \<noteq> [] \<Longrightarrow> Suc (nodes (and_tree es)) = sum_list (map nodes es) + length es"
  "es \<noteq> [] \<Longrightarrow> \<forall>e \<in> set es. depth e \<le> D \<Longrightarrow> depth (and_tree es) < D + length es"
  "es \<noteq> [] \<Longrightarrow> expr_ok (and_tree es) = (\<forall>e \<in> set es. expr_ok e)"
  "es \<noteq> [] \<Longrightarrow> uses64 (and_tree es) = (\<exists>e \<in> set es. uses64 e)"
  "es \<noteq> [] \<Longrightarrow> matches_search_expr_impl lower tolow (and_tree es) h sz tags
     = (\<forall>e \<in> set es. matches_search_expr_impl lower tolow e h sz tags)"
  by (induction es rule: and_tree.induct) auto

lemma expr_ok_scan: "expr_ok e \<Longrightarrow> scan_ok e"
  by (induction e) auto

lemma ucast_u32_small: "\<not> 0xFFFFFFFF < (ucast (v :: u32) :: u64)"
proof -
  have "unat (ucast v :: u64) \<le> unat v" by (rule unat_ucast_le)
  then show ?thesis using unat_bounds(3) [of v] by (simp add: word_less_nat_alt)
qed

lemma constraint_facts:
  "constraints_ok c \<Longrightarrow> e \<in> set (constraint_exprs c) \<Longrightarrow> expr_ok e"
  "e \<in> set (constraint_exprs c) \<Longrightarrow> nodes e = 1 \<and> depth e = 1"
  "length (constraint_exprs c) \<le> 5"
  by (auto simp: constraint_exprs_def constraints_ok_def split: option.splits if_splits)

lemma constraint_uses64:
  "(\<exists>e \<in> set (constraint_exprs c). uses64 e) \<longleftrightarrow>
     (\<exists>v. (min_size c = Some v \<or> max_size c = Some v) \<and> 0xFFFFFFFF < v)"
proof -
  have "0 < v" if "0xFFFFFFFF < v" for v :: u64 using that by (simp add: word_less_nat_alt)
  then show ?thesis
    by (cases "min_size c"; cases "max_size c")
       (auto simp: constraint_exprs_def ucast_u32_small split: option.splits if_splits)
qed

lemma tag_id_matches: "tag_name_matches tolow (TagId i) n \<longleftrightarrow> n = Id i"
  by (cases n) auto

lemma conj_cong5:
  "a = a' \<Longrightarrow> b = b' \<Longrightarrow> c = c' \<Longrightarrow> d = d' \<Longrightarrow> e = e' \<Longrightarrow>
   (a \<and> b \<and> c \<and> d \<and> e) = (a' \<and> b' \<and> c' \<and> d' \<and> e')"
  by simp

lemma constraint_eval:
  "(\<forall>e \<in> set (constraint_exprs c).
      matches_search_expr_impl lower tolow e (entry_name lower tags) (entry_size tags) (Some tags))
   \<longleftrightarrow> constraints_hold lower c tags"
  unfolding constraint_exprs_def constraints_hold_def set_append ball_Un
proof (rule conj_cong5, goal_cases)
  case 1
  show ?case
    by (cases "file_type c")
       (auto simp: tag_id_matches search_consts Let_def split: option.splits)
next
  case 2
  show ?case
    by (cases "file_extension c") (auto simp: search_consts Let_def split: option.splits)
next
  case 3
  show ?case
    by (cases "min_size c") (auto simp: search_consts word_gt_0)
next
  case 4
  show ?case
    by (cases "max_size c") (auto simp: search_consts)
next
  case 5
  show ?case
    by (cases "min_availability c")
       (auto simp: tag_id_matches search_consts Let_def split: option.splits)
qed

lemma ser_nonempty: "ser e \<noteq> []"
  by (cases e) auto

lemma built_tree:
  assumes "\<forall>s \<in> set (all_terms q). length s \<le> 65535"
  shows "build_search_expression_with_node (Some (to_wire_bytes q)) c
    = ser (and_tree (wire_tree q # constraint_exprs c))"
proof -
  have w: "to_wire_bytes q = ser (wire_tree q)"
    using write_wire_ser(1) [OF assms] by (simp add: to_wire_bytes_def)
  then show ?thesis
    using ser_and_tree [of "wire_tree q # constraint_exprs c"]
    by (simp add: build_search_expression_with_node_def ser_nonempty ser_constraints Let_def)
qed

lemma parse_ser_whole:
  assumes "expr_ok e" "depth e \<le> 32" "nodes e \<le> 256" "length (ser e) \<le> 16384"
  shows "parse_kad_search_expression tolow (ser e) = Some e"
  using parse_ser [OF assms(1), of 0 256 tolow "[]"] assms(2-4)
  by (simp add: parse_kad_search_expression_def ser_nonempty)

lemma built_expression_parsed:
  assumes "\<forall>s \<in> set (all_terms q). keyword_ok lower s" "constraints_ok c"
    and "length (all_terms q) \<le> 120" "run_depth q \<le> 3"
    and "length (build_search_expression_with_node (Some (to_wire_bytes q)) c) \<le> 16384"
  shows "\<exists>e. parse_kad_search_expression tolow
        (build_search_expression_with_node (Some (to_wire_bytes q)) c) = Some e
    \<and> (\<forall>tags. matches_search_expr_for_tags lower tolow e tags \<longleftrightarrow>
        remote_matches q (entry_name lower tags) \<and> constraints_hold lower c tags)"
proof -
  let ?es = "wire_tree q # constraint_exprs c"
  have b: "build_search_expression_with_node (Some (to_wire_bytes q)) c = ser (and_tree ?es)"
    by (rule built_tree) (use assms(1) in \<open>force simp: keyword_ok_def\<close>)
  have ok: "expr_ok (wire_tree q)"
    using wire_tree_ok(1) [of q] assms(1) by (simp add: keyword_ok_def)
  have d: "depth (wire_tree q) \<le> 22"
    using wire_tree_depth [of q] assms(3,4) by (simp add: run_depth_def)
  have n: "nodes (wire_tree q) < 240" using wire_tree_nodes(1) [of q] assms(3) by simp
  have "expr_ok (and_tree ?es)"
    using and_tree_facts(3) [of ?es] ok constraint_facts(1) [OF assms(2)] by simp
  moreover have "\<forall>e \<in> set ?es. depth e \<le> 22" using d constraint_facts(2) by fastforce
  then have "depth (and_tree ?es) \<le> 32"
    using and_tree_facts(2) [of ?es 22] constraint_facts(3) [of c] by simp
  moreover have "map nodes (constraint_exprs c) = replicate (length (constraint_exprs c)) 1"
    using constraint_facts(2) by (simp add: map_replicate_const [symmetric] cong: map_cong)
  then have "nodes (and_tree ?es) \<le> 256"
    using and_tree_facts(1) [of ?es] n constraint_facts(3) [of c] by (simp add: sum_list_replicate)
  ultimately have "parse_kad_search_expression tolow (ser (and_tree ?es)) = Some (and_tree ?es)"
    using assms(5) unfolding b by (rule parse_ser_whole)
  moreover have "matches_search_expr_for_tags lower tolow (and_tree ?es) tags \<longleftrightarrow>
      remote_matches q (entry_name lower tags) \<and> constraints_hold lower c tags" for tags
    using and_tree_facts(5) [of ?es] wire_tree_eval(1) [OF assms(1)] constraint_eval [of c lower tolow tags]
    by (simp add: matches_search_expr_for_tags_def)
  ultimately show ?thesis unfolding b by blast
qed

section \<open>Local and remote reading\<close>

lemma split_on_head: "\<exists>w ws. split_on p h = w # ws \<and> prefix w h"
  by (induction h) (auto split: list.splits)

lemma split_piece_sublist: "w \<in> set (split_on p h) \<Longrightarrow> sublist w h"
proof (induction h arbitrary: w)
  case (Cons c h)
  obtain w0 ws where s: "split_on p h = w0 # ws" "prefix w0 h" using split_on_head by blast
  then have "w = [] \<or> w = c # w0 \<or> w \<in> set (split_on p h)"
    using Cons.prems by (auto split: if_splits)
  then show ?case using Cons.IH [of w] s by (auto simp: sublist_Cons_right)
qed simp

text \<open>Exclusions that exclude no further exclusion.\<close>

fun plain_exclusions :: "query_expr \<Rightarrow> bool" where
  "plain_exclusions (QTerm s) = True"
| "plain_exclusions (QAnd l r) = (plain_exclusions l \<and> plain_exclusions r)"
| "plain_exclusions (QOr l r) = (plain_exclusions l \<and> plain_exclusions r)"
| "plain_exclusions (QNot l r) = (plain_exclusions l \<and> \<not> contains_not r)"

lemma remote_plain: "\<not> contains_not q \<Longrightarrow> remote_matches q h = query_matches q h"
  by (induction q) auto

lemma whole_word_remote: "\<not> contains_not q \<Longrightarrow> matches_whole_words q h \<Longrightarrow> remote_matches q h"
  by (induction q) (auto dest: split_piece_sublist)

lemma remote_implies_local:
  "plain_exclusions q \<Longrightarrow> remote_matches q h \<Longrightarrow> query_matches q h"
  by (induction q) (auto dest: whole_word_remote)

lemma push_new_set: "set (push_new out ts) = set out \<union> set ts"
  by (induction out ts rule: push_new.induct) auto

lemma required_terms_present:
  "query_matches q h \<Longrightarrow> t \<in> set (required_terms q) \<Longrightarrow> sublist t h"
  by (induction q) (auto simp: push_new_set Let_def)

lemma without_term_eval:
  "\<not> contains_or q \<Longrightarrow> \<not> contains_not q \<Longrightarrow> sublist k h \<Longrightarrow>
   query_matches q h = (case without_term q k of None \<Rightarrow> True | Some q' \<Rightarrow> query_matches q' h)"
  by (induction q) (auto split: option.splits)

lemma without_term_gone:
  "\<not> contains_or q \<Longrightarrow> \<not> contains_not q \<Longrightarrow> without_term q k = Some q' \<Longrightarrow> k \<notin> set (all_terms q')"
  by (induction q arbitrary: q') (auto split: option.splits if_splits)

section \<open>Properties of search expressions\<close>


definition sample_query_expr :: query_expr where
  "sample_query_expr = QNot (QAnd (QTerm (ascii ''linux'')) (QTerm (ascii ''mint''))) (QTerm (ascii ''arm''))"

definition sample_constraints :: search_constraints where
  "sample_constraints = \<lparr>file_type = None, file_extension = None, min_size = Some 5000000000,
     max_size = None, min_availability = None\<rparr>"

lemma sample_terms: "all_terms sample_query_expr = [ascii ''linux'', ascii ''mint'', ascii ''arm'']"
  by (simp add: sample_query_expr_def)

lemma ascii_samples:
  "ascii ''linux'' = [108, 105, 110, 117, 120]" "ascii ''mint'' = [109, 105, 110, 116]"
  "ascii ''arm'' = [97, 114, 109]"
  by (simp_all add: ascii_def)

lemma sample_keywords: "\<forall>s \<in> set (all_terms sample_query_expr). keyword_ok (\<lambda>s. s) s"
  by (simp add: sample_terms ascii_samples keyword_ok_def valid_utf8_ascii is_kad_keyword_separator_def)

lemma sample_built:
  "build_search_expression_with_node (Some (to_wire_bytes sample_query_expr)) sample_constraints
     = ser (and_tree (wire_tree sample_query_expr # constraint_exprs sample_constraints))"
  by (rule built_tree) (simp add: sample_terms ascii_samples)

lemma sample_tree:
  "wire_tree sample_query_expr =
     SNot (SAnd (SString (ascii ''linux'')) (SString (ascii ''mint''))) (SString (ascii ''arm''))"
  by (simp add: sample_query_expr_def wire_tree.simps is_run_def chain_operands_run
      MAX_WIRE_CHAIN_def)


text \<open>
  C13: the scan for 64-bit terms ends on every input. The loop is modelled as one that may
  run forever; it returns for any bytes, any position and any number of operands owed.
\<close>

theorem scan_terminates:
  "(\<exists>r. scan_loop d pos owed u = Some r) \<and> search_expression_uses_64bit d \<noteq> None"
  using scan_loop_returns [of d pos owed u] scan_loop_returns [of d 0 1 False]
  by (auto simp: search_expression_uses_64bit_def)

text \<open>
  C14: the scan is exact for what the client builds. For a query of any length and nesting
  and any constraints it answers that 64-bit support is needed exactly when a size limit
  exceeds 32 bits.
\<close>

theorem scan_exact:
  assumes "\<forall>s \<in> set (all_terms q). valid_utf8 s \<and> length s \<le> 1024" "constraints_ok c"
  shows "search_expression_uses_64bit (build_search_expression_with_node (Some (to_wire_bytes q)) c)
    = Some (\<exists>v. (min_size c = Some v \<or> max_size c = Some v) \<and> 0xFFFFFFFF < v)"
proof -
  let ?es = "wire_tree q # constraint_exprs c"
  have b: "build_search_expression_with_node (Some (to_wire_bytes q)) c = ser (and_tree ?es)"
    by (rule built_tree) (use assms(1) in force)
  have "expr_ok (and_tree ?es)"
    using and_tree_facts(3) [of ?es] wire_tree_ok(1) [OF assms(1)] constraint_facts(1) [OF assms(2)]
    by simp
  moreover have "uses64 (and_tree ?es) \<longleftrightarrow>
      (\<exists>v. (min_size c = Some v \<or> max_size c = Some v) \<and> 0xFFFFFFFF < v)"
    using and_tree_facts(4) [of ?es] wire_tree_ok(1) [OF assms(1)] constraint_uses64 [of c] by simp
  ultimately show ?thesis unfolding b by (simp add: uses_64bit_ser expr_ok_scan)
qed

theorem scan_exact_witness:
  "search_expression_uses_64bit
     (build_search_expression_with_node (Some (to_wire_bytes sample_query_expr)) sample_constraints)
   = Some True"
proof -
  have "\<forall>s \<in> set (all_terms sample_query_expr). valid_utf8 s \<and> length s \<le> 1024"
    "constraints_ok sample_constraints"
    by (simp_all add: sample_terms ascii_samples valid_utf8_ascii constraints_ok_def
        sample_constraints_def)
  from scan_exact [OF this] show ?thesis by (simp add: sample_constraints_def)
qed

text \<open>
  C15: the lookup keyword loses no result. Every name a query matches contains every
  required term, so a DHT lookup on one of them covers all matches; and stripping the lookup
  keyword from a conjunctive query keeps its meaning on the names that contain the keyword,
  and the keyword no longer occurs.
\<close>

theorem lookup_keyword_sound:
  "(query_matches q h \<longrightarrow> (\<forall>t \<in> set (required_terms q). sublist t h))
   \<and> (\<not> contains_or q \<and> \<not> contains_not q \<longrightarrow>
        (sublist k h \<longrightarrow> query_matches q h =
          (case without_term q k of None \<Rightarrow> True | Some q' \<Rightarrow> query_matches q' h))
        \<and> (\<forall>q'. without_term q k = Some q' \<longrightarrow> k \<notin> set (all_terms q')))"
  using required_terms_present without_term_eval without_term_gone by blast

theorem lookup_keyword_sound_witness:
  "query_matches sample_query_expr (ascii ''linux-mint'')
   \<and> required_terms sample_query_expr = [ascii ''linux'', ascii ''mint'']
   \<and> sublist (ascii ''linux'') (ascii ''linux-mint'') \<and> sublist (ascii ''mint'') (ascii ''linux-mint'')"
proof -
  have "query_matches sample_query_expr (ascii ''linux-mint'')"
    by (simp add: sample_query_expr_def ascii_def is_kad_keyword_separator_def sublist_Cons_right)
  moreover have "required_terms sample_query_expr = [ascii ''linux'', ascii ''mint'']"
    by (simp add: sample_query_expr_def ascii_samples)
  ultimately show ?thesis
    using lookup_keyword_sound [of sample_query_expr "ascii ''linux-mint''"] by auto
qed

end
