(* ===== verification/Query_Text.thy ===== *)
theory Query_Text
  imports Search_Expr
begin

text \<open>
  The text of a search query: the keyword splitter of \<^verbatim>\<open>src-tauri/src/network/kad/publish.rs\<close> and
  the server directives, lexer and boolean parser of \<^verbatim>\<open>src-tauri/src/search/query.rs\<close>. A string
  is its UTF-8 bytes; a character is looked at where its first byte stands, so white space is
  recognised by the encodings of its characters. Lower-casing is a parameter.
\<close>

section \<open>Characters and pieces of a string\<close>

definition ws_len :: "bytes \<Rightarrow> nat" where
  "ws_len s = (case find (\<lambda>w. prefix w s) whitespace_encodings of None \<Rightarrow> 0 | Some w \<Rightarrow> length w)"

definition starts_ws :: "bytes \<Rightarrow> bool" where
  "starts_ws s \<longleftrightarrow> 0 < ws_len s"

fun span_until :: "(bytes \<Rightarrow> bool) \<Rightarrow> bytes \<Rightarrow> bytes \<times> bytes" where
  "span_until stop [] = ([], [])"
| "span_until stop (c # cs) =
     (if stop (c # cs) then ([], c # cs)
      else let (w, r) = span_until stop cs in (c # w, r))"

lemma span_until_length: "length (snd (span_until stop s)) \<le> length s"
  by (induction s) (auto simp: Let_def split: prod.splits)

lemma span_until_shorter: "s \<noteq> [] \<Longrightarrow> \<not> stop s \<Longrightarrow> length (snd (span_until stop s)) < length s"
  using span_until_length [of stop "tl s"] by (cases s) (auto simp: Let_def split: prod.splits)

text \<open>\<^verbatim>\<open>str::split_whitespace\<close>, \<^verbatim>\<open>str::split_once\<close> and \<^verbatim>\<open>[String]::join\<close>\<close>

function split_whitespace :: "bytes \<Rightarrow> bytes list" where
  "split_whitespace s =
     (if s = [] then []
      else if starts_ws s then split_whitespace (drop (ws_len s) s)
      else let (w, r) = span_until starts_ws s in w # split_whitespace r)"
  by pat_completeness auto
termination
proof (relation "measure length")
  show "(r, s) \<in> measure length"
    if "s \<noteq> []" "\<not> starts_ws s" "x = span_until starts_ws s" "(w, r) = x" for s w r x
    using span_until_shorter [of s starts_ws] that by (metis in_measure snd_conv)
qed (auto simp: starts_ws_def)

fun split_once :: "u8 \<Rightarrow> bytes \<Rightarrow> (bytes \<times> bytes) option" where
  "split_once sep [] = None"
| "split_once sep (c # cs) =
     (if c = sep then Some ([], cs)
      else case split_once sep cs of None \<Rightarrow> None | Some (w, r) \<Rightarrow> Some (c # w, r))"

fun join :: "bytes \<Rightarrow> bytes list \<Rightarrow> bytes" where
  "join sep [] = []"
| "join sep [w] = w"
| "join sep (w # v # ws) = w @ sep @ join sep (v # ws)"

definition ascii_lower :: "u8 \<Rightarrow> u8" where
  "ascii_lower c = (if 0x41 \<le> c \<and> c \<le> 0x5A then c + 0x20 else c)"

definition ascii_upper :: "u8 \<Rightarrow> u8" where
  "ascii_upper c = (if 0x61 \<le> c \<and> c \<le> 0x7A then c - 0x20 else c)"

definition is_ascii_digit :: "u8 \<Rightarrow> bool" where
  "is_ascii_digit c \<longleftrightarrow> 0x30 \<le> c \<and> c \<le> 0x39"

definition is_ascii_hexdigit :: "u8 \<Rightarrow> bool" where
  "is_ascii_hexdigit c \<longleftrightarrow> is_ascii_digit c \<or> 0x41 \<le> c \<and> c \<le> 0x46 \<or> 0x61 \<le> c \<and> c \<le> 0x66"

section \<open>Keywords\<close>

text \<open>\<^verbatim>\<open>tokenize_keywords\<close> of \<^verbatim>\<open>network/kad/publish.rs\<close>; a repeated word moves to the end.\<close>

definition keep_word :: "(bytes \<Rightarrow> bytes) \<Rightarrow> bytes list \<Rightarrow> bytes \<Rightarrow> bytes list" where
  "keep_word lower result word =
     (if length word < 3 then result
      else filter (\<lambda>w. w \<noteq> lower word) result @ [lower word])"

definition tokenize_keywords :: "(bytes \<Rightarrow> bytes) \<Rightarrow> bytes \<Rightarrow> bool \<Rightarrow> bytes list" where
  "tokenize_keywords lower text strip_trailing_extension =
     (let words = split_on is_kad_keyword_separator text;
          result = foldl (keep_word lower) [] words;
          last_chars = length (filter (\<lambda>c. \<not> is_cont c) (last words));
          last_bytes = length (last words)
      in if strip_trailing_extension \<and> 1 < length result \<and> last_chars = 3 \<and> last_bytes = 3
         then butlast result else result)"

definition extract_keywords :: "(bytes \<Rightarrow> bytes) \<Rightarrow> bytes \<Rightarrow> bytes list" where
  "extract_keywords lower filename = tokenize_keywords lower filename True"

definition extract_query_keywords :: "(bytes \<Rightarrow> bytes) \<Rightarrow> bytes \<Rightarrow> bytes list" where
  "extract_query_keywords lower query = tokenize_keywords lower query False"

section \<open>Server directives\<close>

record server_directive_parts =
  directive_name :: bytes
  directive_size :: bytes
  directive_hashes :: "bytes list"

definition is_md4_hex :: "bytes \<Rightarrow> bool" where
  "is_md4_hex h \<longleftrightarrow> length h = 32 \<and> list_all is_ascii_hexdigit h"

definition parse_server_directive :: "bytes \<Rightarrow> server_directive_parts option" where
  "parse_server_directive raw =
     (case split_once 0x3A raw of
        None \<Rightarrow> None
      | Some (head, rest) \<Rightarrow>
          let name = map ascii_lower head
          in if name \<noteq> ascii ''related'' \<and> name \<noteq> ascii ''ed2k'' then None
             else case split_on (\<lambda>c. c = 0x3A) rest of
                    [] \<Rightarrow> None
                  | sz # fs \<Rightarrow>
                      if sz \<noteq> [] \<and> \<not> list_all is_ascii_digit sz then None
                      else let hashes = map (map ascii_upper) (filter (\<lambda>f. f \<noteq> []) fs)
                           in if hashes = [] \<or> \<not> list_all is_md4_hex hashes then None
                              else Some \<lparr>directive_name = name, directive_size = sz,
                                         directive_hashes = hashes\<rparr>)"

definition server_directive :: "bytes \<Rightarrow> bytes option" where
  "server_directive raw =
     (case parse_server_directive raw of
        None \<Rightarrow> None
      | Some d \<Rightarrow>
          let (t, rest) =
                (if directive_size d \<noteq> []
                 then (directive_name d @ [0x3A] @ directive_size d @ [0x3A] @ hd (directive_hashes d),
                       tl (directive_hashes d))
                 else (directive_name d, directive_hashes d))
          in Some (foldl (\<lambda>t h. t @ [0x3A, 0x3A] @ h) t rest))"

definition is_server_directive :: "bytes \<Rightarrow> bool" where
  "is_server_directive t \<longleftrightarrow> parse_server_directive t \<noteq> None"

definition ed2k_directive_hashes :: "bytes \<Rightarrow> bytes list option" where
  "ed2k_directive_hashes t =
     (case parse_server_directive t of
        None \<Rightarrow> None
      | Some d \<Rightarrow> if directive_name d = ascii ''ed2k'' then Some (directive_hashes d) else None)"

fun contains_server_directive :: "query_expr \<Rightarrow> bool" where
  "contains_server_directive (QTerm s) \<longleftrightarrow> is_server_directive s"
| "contains_server_directive (QAnd l r) \<longleftrightarrow> contains_server_directive l \<or> contains_server_directive r"
| "contains_server_directive (QOr l r) \<longleftrightarrow> contains_server_directive l \<or> contains_server_directive r"
| "contains_server_directive (QNot l r) \<longleftrightarrow> contains_server_directive l \<or> contains_server_directive r"

fun exact_file_hashes :: "query_expr \<Rightarrow> bytes list option" where
  "exact_file_hashes (QTerm s) = ed2k_directive_hashes s"
| "exact_file_hashes _ = None"

definition tokenize_term :: "(bytes \<Rightarrow> bytes) \<Rightarrow> bytes \<Rightarrow> bytes list" where
  "tokenize_term lower raw =
     (case server_directive raw of
        Some t \<Rightarrow> [t]
      | None \<Rightarrow> extract_query_keywords lower raw)"

section \<open>Lexer\<close>

datatype tok = LParen | RParen | TAnd | TOr | TNot | Word bytes | Phrase bytes

definition is_operator_word :: "bytes \<Rightarrow> bool" where
  "is_operator_word raw \<longleftrightarrow> raw = ascii ''AND'' \<or> raw = ascii ''OR'' \<or> raw = ascii ''NOT''"

definition word_tok :: "bytes \<Rightarrow> tok" where
  "word_tok raw =
     (if raw = ascii ''AND'' then TAnd else if raw = ascii ''OR'' then TOr
      else if raw = ascii ''NOT'' then TNot else Word raw)"

definition word_stop :: "bytes \<Rightarrow> bool" where
  "word_stop s \<longleftrightarrow> starts_ws s \<or> hd s = 0x28 \<or> hd s = 0x29 \<or> hd s = 0x22"

function lex_query :: "bytes \<Rightarrow> tok list" where
  "lex_query s =
     (if s = [] then []
      else if starts_ws s then lex_query (drop (ws_len s) s)
      else if hd s = 0x28 then LParen # lex_query (tl s)
      else if hd s = 0x29 then RParen # lex_query (tl s)
      else if hd s = 0x22 then
        let (phrase, r) = span_until (\<lambda>s. hd s = 0x22) (tl s) in Phrase phrase # lex_query (tl r)
      else if hd s = 0x2D then
        (if tl s \<noteq> [] \<and> \<not> starts_ws (tl s) then TNot # lex_query (tl s) else lex_query (tl s))
      else let (raw, r) = span_until word_stop s in word_tok raw # lex_query r)"
  by pat_completeness auto
termination
proof (relation "measure length")
  show "(tl r, s) \<in> measure length"
    if "s \<noteq> []" "x = span_until (\<lambda>s. hd s = 0x22) (tl s)" "(p, r) = x" for s p r x
    using span_until_length [of "\<lambda>s. hd s = 0x22" "tl s"] that by (cases s) (auto simp: less_Suc_eq_le dest: sym)
  show "(r, s) \<in> measure length"
    if "s \<noteq> []" "\<not> starts_ws s" "hd s \<noteq> 0x28" "hd s \<noteq> 0x29" "hd s \<noteq> 0x22"
      "x = span_until word_stop s" "(w, r) = x" for s w r x
    using span_until_shorter [of s word_stop] that by (metis in_measure snd_conv word_stop_def)
qed (auto simp: starts_ws_def)

declare split_whitespace.simps [simp del] lex_query.simps [simp del]

definition has_operators :: "bytes \<Rightarrow> bool" where
  "has_operators query \<longleftrightarrow>
     (\<exists>raw \<in> set (split_whitespace query).
        0x28 \<in> set raw \<or> 0x29 \<in> set raw \<or> 0x22 \<in> set raw
        \<or> hd raw = 0x2D \<and> 1 < length raw
        \<or> is_operator_word raw \<or> is_server_directive raw)"

section \<open>Parser\<close>

datatype clause = Search query_expr | Exclude "query_expr list"

fun clause_or :: "clause \<Rightarrow> clause \<Rightarrow> clause" where
  "clause_or (Search l) (Search r) = Search (QOr l r)"
| "clause_or (Search s) (Exclude _) = Search s"
| "clause_or (Exclude _) (Search s) = Search s"
| "clause_or (Exclude l) (Exclude r) =
     (case (fold_or l, fold_or r) of
        (Some l, Some r) \<Rightarrow> Exclude [QAnd l r]
      | (Some x, None) \<Rightarrow> Exclude [x]
      | (None, Some x) \<Rightarrow> Exclude [x]
      | (None, None) \<Rightarrow> Exclude [])"

text \<open>
  The state of \<^verbatim>\<open>Parser\<close>: the tokens from \<^verbatim>\<open>pos\<close> on, and \<^verbatim>\<open>dropped_exclusion\<close>. The loops are
  partial functions: one that does not end has the value \<open>None\<close>. \<open>prim\<close> is the parser of a
  primary at the current depth.
\<close>

type_synonym parser_state = "tok list \<times> bool"
type_synonym clause_parser = "parser_state \<Rightarrow> (clause option \<times> parser_state) option"

definition MAX_QUERY_BYTES :: nat where "MAX_QUERY_BYTES = 16384"
definition MAX_PARSE_DEPTH :: nat where "MAX_PARSE_DEPTH = 64"

type_synonym operands = "query_expr list \<times> query_expr list \<times> bool"

text \<open>One round of the loop of \<^verbatim>\<open>parse_and\<close>: what is read so far, and whether the loop goes on.\<close>

fun add_negated :: "clause option \<Rightarrow> operands \<Rightarrow> operands" where
  "add_negated (Some (Search p)) (ps, ns, wrote) = (ps, ns @ [p], wrote)"
| "add_negated (Some (Exclude excluded)) (ps, ns, wrote) =
     (ps @ (case fold_or excluded of None \<Rightarrow> [] | Some q \<Rightarrow> [q]), ns, wrote)"
| "add_negated None ops = ops"

fun add_operand :: "clause option \<Rightarrow> operands \<Rightarrow> operands" where
  "add_operand (Some (Search p)) (ps, ns, wrote) = (ps @ [p], ns, True)"
| "add_operand (Some (Exclude excluded)) (ps, ns, wrote) = (ps, ns @ excluded, wrote)"
| "add_operand None (ps, ns, wrote) = (ps, ns, True)"

fun and_round :: "clause_parser \<Rightarrow> operands \<Rightarrow> parser_state \<Rightarrow> (bool \<times> operands \<times> parser_state) option" where
  "and_round prim ops ([], dropped) = Some (False, ops, ([], dropped))"
| "and_round prim ops (TOr # ts, dropped) = Some (False, ops, (TOr # ts, dropped))"
| "and_round prim ops (RParen # ts, dropped) = Some (False, ops, (RParen # ts, dropped))"
| "and_round prim ops (TAnd # ts, dropped) = Some (True, ops, (ts, dropped))"
| "and_round prim ops (TNot # ts, dropped) =
     (case prim (ts, dropped) of
        None \<Rightarrow> None
      | Some (c, st) \<Rightarrow> Some (True, add_negated c ops, st))"
| "and_round prim ops st =
     (case prim st of
        None \<Rightarrow> None
      | Some (c, st) \<Rightarrow> Some (True, add_operand c ops, st))"

partial_function (option) and_loop ::
  "clause_parser \<Rightarrow> operands \<Rightarrow> parser_state \<Rightarrow> (operands \<times> parser_state) option" where
  "and_loop prim ops st =
     (case and_round prim ops st of
        None \<Rightarrow> None
      | Some (go_on, ops, st) \<Rightarrow> if go_on then and_loop prim ops st else Some (ops, st))"

definition parse_and :: "clause_parser \<Rightarrow> clause_parser" where
  "parse_and prim st =
     Option.bind (and_loop prim ([], [], False) st) (\<lambda>((positives, negatives, wrote_positive), (ts, dropped)).
       Some (case fold_and positives of
               Some acc \<Rightarrow> (Some (Search (apply_exclusions acc negatives)), (ts, dropped))
             | None \<Rightarrow>
                 if negatives = [] then (None, (ts, dropped))
                 else if wrote_positive then (None, (ts, True))
                 else (Some (Exclude negatives), (ts, dropped))))"

text \<open>The two sides of an OR, and whether an exclusion was dropped.\<close>

fun or_sides :: "clause option \<Rightarrow> clause option \<Rightarrow> clause option \<times> bool" where
  "or_sides (Some l) (Some r) = (Some (clause_or l r), False)"
| "or_sides (Some (Exclude _)) None = (None, True)"
| "or_sides None (Some (Exclude _)) = (None, True)"
| "or_sides (Some x) None = (Some x, False)"
| "or_sides None (Some x) = (Some x, False)"
| "or_sides None None = (None, False)"

fun or_round :: "clause_parser \<Rightarrow> clause option \<Rightarrow> parser_state \<Rightarrow> (bool \<times> clause option \<times> parser_state) option" where
  "or_round prim left (TOr # ts, dropped) =
     (case parse_and prim (ts, dropped) of
        None \<Rightarrow> None
      | Some (right, (ts, dropped)) \<Rightarrow>
          case or_sides left right of (left, d) \<Rightarrow> Some (True, left, (ts, dropped \<or> d)))"
| "or_round prim left st = Some (False, left, st)"

partial_function (option) or_loop :: "clause_parser \<Rightarrow> clause option \<Rightarrow> parser_state \<Rightarrow> (clause option \<times> parser_state) option" where
  "or_loop prim left st =
     (case or_round prim left st of
        None \<Rightarrow> None
      | Some (go_on, left, st) \<Rightarrow> if go_on then or_loop prim left st else Some (left, st))"

fun skip_balanced_group :: "nat \<Rightarrow> tok list \<Rightarrow> tok list" where
  "skip_balanced_group nested [] = []"
| "skip_balanced_group nested (LParen # ts) = skip_balanced_group (nested + 1) ts"
| "skip_balanced_group nested (RParen # ts) =
     (if nested - 1 = 0 then ts else skip_balanced_group (nested - 1) ts)"
| "skip_balanced_group nested (_ # ts) = skip_balanced_group nested ts"

text \<open>
  A primary. \<open>inside\<close> parses the inside of a parenthesis, at the next depth, and is \<open>None\<close> where
  \<^verbatim>\<open>MAX_PARSE_DEPTH\<close> is reached.
\<close>

fun parse_primary :: "(bytes \<Rightarrow> bytes) \<Rightarrow> clause_parser option \<Rightarrow> clause_parser" where
  "parse_primary lower None (LParen # ts, dropped) = Some (None, (skip_balanced_group 1 ts, dropped))"
| "parse_primary lower (Some inside) (LParen # ts, dropped) =
     Option.bind (inside (ts, dropped)) (\<lambda>(inner, (ts, dropped)).
       Some (inner, (case ts of RParen # rest \<Rightarrow> rest | _ \<Rightarrow> ts, dropped)))"
| "parse_primary lower _ (Word w # ts, dropped) =
     Some (map_option Search (fold_and (map QTerm (tokenize_term lower w))), (ts, dropped))"
| "parse_primary lower _ (Phrase w # ts, dropped) =
     Some (map_option Search (fold_and (map QTerm (tokenize_term lower w))), (ts, dropped))"
| "parse_primary lower _ st = Some (None, st)"

text \<open>\<^verbatim>\<open>parse_or\<close> at depth \<^verbatim>\<open>MAX_PARSE_DEPTH - left\<close>\<close>

definition parse_or_with :: "clause_parser \<Rightarrow> clause_parser" where
  "parse_or_with prim st = Option.bind (parse_and prim st) (\<lambda>(left, st). or_loop prim left st)"

primrec parse_or :: "(bytes \<Rightarrow> bytes) \<Rightarrow> nat \<Rightarrow> clause_parser" where
  "parse_or lower 0 = parse_or_with (parse_primary lower None)"
| "parse_or lower (Suc left) = parse_or_with (parse_primary lower (Some (parse_or lower left)))"

fun add_clause :: "clause option \<Rightarrow> query_expr list \<times> query_expr list \<Rightarrow> query_expr list \<times> query_expr list" where
  "add_clause (Some (Search e)) (parts, exclusions) = (parts @ [e], exclusions)"
| "add_clause (Some (Exclude excluded)) (parts, exclusions) = (parts, exclusions @ excluded)"
| "add_clause None acc = acc"

partial_function (option) top_loop ::
  "clause_parser \<Rightarrow> query_expr list \<times> query_expr list \<Rightarrow> parser_state \<Rightarrow>
   ((query_expr list \<times> query_expr list) \<times> bool) option" where
  "top_loop p acc st =
     (case p st of
        None \<Rightarrow> None
      | Some (c, (ts, dropped)) \<Rightarrow>
          if ts \<noteq> [] \<and> hd ts = RParen then top_loop p (add_clause c acc) (tl ts, dropped)
          else Some (add_clause c acc, dropped))"

section \<open>The fallback\<close>

fun skip_group :: "nat \<Rightarrow> tok list \<Rightarrow> tok list" where
  "skip_group nested [] = []"
| "skip_group nested (LParen # ts) = skip_group (nested + 1) ts"
| "skip_group nested (RParen # ts) = (if nested - 1 = 0 then ts else skip_group (nested - 1) ts)"
| "skip_group nested (_ # ts) = skip_group nested ts"

fun skip_operand :: "tok list \<Rightarrow> tok list" where
  "skip_operand [] = []"
| "skip_operand (TNot # ts) = skip_operand ts"
| "skip_operand (LParen # ts) = skip_group 0 (LParen # ts)"
| "skip_operand (_ # ts) = ts"

lemma skip_group_length: "length (skip_group n ts) \<le> length ts"
  by (induction n ts rule: skip_group.induct) auto

lemma skip_operand_length: "length (skip_operand ts) \<le> length ts"
  using skip_group_length by (induction ts rule: skip_operand.induct) (auto intro: le_SucI)

function fallback_words :: "tok list \<Rightarrow> bytes list" where
  "fallback_words [] = []"
| "fallback_words (TNot # ts) = fallback_words (skip_operand ts)"
| "fallback_words (Word w # ts) = w # fallback_words ts"
| "fallback_words (Phrase w # ts) = w # fallback_words ts"
| "fallback_words (LParen # ts) = fallback_words ts"
| "fallback_words (RParen # ts) = fallback_words ts"
| "fallback_words (TAnd # ts) = fallback_words ts"
| "fallback_words (TOr # ts) = fallback_words ts"
  by pat_completeness auto
termination
  by (relation "measure length") (auto simp: less_Suc_eq_le skip_operand_length)

definition fallback_keywords :: "(bytes \<Rightarrow> bytes) \<Rightarrow> bytes \<Rightarrow> bytes list" where
  "fallback_keywords lower query = extract_query_keywords lower (join [0x20] (fallback_words (lex_query query)))"

section \<open>Queries\<close>

definition clamp_query :: "bytes \<Rightarrow> bytes" where
  "clamp_query query =
     (if length query \<le> MAX_QUERY_BYTES then query
      else take (back_off query MAX_QUERY_BYTES) query)"

definition parse_query :: "(bytes \<Rightarrow> bytes) \<Rightarrow> bytes \<Rightarrow> query_expr option option" where
  "parse_query lower query =
     (let query = clamp_query query
      in case server_directive (trim_str query) of
           Some t \<Rightarrow> Some (Some (QTerm t))
         | None \<Rightarrow>
             if \<not> has_operators query
             then Some (fold_and (map QTerm (extract_query_keywords lower query)))
             else
               Option.bind (top_loop (parse_or lower MAX_PARSE_DEPTH) ([], []) (lex_query query, False))
                 (\<lambda>((parts, exclusions), dropped_exclusion).
                   Some (case fold_and parts of
                           Some e \<Rightarrow> Some (apply_exclusions e exclusions)
                         | None \<Rightarrow>
                             if dropped_exclusion then None
                             else case fold_and exclusions of
                                    Some e \<Rightarrow> Some e
                                  | None \<Rightarrow> fold_and (map QTerm (fallback_keywords lower query)))))"

definition positive_terms_from_query :: "(bytes \<Rightarrow> bytes) \<Rightarrow> bytes \<Rightarrow> bytes list option" where
  "positive_terms_from_query lower query =
     (case parse_query lower (trim_str query) of
        None \<Rightarrow> None
      | Some r \<Rightarrow> Some (case r of None \<Rightarrow> [] | Some e \<Rightarrow> positive_terms e))"

definition name_contains_any_term :: "(bytes \<Rightarrow> bytes) \<Rightarrow> bytes \<Rightarrow> bytes list \<Rightarrow> bool" where
  "name_contains_any_term lower name terms \<longleftrightarrow>
     terms = [] \<or> (\<exists>t \<in> set terms. sublist t (lower name))"

end
