(* ===== verification/Query_Parse.thy ===== *)
theory Query_Parse
  imports Query_Text Search_Tree
begin

text \<open>
  The query parser returns on every input, and what the terms of its result are. Both follow
  by one induction per loop, under a property of strings that the pieces of a query inherit:
  the locale \<open>query_pieces\<close>.
\<close>

section \<open>Termination and the terms of a parsed query\<close>

text \<open>
  A term is a server directive in the form servers expect, or the lower case of a piece of
  the query without separators and of at least three bytes. \<open>P\<close> is a property of strings that
  the pieces inherit from the query.
\<close>

definition parsed_term :: "(bytes \<Rightarrow> bool) \<Rightarrow> (bytes \<Rightarrow> bytes) \<Rightarrow> bytes \<Rightarrow> bool" where
  "parsed_term P lower t \<longleftrightarrow> (\<exists>raw. server_directive raw = Some t)
     \<or> (\<exists>w. t = lower w \<and> P w \<and> 3 \<le> length w \<and> (\<forall>c \<in> set w. \<not> is_kad_keyword_separator c))"

definition parsed_ok :: "(bytes \<Rightarrow> bool) \<Rightarrow> (bytes \<Rightarrow> bytes) \<Rightarrow> query_expr \<Rightarrow> bool" where
  "parsed_ok P lower q \<longleftrightarrow> (\<forall>t \<in> set (all_terms q). parsed_term P lower t)"

fun clause_exprs :: "clause option \<Rightarrow> query_expr list" where
  "clause_exprs None = []"
| "clause_exprs (Some (Search q)) = [q]"
| "clause_exprs (Some (Exclude qs)) = qs"

fun is_operand :: "tok list \<Rightarrow> bool" where
  "is_operand (LParen # _) = True"
| "is_operand (Word _ # _) = True"
| "is_operand (Phrase _ # _) = True"
| "is_operand _ = False"

text \<open>A parser returns, takes no token back, consumes an operand, and yields good terms.\<close>

fun tok_ok :: "(bytes \<Rightarrow> bool) \<Rightarrow> tok \<Rightarrow> bool" where
  "tok_ok P (Word w) = P w"
| "tok_ok P (Phrase w) = P w"
| "tok_ok P _ = True"

definition returns :: "(bytes \<Rightarrow> bool) \<Rightarrow> (bytes \<Rightarrow> bytes) \<Rightarrow> clause_parser \<Rightarrow> bool" where
  "returns P lower p \<longleftrightarrow> (\<forall>ts dropped. list_all (tok_ok P) ts \<longrightarrow>
     (\<exists>c ts' dropped'. p (ts, dropped) = Some (c, ts', dropped') \<and> length ts' \<le> length ts
        \<and> list_all (tok_ok P) ts' \<and> list_all (parsed_ok P lower) (clause_exprs c)))"

definition consumes :: "(bytes \<Rightarrow> bool) \<Rightarrow> clause_parser \<Rightarrow> bool" where
  "consumes P p \<longleftrightarrow> (\<forall>ts dropped c ts' dropped'. list_all (tok_ok P) ts \<longrightarrow>
     p (ts, dropped) = Some (c, ts', dropped') \<longrightarrow> is_operand ts \<longrightarrow> length ts' < length ts)"

lemma parsed_ok_simps [simp]:
  "parsed_ok P lower (QTerm t) \<longleftrightarrow> parsed_term P lower t"
  "parsed_ok P lower (QAnd l r) \<longleftrightarrow> parsed_ok P lower l \<and> parsed_ok P lower r"
  "parsed_ok P lower (QOr l r) \<longleftrightarrow> parsed_ok P lower l \<and> parsed_ok P lower r"
  "parsed_ok P lower (QNot l r) \<longleftrightarrow> parsed_ok P lower l \<and> parsed_ok P lower r"
  by (auto simp: parsed_ok_def)

lemma parsed_ok_foldl:
  assumes "\<And>l r. parsed_ok P lower (f l r) \<longleftrightarrow> parsed_ok P lower l \<and> parsed_ok P lower r"
  shows "parsed_ok P lower (foldl f q qs) \<longleftrightarrow> parsed_ok P lower q \<and> list_all (parsed_ok P lower) qs"
  by (induction qs arbitrary: q) (auto simp: assms)

lemma parsed_ok_folds:
  "fold_and qs = Some e \<Longrightarrow> list_all (parsed_ok P lower) qs \<Longrightarrow> parsed_ok P lower e"
  "fold_or qs = Some e \<Longrightarrow> list_all (parsed_ok P lower) qs \<Longrightarrow> parsed_ok P lower e"
  "parsed_ok P lower (apply_exclusions q qs) \<longleftrightarrow> parsed_ok P lower q \<and> list_all (parsed_ok P lower) qs"
  by (cases qs; auto simp: parsed_ok_foldl apply_exclusions_def)+

lemma returnsE:
  assumes "returns P lower p" "list_all (tok_ok P) ts"
  obtains c ts' dropped' where "p (ts, dropped) = Some (c, ts', dropped')" "length ts' \<le> length ts"
    "list_all (tok_ok P) ts'" "list_all (parsed_ok P lower) (clause_exprs c)"
  using assms unfolding returns_def by blast

text \<open>The rounds of the loops.\<close>

lemma and_loop_stop:
  "ts = [] \<or> hd ts = TOr \<or> hd ts = RParen \<Longrightarrow> and_loop prim ops (ts, dropped) = Some (ops, (ts, dropped))"
  by (subst and_loop.simps) (cases "(prim, ops, (ts, dropped))" rule: and_round.cases; simp)

lemma and_loop_and: "and_loop prim ops (TAnd # ts, dropped) = and_loop prim ops (ts, dropped)"
  by (subst and_loop.simps) simp

lemma and_loop_not:
  "prim (ts, dropped) = Some (c, st) \<Longrightarrow>
   and_loop prim ops (TNot # ts, dropped) = and_loop prim (add_negated c ops) st"
  by (subst and_loop.simps) simp

lemma and_loop_operand:
  "is_operand ts \<Longrightarrow> prim (ts, dropped) = Some (c, st) \<Longrightarrow>
   and_loop prim ops (ts, dropped) = and_loop prim (add_operand c ops) st"
  by (subst and_loop.simps) (cases ts rule: is_operand.cases; simp)

fun operands_ok :: "(bytes \<Rightarrow> bool) \<Rightarrow> (bytes \<Rightarrow> bytes) \<Rightarrow> operands \<Rightarrow> bool" where
  "operands_ok P lower (ps, ns, wrote) \<longleftrightarrow> list_all (parsed_ok P lower) ps \<and> list_all (parsed_ok P lower) ns"

lemma add_operands_ok:
  assumes "operands_ok P lower ops" "list_all (parsed_ok P lower) (clause_exprs c)"
  shows "operands_ok P lower (add_negated c ops)" "operands_ok P lower (add_operand c ops)"
proof -
  have "list_all (parsed_ok P lower) (case fold_or qs of None \<Rightarrow> [] | Some q \<Rightarrow> [q])"
    if "list_all (parsed_ok P lower) qs" for qs
    using that parsed_ok_folds(2) by (auto split: option.split)
  then show "operands_ok P lower (add_negated c ops)" "operands_ok P lower (add_operand c ops)"
    using assms by (cases ops; cases c rule: clause_exprs.cases; simp)+
qed

lemma and_loop_returns:
  assumes prim: "returns P lower prim" "consumes P prim" and "operands_ok P lower ops" "list_all (tok_ok P) ts"
  shows "\<exists>ops' ts' dropped'. and_loop prim ops (ts, dropped) = Some (ops', ts', dropped')
    \<and> length ts' \<le> length ts \<and> list_all (tok_ok P) ts' \<and> operands_ok P lower ops'"
  using assms(3,4)
proof (induction "length ts" arbitrary: ts dropped ops rule: less_induct)
  case less
  consider (stop) "ts = [] \<or> hd ts = TOr \<or> hd ts = RParen" | (conj) r where "ts = TAnd # r"
    | (neg) r where "ts = TNot # r" | (operand) "is_operand ts"
    by (cases ts rule: is_operand.cases) auto
  then show ?case
  proof cases
    case stop
    then show ?thesis using less.prems by (simp add: and_loop_stop)
  next
    case conj
    then show ?thesis using less.hyps [of r ops dropped] less.prems by (fastforce simp: and_loop_and)
  next
    case neg
    obtain c r' dr where p: "prim (r, dropped) = Some (c, r', dr)" "length r' \<le> length r"
      "list_all (tok_ok P) r'" "list_all (parsed_ok P lower) (clause_exprs c)"
      by (rule returnsE [OF prim(1)]) (use less.prems neg in auto)
    then show ?thesis
      using less.hyps [of r' "add_negated c ops" dr] add_operands_ok(1) [OF less.prems(1) p(4)]
      unfolding neg and_loop_not [where prim = prim, OF p(1)] by fastforce
  next
    case operand
    obtain c r' dr where p: "prim (ts, dropped) = Some (c, r', dr)" "length r' \<le> length ts"
      "list_all (tok_ok P) r'" "list_all (parsed_ok P lower) (clause_exprs c)"
      by (rule returnsE [OF prim(1) less.prems(2)])
    have "length r' < length ts" using prim(2) p(1) operand less.prems(2) unfolding consumes_def by blast
    then show ?thesis
      using less.hyps [of r' "add_operand c ops" dr] add_operands_ok(2) [OF less.prems(1) p(4)] p(3)
      unfolding and_loop_operand [where prim = prim, OF operand p(1)] by fastforce
  qed
qed

lemma parse_and_returns:
  assumes "returns P lower prim" "consumes P prim"
  shows "returns P lower (parse_and prim)"
  unfolding returns_def
proof (intro allI impI)
  fix ts dropped
  assume "list_all (tok_ok P) ts"
  then obtain ps ns wrote ts' dr where a: "and_loop prim ([], [], False) (ts, dropped) = Some ((ps, ns, wrote), ts', dr)"
    "length ts' \<le> length ts" "list_all (tok_ok P) ts'" "list_all (parsed_ok P lower) ps" "list_all (parsed_ok P lower) ns"
    using and_loop_returns [OF assms, of "([], [], False)" ts dropped] by auto
  then show "\<exists>c ts' dropped'. parse_and prim (ts, dropped) = Some (c, ts', dropped')
      \<and> length ts' \<le> length ts \<and> list_all (tok_ok P) ts' \<and> list_all (parsed_ok P lower) (clause_exprs c)"
    by (cases "fold_and ps") (auto simp: parse_and_def parsed_ok_folds)
qed

lemma clause_or_ok:
  "list_all (parsed_ok P lower) (clause_exprs (Some l)) \<Longrightarrow> list_all (parsed_ok P lower) (clause_exprs (Some r)) \<Longrightarrow>
   list_all (parsed_ok P lower) (clause_exprs (Some (clause_or l r)))"
  by (cases "(l, r)" rule: clause_or.cases) (auto simp: parsed_ok_folds(2) split: option.splits)

lemma or_sides_ok:
  assumes "list_all (parsed_ok P lower) (clause_exprs l)" "list_all (parsed_ok P lower) (clause_exprs r)"
  shows "list_all (parsed_ok P lower) (clause_exprs (fst (or_sides l r)))"
  using assms clause_or_ok by (cases "(l, r)" rule: or_sides.cases) auto

lemma or_loop_stop: "ts = [] \<or> hd ts \<noteq> TOr \<Longrightarrow> or_loop prim left (ts, dropped) = Some (left, (ts, dropped))"
  by (subst or_loop.simps) (cases "(prim, left, (ts, dropped))" rule: or_round.cases; simp)

lemma or_loop_or:
  "parse_and prim (ts, dropped) = Some (right, ts', dr) \<Longrightarrow>
   or_loop prim left (TOr # ts, dropped) =
     or_loop prim (fst (or_sides left right)) (ts', dr \<or> snd (or_sides left right))"
  by (subst or_loop.simps) (simp add: case_prod_beta)

lemma or_loop_returns:
  assumes prim: "returns P lower prim" "consumes P prim"
    and "list_all (parsed_ok P lower) (clause_exprs left)" "list_all (tok_ok P) ts"
  shows "\<exists>c ts' dropped'. or_loop prim left (ts, dropped) = Some (c, ts', dropped')
    \<and> length ts' \<le> length ts \<and> list_all (tok_ok P) ts' \<and> list_all (parsed_ok P lower) (clause_exprs c)"
  using assms(3,4)
proof (induction "length ts" arbitrary: ts dropped left rule: less_induct)
  case less
  show ?case
  proof (cases "ts = [] \<or> hd ts \<noteq> TOr")
    case True
    then show ?thesis using less.prems by (simp add: or_loop_stop)
  next
    case False
    then obtain r where r: "ts = TOr # r" by (cases ts) auto
    obtain c r' dr where p: "parse_and prim (r, dropped) = Some (c, r', dr)" "length r' \<le> length r"
      "list_all (tok_ok P) r'" "list_all (parsed_ok P lower) (clause_exprs c)"
      by (rule returnsE [OF parse_and_returns [OF prim]]) (use less.prems r in auto)
    then show ?thesis
      using less.hyps [of r' "fst (or_sides left c)" "dr \<or> snd (or_sides left c)"]
        or_sides_ok [OF less.prems(1) p(4)] unfolding r or_loop_or [OF p(1)] by fastforce
  qed
qed

lemma parse_or_with_returns:
  assumes "returns P lower prim" "consumes P prim"
  shows "returns P lower (parse_or_with prim)"
  unfolding returns_def
proof (intro allI impI)
  fix ts dropped
  assume "list_all (tok_ok P) ts"
  then obtain c r dr where p: "parse_and prim (ts, dropped) = Some (c, r, dr)" "length r \<le> length ts"
    "list_all (tok_ok P) r" "list_all (parsed_ok P lower) (clause_exprs c)"
    by (rule returnsE [OF parse_and_returns [OF assms]])
  then show "\<exists>c ts' dropped'. parse_or_with prim (ts, dropped) = Some (c, ts', dropped')
      \<and> length ts' \<le> length ts \<and> list_all (tok_ok P) ts' \<and> list_all (parsed_ok P lower) (clause_exprs c)"
    using or_loop_returns [OF assms p(4,3), of dr] by (fastforce simp: parse_or_with_def)
qed

lemma top_loop_returns:
  assumes "returns P lower p" "list_all (parsed_ok P lower) parts" "list_all (parsed_ok P lower) exs"
    and "list_all (tok_ok P) ts"
  shows "\<exists>parts' exs' dr. top_loop p (parts, exs) (ts, dropped) = Some ((parts', exs'), dr)
    \<and> list_all (parsed_ok P lower) parts' \<and> list_all (parsed_ok P lower) exs'"
  using assms(2-4)
proof (induction "length ts" arbitrary: ts dropped parts exs rule: less_induct)
  case less
  obtain c r dr where p: "p (ts, dropped) = Some (c, r, dr)" "length r \<le> length ts"
    "list_all (tok_ok P) r" "list_all (parsed_ok P lower) (clause_exprs c)"
    by (rule returnsE [OF assms(1) less.prems(3)])
  obtain parts1 exs1 where acc: "add_clause c (parts, exs) = (parts1, exs1)" by (meson surj_pair)
  have ok: "list_all (parsed_ok P lower) parts1" "list_all (parsed_ok P lower) exs1"
    using less.prems p(4) acc by (cases c rule: clause_exprs.cases; auto)+
  have eq: "top_loop p (parts, exs) (ts, dropped) =
      (if r \<noteq> [] \<and> hd r = RParen then top_loop p (parts1, exs1) (tl r, dr) else Some ((parts1, exs1), dr))"
    by (subst top_loop.simps) (simp add: p(1) acc)
  show ?case
  proof (cases "r \<noteq> [] \<and> hd r = RParen")
    case True
    then have "length (tl r) < length ts" "list_all (tok_ok P) (tl r)" using p(2,3) by (cases r; auto)+
    then show ?thesis using less.hyps [of "tl r" parts1 exs1 dr] ok True eq by auto
  next
    case False
    then show ?thesis using ok eq by auto
  qed
qed

section \<open>Keywords\<close>

lemma split_on_pieces: "w \<in> set (split_on p s) \<Longrightarrow> \<forall>c \<in> set w. \<not> p c"
proof (induction s arbitrary: w)
  case (Cons c cs)
  have IH: "\<forall>v \<in> set (split_on p cs). \<forall>c \<in> set v. \<not> p c" using Cons.IH by blast
  show ?case using Cons.prems IH by (cases "split_on p cs") (auto split: if_splits)
qed simp

lemma keep_words_ok:
  assumes "\<forall>w \<in> set words. P w \<and> (\<forall>c \<in> set w. \<not> is_kad_keyword_separator c)" "list_all (parsed_term P lower) acc"
  shows "list_all (parsed_term P lower) (foldl (keep_word lower) acc words)"
  using assms
proof (induction words arbitrary: acc)
  case (Cons w words)
  have "3 \<le> length w \<Longrightarrow> parsed_term P lower (lower w)" using Cons.prems(1) by (auto simp: parsed_term_def)
  then have "list_all (parsed_term P lower) (keep_word lower acc w)"
    using Cons.prems(2) by (auto simp: keep_word_def list_all_iff)
  then show ?case using Cons by simp
qed simp

lemma terms_exprs: "list_all (parsed_ok P lower) (map QTerm ts) \<longleftrightarrow> list_all (parsed_term P lower) ts"
  by (induction ts) auto

lemma skip_balanced_length: "length (skip_balanced_group n ts) \<le> length ts"
  by (induction n ts rule: skip_balanced_group.induct) auto

lemma skip_balanced_sub: "set (skip_balanced_group n ts) \<subseteq> set ts"
  by (induction n ts rule: skip_balanced_group.induct) auto

lemma skip_operand_sub: "set (skip_operand ts) \<subseteq> set ts"
proof -
  have group: "set (skip_group n ts) \<subseteq> set ts" for n ts
    by (induction n ts rule: skip_group.induct) auto
  show ?thesis
  proof (induction ts rule: skip_operand.induct)
    case (3 ts)
    then show ?case using group [of 0 "LParen # ts"] by simp
  qed auto
qed

lemma fallback_words_ok: "list_all (tok_ok P) ts \<Longrightarrow> \<forall>w \<in> set (fallback_words ts). P w"
proof (induction ts rule: fallback_words.induct)
  case (2 ts)
  then show ?case using skip_operand_sub [of ts] by (auto simp: list_all_iff)
qed auto

section \<open>Properties that the pieces of a query inherit\<close>

locale query_pieces =
  fixes P :: "bytes \<Rightarrow> bool"
  assumes pieces: "P s \<Longrightarrow> w \<in> set (split_on is_kad_keyword_separator s) \<Longrightarrow> P w"
    and joined: "\<forall>w \<in> set ws. P w \<Longrightarrow> P (join [0x20] ws)"
    and lexed: "P s \<Longrightarrow> list_all (tok_ok P) (lex_query s)"
    and clamped: "P s \<Longrightarrow> P (clamp_query s)"
begin

lemma query_keywords_ok: "P s \<Longrightarrow> list_all (parsed_term P lower) (extract_query_keywords lower s)"
  unfolding extract_query_keywords_def tokenize_keywords_def Let_def
  using keep_words_ok [of "split_on is_kad_keyword_separator s" P lower "[]"] split_on_pieces pieces
  by simp blast

lemma fold_terms_ok:
  "P s \<Longrightarrow> fold_and (map QTerm (extract_query_keywords lower s)) = Some q \<Longrightarrow> parsed_ok P lower q"
  using parsed_ok_folds(1) query_keywords_ok terms_exprs by blast

lemma tokenize_term_ok: "P raw \<Longrightarrow> list_all (parsed_term P lower) (tokenize_term lower raw)"
  using query_keywords_ok by (auto simp: tokenize_term_def parsed_term_def split: option.split)

lemma primary_word_ok:
  "P w \<Longrightarrow> list_all (parsed_ok P lower) (clause_exprs (map_option Search (fold_and (map QTerm (tokenize_term lower w)))))"
  using parsed_ok_folds(1) [of "map QTerm (tokenize_term lower w)"] tokenize_term_ok [of w lower]
  by (cases "fold_and (map QTerm (tokenize_term lower w))") (auto simp: terms_exprs)

lemma parse_primary_cases:
  assumes "\<And>g. inside = Some g \<Longrightarrow> returns P lower g" "list_all (tok_ok P) ts"
  shows "\<exists>c ts' dr. parse_primary lower inside (ts, dropped) = Some (c, ts', dr) \<and> length ts' \<le> length ts
      \<and> (is_operand ts \<longrightarrow> length ts' < length ts) \<and> list_all (tok_ok P) ts'
      \<and> list_all (parsed_ok P lower) (clause_exprs c)"
proof (cases "\<exists>g r. inside = Some g \<and> ts = LParen # r")
  case True
  then obtain g r where g: "inside = Some g" "ts = LParen # r" by blast
  obtain c r' dr where p: "g (r, dropped) = Some (c, r', dr)" "length r' \<le> length r"
    "list_all (tok_ok P) r'" "list_all (parsed_ok P lower) (clause_exprs c)"
    by (rule returnsE [OF assms(1) [OF g(1)]]) (use assms(2) g in auto)
  then show ?thesis using g by (auto split: list.split tok.split)
next
  case False
  then show ?thesis
    using assms(2) primary_word_ok skip_balanced_length [of 1 "tl ts"] skip_balanced_sub [of 1 "tl ts"]
    by (cases "(lower, inside, (ts, dropped))" rule: parse_primary.cases)
       (auto simp: less_Suc_eq_le list_all_iff)
qed

lemma parse_primary_returns:
  assumes "\<And>g. inside = Some g \<Longrightarrow> returns P lower g"
  shows "returns P lower (parse_primary lower inside)" "consumes P (parse_primary lower inside)"
proof -
  note main = parse_primary_cases [of inside lower, OF assms]
  show "returns P lower (parse_primary lower inside)" unfolding returns_def
  proof (intro allI impI)
    fix ts dropped
    assume "list_all (tok_ok P) ts"
    then show "\<exists>c ts' dropped'. parse_primary lower inside (ts, dropped) = Some (c, ts', dropped')
        \<and> length ts' \<le> length ts \<and> list_all (tok_ok P) ts' \<and> list_all (parsed_ok P lower) (clause_exprs c)"
      using main [where ts = ts and dropped = dropped] by blast
  qed
  show "consumes P (parse_primary lower inside)" unfolding consumes_def
  proof (intro allI impI)
    fix ts ts' dropped dropped' c
    assume "list_all (tok_ok P) ts" "parse_primary lower inside (ts, dropped) = Some (c, ts', dropped')" "is_operand ts"
    then show "length ts' < length ts" using main [where ts = ts and dropped = dropped] by auto
  qed
qed

lemma parse_or_returns: "returns P lower (parse_or lower n)"
proof (induction n)
  case 0
  then show ?case using parse_or_with_returns parse_primary_returns [of None] by simp
next
  case (Suc n)
  then show ?case using parse_or_with_returns parse_primary_returns [of "Some (parse_or lower n)" lower] by simp
qed

lemma parse_query_returns:
  assumes "P query"
  shows "\<exists>r. parse_query lower query = Some r \<and> (\<forall>q. r = Some q \<longrightarrow> parsed_ok P lower q)"
proof -
  let ?q = "clamp_query query"
  have q: "P ?q" by (rule clamped [OF assms])
  then have toks: "list_all (tok_ok P) (lex_query ?q)" by (rule lexed)
  obtain parts exs dr where top: "top_loop (parse_or lower MAX_PARSE_DEPTH) ([], []) (lex_query ?q, False) = Some ((parts, exs), dr)"
    "list_all (parsed_ok P lower) parts" "list_all (parsed_ok P lower) exs"
    using top_loop_returns [OF parse_or_returns, of lower "[]" "[]" "lex_query ?q" MAX_PARSE_DEPTH False] toks by auto
  have fallback: "P (join [0x20] (fallback_words (lex_query ?q)))"
    using joined fallback_words_ok [OF toks] by blast
  consider (directive) t where "server_directive (trim_str ?q) = Some t"
    | (plain) "server_directive (trim_str ?q) = None" "\<not> has_operators ?q"
    | (boolean) "server_directive (trim_str ?q) = None" "has_operators ?q" by (cases "server_directive (trim_str ?q)") auto
  then show ?thesis
  proof cases
    case directive
    then show ?thesis by (auto simp: parse_query_def Let_def parsed_term_def)
  next
    case plain
    then show ?thesis using fold_terms_ok [OF q] by (auto simp: parse_query_def Let_def)
  next
    case boolean
    then show ?thesis
      using top parsed_ok_folds(1) fold_terms_ok [OF fallback]
      by (auto simp: parse_query_def Let_def fallback_keywords_def parsed_ok_folds(3) split: option.splits)
  qed
qed

end

end
