(* ===== verification/Query_Props.thy ===== *)
theory Query_Props
  imports Query_Parse
begin

text \<open>
  Properties of the query parser: the written form of a tree is read back, the pieces of a
  valid string are valid (which interprets \<open>query_pieces\<close>), server directives are in
  canonical form, and so the terms of a query without directives are keywords.
\<close>

section \<open>Writing a query\<close>

text \<open>The text of a tree, with every operator written out and every operation in parentheses.\<close>

fun query_text :: "query_expr \<Rightarrow> bytes" where
  "query_text (QTerm w) = w"
| "query_text (QAnd l r) = [0x28] @ query_text l @ [0x20] @ ascii ''AND'' @ [0x20] @ query_text r @ [0x29]"
| "query_text (QOr l r) = [0x28] @ query_text l @ [0x20] @ ascii ''OR'' @ [0x20] @ query_text r @ [0x29]"
| "query_text (QNot l r) = [0x28] @ query_text l @ [0x20] @ ascii ''NOT'' @ [0x20] @ query_text r @ [0x29]"

fun query_toks :: "query_expr \<Rightarrow> tok list" where
  "query_toks (QTerm w) = [Word w]"
| "query_toks (QAnd l r) = LParen # query_toks l @ TAnd # query_toks r @ [RParen]"
| "query_toks (QOr l r) = LParen # query_toks l @ TOr # query_toks r @ [RParen]"
| "query_toks (QNot l r) = LParen # query_toks l @ TNot # query_toks r @ [RParen]"

fun query_height :: "query_expr \<Rightarrow> nat" where
  "query_height (QTerm _) = 0"
| "query_height (QAnd l r) = Suc (max (query_height l) (query_height r))"
| "query_height (QOr l r) = Suc (max (query_height l) (query_height r))"
| "query_height (QNot l r) = Suc (max (query_height l) (query_height r))"

definition no_breaks :: "bytes \<Rightarrow> bool" where
  "no_breaks w \<longleftrightarrow> (\<forall>c \<in> set w. \<not> is_kad_keyword_separator c)
     \<and> (\<forall>e \<in> set whitespace_encodings. \<not> sublist e w)"

definition word_ok :: "(bytes \<Rightarrow> bytes) \<Rightarrow> bytes \<Rightarrow> bool" where
  "word_ok lower w \<longleftrightarrow> 3 \<le> length w \<and> lower w = w \<and> no_breaks w \<and> \<not> is_operator_word w"

section \<open>Reading it back: the lexer\<close>

lemma encodings_nonempty: "e \<in> set whitespace_encodings \<Longrightarrow> e \<noteq> []"
  by (auto simp: whitespace_encodings_def)

lemma starts_ws_iff: "starts_ws s \<longleftrightarrow> (\<exists>e \<in> set whitespace_encodings. prefix e s)"
proof (cases "find (\<lambda>w. prefix w s) whitespace_encodings")
  case None
  then have "\<forall>e \<in> set whitespace_encodings. \<not> prefix e s" by (simp add: find_None_iff)
  then show ?thesis using None by (auto simp: starts_ws_def ws_len_def)
next
  case (Some w)
  then have "w \<in> set whitespace_encodings" "prefix w s" by (auto simp: find_Some_iff)
  then show ?thesis using Some encodings_nonempty by (auto simp: starts_ws_def ws_len_def)
qed

definition delimited :: "bytes \<Rightarrow> bool" where
  "delimited rest \<longleftrightarrow> rest = [] \<or> hd rest = 0x20 \<or> hd rest = 0x29"

lemma encodings_ascii:
  "e \<in> set whitespace_encodings \<Longrightarrow> length e = 1 \<or> 0x20 \<notin> set e \<and> 0x29 \<notin> set e"
  by (auto simp: whitespace_encodings_def)

lemma no_ws_before_delimiter:
  assumes "v \<noteq> []" "\<forall>e \<in> set whitespace_encodings. \<not> sublist e v" "delimited rest"
  shows "\<not> starts_ws (v @ rest)"
proof
  assume "starts_ws (v @ rest)"
  then obtain e where e: "e \<in> set whitespace_encodings" "prefix e (v @ rest)" by (auto simp: starts_ws_iff)
  then consider "prefix e v" | us where "e = v @ us" "prefix us rest" by (auto simp: prefix_append)
  then show False
  proof cases
    case 1
    then show ?thesis using assms(2) e(1) by auto
  next
    case (2 us)
    show ?thesis
    proof (cases us)
      case Nil
      then show ?thesis using 2 assms(2) e(1) by auto
    next
      case (Cons c us')
      then have "c = 0x20 \<or> c = 0x29" using 2(2) assms(3) by (cases rest) (auto simp: delimited_def)
      then show ?thesis using encodings_ascii [OF e(1)] 2(1) Cons assms(1) by (cases v) auto
    qed
  qed
qed

lemma starts_ws_space [simp]: "starts_ws (0x20 # s)" "ws_len (0x20 # s) = 1"
  by (simp_all add: starts_ws_def ws_len_def whitespace_encodings_def)

lemma starts_ws_paren [simp]: "\<not> starts_ws (0x28 # s)" "\<not> starts_ws (0x29 # s)"
  by (simp_all add: starts_ws_iff whitespace_encodings_def)

lemma span_word:
  assumes "no_breaks v" "delimited rest"
  shows "span_until word_stop (v @ rest) = (v, rest)"
  using assms(1)
proof (induction v)
  case Nil
  then show ?case using assms(2) by (cases rest) (auto simp: delimited_def word_stop_def)
next
  case (Cons c v)
  have "\<not> starts_ws ((c # v) @ rest)"
    using no_ws_before_delimiter [of "c # v"] Cons.prems assms(2) by (simp add: no_breaks_def)
  moreover have "c \<noteq> 0x28" "c \<noteq> 0x29" "c \<noteq> 0x22"
    using Cons.prems by (auto simp: no_breaks_def is_kad_keyword_separator_def)
  ultimately have "\<not> word_stop (c # v @ rest)" by (simp add: word_stop_def)
  moreover have "no_breaks v" using Cons.prems by (auto simp: no_breaks_def sublist_Cons_right)
  ultimately show ?case using Cons.IH by simp
qed

lemma lex_word:
  assumes "w \<noteq> []" "no_breaks w" "delimited rest"
  shows "lex_query (w @ rest) = word_tok w # lex_query rest"
proof -
  have "\<not> starts_ws (w @ rest)"
    using no_ws_before_delimiter [OF assms(1) _ assms(3)] assms(2) by (simp add: no_breaks_def)
  moreover have "hd w \<in> set w" using assms(1) by simp
  then have "hd w \<noteq> 0x28" "hd w \<noteq> 0x29" "hd w \<noteq> 0x22" "hd w \<noteq> 0x2D"
    using assms(2) by (auto simp: no_breaks_def is_kad_keyword_separator_def)
  ultimately show ?thesis
    using assms(1) span_word [OF assms(2,3)] by (subst lex_query.simps) simp
qed

lemma lex_marks:
  "lex_query [] = []" "lex_query (0x20 # s) = lex_query s"
  "lex_query (0x28 # s) = LParen # lex_query s" "lex_query (0x29 # s) = RParen # lex_query s"
  by (subst lex_query.simps; simp)+

definition is_letter :: "u8 \<Rightarrow> bool" where
  "is_letter c \<longleftrightarrow> 0x41 \<le> c \<and> c \<le> 0x5A \<or> 0x61 \<le> c \<and> c \<le> 0x7A"

lemma letters_no_breaks: "\<forall>c \<in> set w. is_letter c \<Longrightarrow> no_breaks w"
proof -
  assume w: "\<forall>c \<in> set w. is_letter c"
  have "\<not> sublist e w" if "e \<in> set whitespace_encodings" for e
  proof
    assume "sublist e w"
    then have "set e \<subseteq> set w" by (simp add: set_mono_sublist)
    moreover have "hd e \<in> set e" using encodings_nonempty [OF that] by simp
    ultimately have "is_letter (hd e)" using w by auto
    then show False using that by (auto simp: whitespace_encodings_def is_letter_def)
  qed
  moreover have "\<not> is_kad_keyword_separator c" if "c \<in> set w" for c
    using w that by (auto simp: is_kad_keyword_separator_def is_letter_def)
  ultimately show ?thesis by (simp add: no_breaks_def)
qed

lemma lex_operators:
  "delimited s \<Longrightarrow> lex_query (ascii ''AND'' @ s) = TAnd # lex_query s"
  "delimited s \<Longrightarrow> lex_query (ascii ''OR'' @ s) = TOr # lex_query s"
  "delimited s \<Longrightarrow> lex_query (ascii ''NOT'' @ s) = TNot # lex_query s"
  by (subst lex_word; auto simp: ascii_def word_tok_def is_letter_def intro!: letters_no_breaks)+

lemma lex_text:
  assumes "\<forall>t \<in> set (all_terms q). word_ok lower t" "delimited rest"
  shows "lex_query (query_text q @ rest) = query_toks q @ lex_query rest"
  using assms
proof (induction q arbitrary: rest)
  case (QTerm w)
  then have w: "w \<noteq> []" "no_breaks w" "word_tok w = Word w"
    by (auto simp: word_ok_def word_tok_def is_operator_word_def)
  show ?case using lex_word [OF w(1,2) QTerm.prems(2)] w(3) by simp
qed (simp_all add: lex_marks lex_operators delimited_def)

section \<open>Reading it back: the parser\<close>

definition primary_at :: "(bytes \<Rightarrow> bytes) \<Rightarrow> nat \<Rightarrow> clause_parser" where
  "primary_at lower n = parse_primary lower (case n of 0 \<Rightarrow> None | Suc k \<Rightarrow> Some (parse_or lower k))"

lemma parse_or_at: "parse_or lower n = parse_or_with (primary_at lower n)"
  by (cases n) (simp_all add: primary_at_def)

lemma split_once_absent: "sep \<notin> set s \<Longrightarrow> split_once sep s = None"
  by (induction s) auto

lemma no_directive: "0x3A \<notin> set s \<Longrightarrow> server_directive s = None"
  by (simp add: server_directive_def parse_server_directive_def split_once_absent)

lemma word_no_colon: "word_ok lower w \<Longrightarrow> 0x3A \<notin> set w"
  by (auto simp: word_ok_def no_breaks_def is_kad_keyword_separator_def)

lemma query_keywords_word: "word_ok lower w \<Longrightarrow> extract_query_keywords lower w = [w]"
  by (simp add: word_ok_def no_breaks_def extract_query_keywords_def tokenize_keywords_def split_on_none
      keep_word_def)

lemma tokenize_word: "word_ok lower w \<Longrightarrow> tokenize_term lower w = [w]"
  by (simp add: tokenize_term_def no_directive word_no_colon query_keywords_word)

lemma toks_operand: "is_operand (query_toks q @ rest)"
  by (cases q) simp_all

lemma and_loop_read:
  assumes "prim (query_toks q @ rest, dropped) = Some (Some (Search q), (rest, dropped))"
  shows "and_loop prim (ps, ns, wrote) (query_toks q @ rest, dropped) = and_loop prim (ps @ [q], ns, True) (rest, dropped)"
    and "and_loop prim (ps, ns, wrote) (TNot # query_toks q @ rest, dropped)
      = and_loop prim (ps, ns @ [q], wrote) (rest, dropped)"
  by (simp_all add: and_loop_operand [where prim = prim, OF toks_operand assms]
      and_loop_not [where prim = prim, OF assms])

lemma parse_and_read:
  assumes "prim (query_toks q @ rest, dropped) = Some (Some (Search q), (rest, dropped))"
    and "rest = [] \<or> hd rest = TOr \<or> hd rest = RParen"
  shows "parse_and prim (query_toks q @ rest, dropped) = Some (Some (Search q), (rest, dropped))"
  by (simp add: parse_and_def and_loop_read(1) [where prim = prim, OF assms(1)] and_loop_stop [OF assms(2)]
      apply_exclusions_def)

lemma primary_reads:
  assumes "\<forall>t \<in> set (all_terms q). word_ok lower t" "query_height q \<le> n"
  shows "primary_at lower n (query_toks q @ rest, dropped) = Some (Some (Search q), (rest, dropped))"
  using assms
proof (induction q arbitrary: n rest)
  case (QTerm w)
  then show ?case by (cases n) (simp_all add: primary_at_def tokenize_word)
next
  case (QAnd l r)
  then obtain k where n: "n = Suc k" by (cases n) auto
  have reads: "primary_at lower k (query_toks l @ rest', dropped) = Some (Some (Search l), (rest', dropped))"
    "primary_at lower k (query_toks r @ rest', dropped) = Some (Some (Search r), (rest', dropped))" for rest'
    using QAnd n by simp_all
  have "parse_and (primary_at lower k) (query_toks l @ TAnd # query_toks r @ RParen # rest, dropped)
      = Some (Some (Search (QAnd l r)), (RParen # rest, dropped))"
    by (simp add: parse_and_def and_loop_read [where prim = "primary_at lower k", OF reads(1)] and_loop_and
        and_loop_read [where prim = "primary_at lower k", OF reads(2)] and_loop_stop apply_exclusions_def)
  then show ?case
    by (simp add: n primary_at_def [of lower "Suc k"] parse_or_at parse_or_with_def or_loop_stop)
next
  case (QOr l r)
  then obtain k where n: "n = Suc k" by (cases n) auto
  have reads: "primary_at lower k (query_toks l @ rest', dropped) = Some (Some (Search l), (rest', dropped))"
    "primary_at lower k (query_toks r @ rest', dropped) = Some (Some (Search r), (rest', dropped))" for rest'
    using QOr n by simp_all
  have "parse_or_with (primary_at lower k) (query_toks l @ TOr # query_toks r @ RParen # rest, dropped)
      = Some (Some (Search (QOr l r)), (RParen # rest, dropped))"
    by (simp add: parse_or_with_def parse_and_read [where prim = "primary_at lower k", OF reads(1)]
        or_loop_or [where prim = "primary_at lower k",
          OF parse_and_read [where prim = "primary_at lower k", OF reads(2)]] or_loop_stop)
  then show ?case by (simp add: n primary_at_def [of lower "Suc k"] parse_or_at)
next
  case (QNot l r)
  then obtain k where n: "n = Suc k" by (cases n) auto
  have reads: "primary_at lower k (query_toks l @ rest', dropped) = Some (Some (Search l), (rest', dropped))"
    "primary_at lower k (query_toks r @ rest', dropped) = Some (Some (Search r), (rest', dropped))" for rest'
    using QNot n by simp_all
  have "parse_and (primary_at lower k) (query_toks l @ TNot # query_toks r @ RParen # rest, dropped)
      = Some (Some (Search (QNot l r)), (RParen # rest, dropped))"
    by (simp add: parse_and_def and_loop_read [where prim = "primary_at lower k", OF reads(1)]
        and_loop_read [where prim = "primary_at lower k", OF reads(2)] and_loop_stop apply_exclusions_def)
  then show ?case
    by (simp add: n primary_at_def [of lower "Suc k"] parse_or_at parse_or_with_def or_loop_stop)
qed

section \<open>Whole queries\<close>

lemma set_strip_words: "set (strip_words ws s) \<subseteq> set s"
proof (induction ws s rule: strip_words.induct)
  case (1 ws s)
  show ?case
  proof (cases "find (\<lambda>w. w \<noteq> [] \<and> prefix w s) ws")
    case None
    then show ?thesis by (subst strip_words.simps) simp
  next
    case (Some w)
    then have "set (strip_words ws (drop (length w) s)) \<subseteq> set (drop (length w) s)" by (rule 1)
    then show ?thesis using Some set_drop_subset [of "length w" s] by (subst strip_words.simps) auto
  qed
qed

lemma set_trim: "set (trim_str s) \<subseteq> set s"
  unfolding trim_str_def set_rev by (rule subset_trans [OF set_strip_words]) (simp add: set_strip_words)

lemma query_text_no_colon:
  "\<forall>t \<in> set (all_terms q). word_ok lower t \<Longrightarrow> 0x3A \<notin> set (query_text q)"
  by (induction q) (auto simp: word_no_colon ascii_def)

lemma plain_word_no_operators:
  assumes "word_ok lower w"
  shows "\<not> has_operators w"
proof -
  have ne: "w \<noteq> []" and nb: "no_breaks w" using assms by (auto simp: word_ok_def)
  have span: "span_until starts_ws v = (v, [])" if "no_breaks v" for v
    using that
  proof (induction v)
    case (Cons c v)
    have "\<not> starts_ws (c # v)"
      using no_ws_before_delimiter [of "c # v" "[]"] Cons.prems by (simp add: no_breaks_def delimited_def)
    moreover have "no_breaks v" using Cons.prems by (auto simp: no_breaks_def sublist_Cons_right)
    ultimately show ?case using Cons.IH by simp
  qed simp
  have "\<not> starts_ws w"
    using no_ws_before_delimiter [OF ne, of "[]"] nb by (simp add: no_breaks_def delimited_def)
  then have "split_whitespace w = [w]"
    using ne span [OF nb] by (subst split_whitespace.simps) (simp add: split_whitespace.simps [of "[]"])
  moreover have "0x28 \<notin> set w" "0x29 \<notin> set w" "0x22 \<notin> set w" "0x2D \<notin> set w"
    using nb by (auto simp: no_breaks_def is_kad_keyword_separator_def)
  moreover have "\<not> is_server_directive w"
    using word_no_colon [OF assms] by (simp add: is_server_directive_def parse_server_directive_def split_once_absent)
  moreover have "hd w \<in> set w" using ne by simp
  ultimately show ?thesis using assms by (auto simp: has_operators_def word_ok_def)
qed

lemma paren_has_operators: "has_operators (0x28 # s)"
proof -
  obtain w r where "span_until starts_ws s = (w, r)" by (meson surj_pair)
  then have "split_whitespace (0x28 # s) = (0x28 # w) # split_whitespace r"
    by (subst split_whitespace.simps) simp
  then show ?thesis by (simp add: has_operators_def)
qed

lemma parse_query_reads:
  assumes ok: "\<forall>t \<in> set (all_terms q). word_ok lower t" and "query_height q \<le> MAX_PARSE_DEPTH"
    and "length (query_text q) \<le> MAX_QUERY_BYTES"
  shows "parse_query lower (query_text q) = Some (Some q)"
proof -
  have "0x3A \<notin> set (trim_str (query_text q))" using query_text_no_colon [OF ok] set_trim by blast
  then have dir: "server_directive (trim_str (query_text q)) = None" by (rule no_directive)
  have clamp: "clamp_query (query_text q) = query_text q" using assms(3) by (simp add: clamp_query_def)
  show ?thesis
  proof (cases "\<exists>w. q = QTerm w")
    case True
    then show ?thesis using ok clamp dir plain_word_no_operators
      by (auto simp: parse_query_def query_keywords_word)
  next
    case False
    then obtain s where "query_text q = 0x28 # s" by (cases q) auto
    then have ops: "has_operators (query_text q)" by (simp add: paren_has_operators)
    have lexed: "lex_query (query_text q) = query_toks q"
      using lex_text [OF ok, of "[]"] by (simp add: delimited_def lex_marks)
    have read: "primary_at lower MAX_PARSE_DEPTH (query_toks q @ [], False) = Some (Some (Search q), ([], False))"
      by (rule primary_reads [OF ok assms(2)])
    have "parse_or lower MAX_PARSE_DEPTH (query_toks q, False) = Some (Some (Search q), ([], False))"
      using parse_and_read [where prim = "primary_at lower MAX_PARSE_DEPTH", OF read]
      by (simp add: parse_or_at parse_or_with_def or_loop_stop)
    then have "top_loop (parse_or lower MAX_PARSE_DEPTH) ([], []) (query_toks q, False) = Some (([q], []), False)"
      by (subst top_loop.simps) simp
    then show ?thesis using clamp dir ops lexed
      by (simp add: parse_query_def Let_def apply_exclusions_def)
  qed
qed

section \<open>Pieces of a valid string are valid\<close>

lemma split_on_cut: "\<forall>c \<in> set a. \<not> p c \<Longrightarrow> p c \<Longrightarrow> split_on p (a @ c # b) = a # split_on p b"
  by (induction a) auto

lemma valid_utf8_around:
  assumes "valid_utf8 (a @ c # b)" "c < 0x80"
  shows "valid_utf8 a" "valid_utf8 b"
proof -
  have "valid_utf8 a \<and> valid_utf8 (c # b)"
    by (rule valid_utf8_cut) (use assms ascii_not_cont in auto)
  moreover have "valid_utf8 [c]" using assms(2) by (simp add: valid_utf8_ascii)
  ultimately show "valid_utf8 a" "valid_utf8 b" using valid_utf8_rest [of "[c]" b] by simp_all
qed

lemma split_on_valid:
  assumes "valid_utf8 s" "w \<in> set (split_on p s)" "\<And>c. p c \<Longrightarrow> c < 0x80"
  shows "valid_utf8 w"
  using assms(1,2)
proof (induction "length s" arbitrary: s rule: less_induct)
  case less
  show ?case
  proof (cases "\<exists>c \<in> set s. p c")
    case True
    then obtain a c b where s: "s = a @ c # b" "p c" "\<forall>c \<in> set a. \<not> p c"
      by (metis split_list_first_prop)
    then have "valid_utf8 a" "valid_utf8 b" using less.prems(1) valid_utf8_around assms(3) by blast+
    then show ?thesis using less.hyps [of b] less.prems(2) s by (auto simp: split_on_cut)
  next
    case False
    then show ?thesis using less.prems split_on_none [of s p] by simp
  qed
qed

lemma span_until_parts: "span_until stop s = (w, r) \<Longrightarrow> s = w @ r \<and> (r = [] \<or> stop r)"
  by (induction s arbitrary: w) (auto simp: Let_def split: if_splits prod.splits)

lemma encodings_valid: "e \<in> set whitespace_encodings \<Longrightarrow> valid_utf8 e"
proof -
  have "list_all valid_utf8 whitespace_encodings"
    by (simp add: whitespace_encodings_def valid_utf8.simps utf8_step.simps second_ok3_def safe_get_def is_cont_def)
  then show "e \<in> set whitespace_encodings \<Longrightarrow> valid_utf8 e" by (simp add: list_all_iff)
qed

lemma encodings_head: "e \<in> set whitespace_encodings \<Longrightarrow> \<not> is_cont (hd e)"
  by (auto simp: whitespace_encodings_def is_cont_def)

lemma starts_wsE:
  assumes "starts_ws s"
  obtains e where "e \<in> set whitespace_encodings" "s = e @ drop (ws_len s) s" "e \<noteq> []"
proof -
  obtain e where e: "find (\<lambda>w. prefix w s) whitespace_encodings = Some e"
    using assms by (cases "find (\<lambda>w. prefix w s) whitespace_encodings") (auto simp: starts_ws_def ws_len_def)
  then have "e \<in> set whitespace_encodings" "prefix e s" by (auto simp: find_Some_iff)
  then show thesis using that [of e] e encodings_nonempty by (auto simp: ws_len_def prefix_def)
qed

lemma starts_ws_head: "starts_ws s \<Longrightarrow> \<not> is_cont (hd s)"
  using encodings_head by (metis hd_append2 starts_wsE)

lemma word_stop_head: "word_stop s \<Longrightarrow> \<not> is_cont (hd s)"
  using starts_ws_head by (auto simp: word_stop_def is_cont_def)

lemma drop_ws_valid: "valid_utf8 s \<Longrightarrow> starts_ws s \<Longrightarrow> valid_utf8 (drop (ws_len s) s)"
  using valid_utf8_rest encodings_valid by (metis starts_wsE)

lemma tl_valid: "valid_utf8 s \<Longrightarrow> hd s < 0x80 \<Longrightarrow> valid_utf8 (tl s)"
  using valid_utf8_around(2) [of "[]" "hd s" "tl s"] by (cases s) auto

lemma span_valid:
  assumes "valid_utf8 s" "span_until stop s = (w, r)" "\<And>r. stop r \<Longrightarrow> \<not> is_cont (hd r)"
  shows "valid_utf8 w" "valid_utf8 r"
proof -
  have "s = w @ r" "r = [] \<or> \<not> is_cont (hd r)" using span_until_parts [OF assms(2)] assms(3) by auto
  then show "valid_utf8 w" "valid_utf8 r" using valid_utf8_cut assms(1) by blast+
qed

lemma word_tok_ok: "P w \<Longrightarrow> tok_ok P (word_tok w)"
  by (simp add: word_tok_def)

lemma lex_valid: "valid_utf8 s \<Longrightarrow> list_all (tok_ok valid_utf8) (lex_query s)"
proof (induction s rule: lex_query.induct)
  case (1 s)
  obtain p r where phrase: "span_until (\<lambda>s. hd s = 0x22) (tl s) = (p, r)" by (meson surj_pair)
  obtain w v where word: "span_until word_stop s = (w, v)" by (meson surj_pair)
  consider "s = []" | (ws) "s \<noteq> []" "starts_ws s" | (lparen) "s \<noteq> []" "\<not> starts_ws s" "hd s = 0x28"
    | (rparen) "s \<noteq> []" "\<not> starts_ws s" "hd s = 0x29"
    | (quote) "s \<noteq> []" "\<not> starts_ws s" "hd s = 0x22" | (dash) "s \<noteq> []" "\<not> starts_ws s" "hd s = 0x2D"
    | (letters) "s \<noteq> []" "\<not> starts_ws s" "hd s \<noteq> 0x28" "hd s \<noteq> 0x29" "hd s \<noteq> 0x22" "hd s \<noteq> 0x2D" by blast
  then show ?case
  proof cases
    case ws
    then show ?thesis using "1.IH"(1) drop_ws_valid [OF "1.prems"] by (subst lex_query.simps) simp
  next
    case lparen
    then have "valid_utf8 (tl s)" using tl_valid [OF "1.prems"] by simp
    then show ?thesis using lparen "1.IH"(2) by (subst lex_query.simps) simp
  next
    case rparen
    then have "valid_utf8 (tl s)" using tl_valid [OF "1.prems"] by simp
    then show ?thesis using rparen "1.IH"(3) by (subst lex_query.simps) simp
  next
    case quote
    have rest: "valid_utf8 (tl s)" using tl_valid [OF "1.prems"] quote by simp
    have "\<not> is_cont (hd x)" if "hd x = 0x22" for x using that by (simp add: is_cont_def)
    then have v: "valid_utf8 p" "valid_utf8 r" using span_valid [OF rest phrase] by blast+
    have "r = [] \<or> hd r = 0x22" using span_until_parts [OF phrase] by simp
    then have "valid_utf8 (tl r)" using v(2) tl_valid [of r] by auto
    then show ?thesis using quote phrase "1.IH"(4) v(1) by (subst lex_query.simps) simp
  next
    case dash
    then have v: "valid_utf8 (tl s)" and hd: "hd s \<noteq> 0x28" "hd s \<noteq> 0x29" "hd s \<noteq> 0x22"
      using tl_valid [OF "1.prems"] by simp_all
    have "list_all (tok_ok valid_utf8) (lex_query (tl s))"
      using "1.IH"(5,6) [OF dash(1,2) hd dash(3) _ v] by blast
    then show ?thesis using dash hd by (subst lex_query.simps) simp
  next
    case letters
    have "valid_utf8 w" "valid_utf8 v" using span_valid [OF "1.prems" word word_stop_head] by blast+
    then show ?thesis using letters word "1.IH"(7) word_tok_ok [of valid_utf8 w] by (subst lex_query.simps) simp
  qed (simp add: lex_marks)
qed

lemma back_off_boundary: "is_char_boundary s (back_off s n)"
  by (induction n) (simp_all add: is_char_boundary_def)

lemma clamp_valid: "valid_utf8 s \<Longrightarrow> valid_utf8 (clamp_query s)"
proof -
  assume s: "valid_utf8 s"
  have "valid_utf8 (take e s)" if "is_char_boundary s e" for e
  proof -
    have "drop e s = [] \<or> \<not> is_cont (hd (drop e s)) \<or> e = 0"
      using that by (auto simp: is_char_boundary_def hd_drop_conv_nth)
    then show ?thesis using valid_utf8_cut [of "take e s" "drop e s"] s by auto
  qed
  then show ?thesis using s back_off_boundary by (simp add: clamp_query_def)
qed

lemma join_valid: "\<forall>w \<in> set ws. valid_utf8 w \<Longrightarrow> valid_utf8 (join [0x20] ws)"
proof (induction "[0x20] :: bytes" ws rule: join.induct)
  case (3 w v ws)
  have "valid_utf8 [0x20]" by (simp add: valid_utf8_ascii)
  then have "valid_utf8 ([0x20] @ join [0x20] (v # ws))" using 3 valid_utf8_append [of "[0x20]" "join [0x20] (v # ws)"] by simp
  then show ?case using 3 valid_utf8_append [of w "[0x20] @ join [0x20] (v # ws)"] by simp
qed simp_all

interpretation any_text: query_pieces "\<lambda>_. True"
proof
  fix s
  have "tok_ok (\<lambda>_. True) t" for t by (cases t) simp_all
  then show "list_all (tok_ok (\<lambda>_. True)) (lex_query s)" by (simp add: list_all_iff)
qed simp_all

interpretation utf8_text: query_pieces valid_utf8
proof
  show "valid_utf8 s \<Longrightarrow> w \<in> set (split_on is_kad_keyword_separator s) \<Longrightarrow> valid_utf8 w" for s w
    by (rule split_on_valid [of s w is_kad_keyword_separator]) (auto simp: is_kad_keyword_separator_def)
qed (simp_all add: join_valid lex_valid clamp_valid)

section \<open>Server directives are canonical\<close>

definition hash_text :: "bytes list \<Rightarrow> bytes" where
  "hash_text hs = concat (map (\<lambda>h. [0x3A, 0x3A] @ h) hs)"

lemma hash_text_simps [simp]: "hash_text [] = []" "hash_text (h # hs) = [0x3A, 0x3A] @ h @ hash_text hs"
  by (simp_all add: hash_text_def)

lemma foldl_hash_text: "foldl (\<lambda>t h. t @ 0x3A # 0x3A # h) t hs = t @ hash_text hs"
  by (induction hs arbitrary: t) simp_all

definition hash_ok :: "bytes \<Rightarrow> bool" where
  "hash_ok h \<longleftrightarrow> is_md4_hex h \<and> map ascii_upper h = h"

lemma hash_no_colon: "hash_ok h \<Longrightarrow> 0x3A \<notin> set h" "hash_ok h \<Longrightarrow> h \<noteq> []"
  by (auto simp: hash_ok_def is_md4_hex_def is_ascii_hexdigit_def is_ascii_digit_def list_all_iff)

lemma ascii_upper_idem: "ascii_upper (ascii_upper c) = ascii_upper c"
  by (auto simp: ascii_upper_def word_le_nat_alt unat_sub word_less_nat_alt)

lemma split_hash_text:
  assumes "0x3A \<notin> set w" "list_all hash_ok hs"
  shows "\<exists>fs. split_on (\<lambda>c. c = 0x3A) (w @ hash_text hs) = w # fs \<and> filter (\<lambda>f. f \<noteq> []) fs = hs"
  using assms
proof (induction hs arbitrary: w)
  case Nil
  then have "split_on (\<lambda>c. c = 0x3A) w = [w]" by (intro split_on_none) auto
  then show ?case by simp
next
  case (Cons h hs)
  have h: "0x3A \<notin> set h" "h \<noteq> []" using Cons.prems(2) hash_no_colon by auto
  obtain fs where fs: "split_on (\<lambda>c. c = 0x3A) (h @ hash_text hs) = h # fs" "filter (\<lambda>f. f \<noteq> []) fs = hs"
    using Cons.IH [OF h(1)] Cons.prems(2) by auto
  have "split_on (\<lambda>c. c = 0x3A) (w @ 0x3A # 0x3A # h @ hash_text hs) = w # [] # h # fs"
    using Cons.prems(1) fs(1) by (subst split_on_cut) auto
  then show ?case using fs(2) h(2) by auto
qed

lemma split_once_cut: "0x3A \<notin> set a \<Longrightarrow> split_once 0x3A (a @ 0x3A # b) = Some (a, b)"
  by (induction a) auto

definition directive_ok :: "server_directive_parts \<Rightarrow> bool" where
  "directive_ok d \<longleftrightarrow> (directive_name d = ascii ''related'' \<or> directive_name d = ascii ''ed2k'')
     \<and> list_all is_ascii_digit (directive_size d) \<and> directive_hashes d \<noteq> [] \<and> list_all hash_ok (directive_hashes d)"

lemma uppers_ok:
  "list_all is_md4_hex (map (map ascii_upper) fs) \<Longrightarrow> list_all hash_ok (map (map ascii_upper) fs)"
  by (induction fs) (auto simp: hash_ok_def ascii_upper_idem)

lemma parse_directive_ok: "parse_server_directive raw = Some d \<Longrightarrow> directive_ok d"
  unfolding parse_server_directive_def directive_ok_def
  by (auto simp: Let_def simp del: list.pred_map dest!: uppers_ok split: option.splits list.splits if_splits)

lemma server_directive_text:
  "server_directive raw = Some t \<longleftrightarrow> (\<exists>d. parse_server_directive raw = Some d \<and>
     t = (if directive_size d \<noteq> []
          then directive_name d @ [0x3A] @ directive_size d @ [0x3A] @ hd (directive_hashes d)
            @ hash_text (tl (directive_hashes d))
          else directive_name d @ hash_text (directive_hashes d)))"
  by (cases "parse_server_directive raw")
     (simp_all add: server_directive_def foldl_hash_text eq_commute [of t])

lemma directive_reparsed:
  assumes "server_directive raw = Some t" "parse_server_directive raw = Some d"
  shows "parse_server_directive t = Some d"
proof -
  have ok: "directive_ok d" by (rule parse_directive_ok [OF assms(2)])
  then obtain h hs where hs: "directive_hashes d = h # hs" "hash_ok h" "list_all hash_ok hs"
    by (cases "directive_hashes d") (auto simp: directive_ok_def)
  have name: "0x3A \<notin> set (directive_name d)" "map ascii_lower (directive_name d) = directive_name d"
    using ok by (auto simp: directive_ok_def ascii_def ascii_lower_def)
  have digits: "list_all is_ascii_digit (directive_size d)" using ok by (simp add: directive_ok_def)
  then have size: "\<forall>c \<in> set (directive_size d). c \<noteq> 0x3A" by (auto simp: list_all_iff is_ascii_digit_def)
  obtain fs where fs: "split_on (\<lambda>c. c = 0x3A) (h @ hash_text hs) = h # fs" "filter (\<lambda>f. f \<noteq> []) fs = hs"
    using split_hash_text [OF hash_no_colon(1) [OF hs(2)] hs(3)] by auto
  have upper: "map (map ascii_upper) (filter (\<lambda>f. f \<noteq> []) (h # fs)) = h # hs"
    using fs(2) hs(2,3) hash_no_colon(2) by (auto simp: hash_ok_def list_all_iff map_idI)
  have "split_on (\<lambda>c. c = 0x3A) (directive_size d @ 0x3A # h @ hash_text hs) = directive_size d # h # fs"
    using split_on_cut [OF size, of "0x3A"] fs(1) by simp
  moreover have "t = directive_name d @ 0x3A # directive_size d @ 0x3A # h @ hash_text hs"
    using assms hs(1) by (auto simp: server_directive_text)
  moreover have "list_all is_md4_hex (h # hs)" using hs(2,3) by (auto simp: hash_ok_def list_all_iff)
  ultimately show ?thesis
    using name split_once_cut upper digits ok hs(1)
    by (auto simp: parse_server_directive_def directive_ok_def Let_def)
qed

lemma server_directive_is:
  assumes "server_directive raw = Some t"
  shows "is_server_directive t"
proof -
  obtain d where "parse_server_directive raw = Some d" using assms by (auto simp only: server_directive_text)
  then show ?thesis using directive_reparsed [OF assms] by (simp add: is_server_directive_def)
qed

section \<open>The keywords of a typed query\<close>

text \<open>
  What is assumed of \<^verbatim>\<open>kad_keyword_lowercase\<close>: it maps strings to strings, twice is once, and it
  neither empties a word nor introduces a separator.
\<close>

definition lowering :: "(bytes \<Rightarrow> bytes) \<Rightarrow> bool" where
  "lowering lower \<longleftrightarrow> (\<forall>w. valid_utf8 w \<longrightarrow> valid_utf8 (lower w) \<and> lower (lower w) = lower w
     \<and> (w \<noteq> [] \<longrightarrow> lower w \<noteq> [])
     \<and> ((\<forall>c \<in> set w. \<not> is_kad_keyword_separator c) \<longrightarrow> (\<forall>c \<in> set (lower w). \<not> is_kad_keyword_separator c)))"

lemma contains_directive_terms:
  "contains_server_directive q \<longleftrightarrow> (\<exists>t \<in> set (all_terms q). is_server_directive t)"
  by (induction q) auto

lemma typed_keywords:
  assumes "lowering lower" "valid_utf8 text" "parse_query lower text = Some (Some q)"
    and "\<not> contains_server_directive q" "t \<in> set (all_terms q)" "length t \<le> 1024"
  shows "keyword_ok lower t"
proof -
  have "parsed_ok valid_utf8 lower q"
    using utf8_text.parse_query_returns [OF assms(2), of lower] assms(3) by auto
  then have "parsed_term valid_utf8 lower t" using assms(5) by (simp add: parsed_ok_def)
  moreover have "server_directive raw \<noteq> Some t" for raw
    using server_directive_is assms(4,5) contains_directive_terms by blast
  ultimately obtain w where "t = lower w" "valid_utf8 w" "3 \<le> length w" "\<forall>c \<in> set w. \<not> is_kad_keyword_separator c"
    by (auto simp: parsed_term_def)
  then show ?thesis using assms(1,6) unfolding lowering_def keyword_ok_def by auto
qed

section \<open>Properties\<close>

text \<open>
  C12: parsing a query ends. For every text and every way of lower-casing, the lexer, the loops of
  the boolean parser and the fallback return a result; the recursion on parentheses stops at
  its depth limit.
\<close>

theorem parse_query_total: "\<exists>r. parse_query lower query = Some r"
  using any_text.parse_query_returns [of lower query] by auto

text \<open>
  C11: every query can be written, and is read as written. The fully parenthesised text of a
  tree, with its operators spelled out, parses to that tree, provided its words are keywords
  of at least three bytes in lower case, not operators, without separators and white space,
  the tree is at most 64 deep and the text at most 16384 bytes long.
\<close>

theorem query_text_round_trip:
  assumes "\<forall>t \<in> set (all_terms q). word_ok lower t" "query_height q \<le> 64" "length (query_text q) \<le> 16384"
  shows "parse_query lower (query_text q) = Some (Some q)"
  using parse_query_reads [OF assms(1)] assms(2,3) by (simp add: MAX_PARSE_DEPTH_def MAX_QUERY_BYTES_def)

text \<open>\<^verbatim>\<open>((foo OR bar) NOT cam)\<close>\<close>

definition sample_tree_query :: query_expr where
  "sample_tree_query = QNot (QOr (QTerm (ascii ''foo'')) (QTerm (ascii ''bar''))) (QTerm (ascii ''cam''))"

theorem query_text_round_trip_witness:
  "parse_query (\<lambda>s. s) (ascii ''((foo OR bar) NOT cam)'') = Some (Some sample_tree_query)"
proof -
  have "query_text sample_tree_query = ascii ''((foo OR bar) NOT cam)''"
    by (simp add: sample_tree_query_def ascii_def)
  moreover have "\<forall>t \<in> set (all_terms sample_tree_query). word_ok (\<lambda>s. s) t"
    by (auto simp: sample_tree_query_def word_ok_def is_operator_word_def ascii_def is_letter_def
        intro!: letters_no_breaks)
  moreover have "query_height sample_tree_query \<le> 64" by (simp add: sample_tree_query_def)
  moreover have "length (ascii ''((foo OR bar) NOT cam)'') \<le> 16384" by (simp add: ascii_def)
  ultimately show ?thesis using query_text_round_trip [of sample_tree_query "\<lambda>s. s"] by simp
qed

end
