(* ===== verification/Net_Address.thy ===== *)
theory Net_Address
  imports Kad_Contact
begin

text \<open>
  Classification of IPv4 addresses: the special-use predicates of
  \<^verbatim>\<open>src-tauri/src/security/mod.rs\<close>, the admission predicates of
  \<^verbatim>\<open>src-tauri/src/network/kad/ip_filter.rs\<close>, the default bootstrap seeds of
  \<^verbatim>\<open>kad/bootstrap.rs\<close> and the routing table's \<^verbatim>\<open>subnet_key\<close>. \<open>octet ip i\<close> is the
  \<open>i\<close>-th octet of the dotted notation; the predicates of \<^verbatim>\<open>std::net::Ipv4Addr\<close> the source
  calls are defined first.
\<close>

unbundle bit_operations_syntax

definition octet :: "ipv4 \<Rightarrow> nat \<Rightarrow> u8" where
  "octet ip i = ucast (drop_bit (24 - 8 * i) ip)"

definition v4 :: "u8 \<Rightarrow> u8 \<Rightarrow> u8 \<Rightarrow> u8 \<Rightarrow> ipv4" where
  "v4 a b c d = push_bit 24 (ucast a) OR push_bit 16 (ucast b) OR push_bit 8 (ucast c) OR ucast d"

section \<open>Predicates of the standard library\<close>

definition is_loopback :: "ipv4 \<Rightarrow> bool" where
  "is_loopback ip \<longleftrightarrow> octet ip 0 = 127"

definition is_private :: "ipv4 \<Rightarrow> bool" where
  "is_private ip \<longleftrightarrow> octet ip 0 = 10
     \<or> octet ip 0 = 172 \<and> 16 \<le> octet ip 1 \<and> octet ip 1 \<le> 31
     \<or> octet ip 0 = 192 \<and> octet ip 1 = 168"

definition is_link_local :: "ipv4 \<Rightarrow> bool" where
  "is_link_local ip \<longleftrightarrow> octet ip 0 = 169 \<and> octet ip 1 = 254"

definition is_unspecified :: "ipv4 \<Rightarrow> bool" where
  "is_unspecified ip \<longleftrightarrow> ip = 0"

definition is_broadcast :: "ipv4 \<Rightarrow> bool" where
  "is_broadcast ip \<longleftrightarrow> ip = 0xFFFFFFFF"

definition is_multicast :: "ipv4 \<Rightarrow> bool" where
  "is_multicast ip \<longleftrightarrow> 224 \<le> octet ip 0 \<and> octet ip 0 \<le> 239"

section \<open>Special-use classification\<close>

definition is_this_network_v4 :: "ipv4 \<Rightarrow> bool" where
  "is_this_network_v4 ip \<longleftrightarrow> octet ip 0 = 0"

definition is_reserved_future_v4 :: "ipv4 \<Rightarrow> bool" where
  "is_reserved_future_v4 ip \<longleftrightarrow> 240 \<le> octet ip 0"

definition is_shared_address :: "ipv4 \<Rightarrow> bool" where
  "is_shared_address ip \<longleftrightarrow> octet ip 0 = 100 \<and> octet ip 1 AND 0xC0 = 64"

definition is_documentation_v4 :: "ipv4 \<Rightarrow> bool" where
  "is_documentation_v4 ip \<longleftrightarrow>
     octet ip 0 = 192 \<and> octet ip 1 = 0 \<and> octet ip 2 = 2
     \<or> octet ip 0 = 198 \<and> octet ip 1 = 51 \<and> octet ip 2 = 100
     \<or> octet ip 0 = 203 \<and> octet ip 1 = 0 \<and> octet ip 2 = 113"

definition is_benchmarking_v4 :: "ipv4 \<Rightarrow> bool" where
  "is_benchmarking_v4 ip \<longleftrightarrow> octet ip 0 = 198 \<and> octet ip 1 AND 0xFE = 18"

definition is_protocol_assignment_v4 :: "ipv4 \<Rightarrow> bool" where
  "is_protocol_assignment_v4 ip \<longleftrightarrow> octet ip 0 = 192 \<and> octet ip 1 = 0 \<and> octet ip 2 = 0"

definition is_6to4_relay_anycast_v4 :: "ipv4 \<Rightarrow> bool" where
  "is_6to4_relay_anycast_v4 ip \<longleftrightarrow> octet ip 0 = 192 \<and> octet ip 1 = 88 \<and> octet ip 2 = 99"

definition is_special_use_v4 :: "ipv4 \<Rightarrow> bool" where
  "is_special_use_v4 ip \<longleftrightarrow>
     is_loopback ip \<or> is_private ip \<or> is_link_local ip \<or> is_unspecified ip \<or> is_broadcast ip
     \<or> is_multicast ip \<or> is_this_network_v4 ip \<or> is_reserved_future_v4 ip
     \<or> is_shared_address ip \<or> is_documentation_v4 ip \<or> is_benchmarking_v4 ip
     \<or> is_protocol_assignment_v4 ip \<or> is_6to4_relay_anycast_v4 ip"

definition is_lan_or_cgnat_v4 :: "ipv4 \<Rightarrow> bool" where
  "is_lan_or_cgnat_v4 ip \<longleftrightarrow> is_private ip \<or> is_link_local ip \<or> is_shared_address ip"

definition is_bogus_v4 :: "ipv4 \<Rightarrow> bool" where
  "is_bogus_v4 ip \<longleftrightarrow> is_special_use_v4 ip \<and> \<not> is_lan_or_cgnat_v4 ip"

definition is_lan_ip :: "ipv4 \<Rightarrow> bool" where
  "is_lan_ip ip \<longleftrightarrow> is_private ip \<or> is_loopback ip \<or> is_link_local ip"

definition is_valid_contact_ip :: "ipv4 \<Rightarrow> bool \<Rightarrow> bool" where
  "is_valid_contact_ip ip block_private =
     (if is_bogus_v4 ip then False
      else if block_private \<and> is_lan_or_cgnat_v4 ip then False
      else True)"

definition is_default_bootstrap_ip :: "ipv4 \<Rightarrow> bool" where
  "is_default_bootstrap_ip ip \<longleftrightarrow>
     ip \<in> {v4 212 63 206 35, v4 82 141 38 69, v4 212 63 206 36, v4 94 23 196 180, v4 95 217 44 50}"

definition subnet_key :: "ipv4 \<Rightarrow> u32" where
  "subnet_key ip = v4 (octet ip 0) (octet ip 1) (octet ip 2) 0"

lemmas address_defs =
  is_loopback_def is_private_def is_link_local_def is_unspecified_def is_broadcast_def
  is_multicast_def is_this_network_v4_def is_reserved_future_v4_def is_shared_address_def
  is_documentation_v4_def is_benchmarking_v4_def is_protocol_assignment_v4_def
  is_6to4_relay_anycast_v4_def

section \<open>Lemmas\<close>

lemma octet_v4 [simp]:
  "octet (v4 a b c d) 0 = a" "octet (v4 a b c d) 1 = b" "octet (v4 a b c d) (Suc 0) = b"
  "octet (v4 a b c d) 2 = c" "octet (v4 a b c d) 3 = d"
  by (rule bit_word_eqI, auto simp: octet_def v4_def bit_simps dest: bit_imp_le_length)+

lemma subnet_key_octets:
  "subnet_key a = subnet_key b \<longleftrightarrow>
     octet a 0 = octet b 0 \<and> octet a 1 = octet b 1 \<and> octet a 2 = octet b 2"
  unfolding subnet_key_def by (metis octet_v4)

text \<open>Whether an address is a LAN address depends on its /24 only.\<close>

lemma is_lan_ip_subnet: "subnet_key a = subnet_key b \<Longrightarrow> is_lan_ip a = is_lan_ip b"
  by (simp add: subnet_key_octets is_lan_ip_def address_defs)

lemma bogus_or_lan: "is_special_use_v4 ip \<longleftrightarrow> is_bogus_v4 ip \<or> is_lan_or_cgnat_v4 ip"
  by (auto simp: is_bogus_v4_def is_lan_or_cgnat_v4_def is_special_use_v4_def)

lemma seeds_admissible:
  "is_default_bootstrap_ip ip \<Longrightarrow> \<not> is_special_use_v4 ip"
  by (auto simp: is_default_bootstrap_ip_def is_special_use_v4_def address_defs)
     (simp_all add: v4_def)

text \<open>An address is its four octets, so a /24 holds at most 256 addresses.\<close>

lemma octets_eq:
  assumes "\<forall>i<4. octet a i = octet b i"
  shows "a = b"
proof (rule bit_word_eqI)
  fix n assume n: "n < LENGTH(32)"
  define q where "q = n div 8"
  have "q \<le> 3" "8 * q + n mod 8 = n" using n by (simp_all add: q_def)
  then have "bit (octet w (3 - q)) (n mod 8) = bit w n" for w
    by (simp add: octet_def bit_simps right_diff_distrib')
  moreover have "octet a (3 - q) = octet b (3 - q)" using assms by simp
  ultimately show "bit a n = bit b n" by metis
qed

lemma same_subnet_bound:
  assumes "distinct ips" "\<forall>ip \<in> set ips. subnet_key ip = s"
  shows "length ips \<le> 256"
proof -
  have "inj_on (\<lambda>ip. octet ip 3) (set ips)"
  proof (rule inj_onI)
    fix a b assume "a \<in> set ips" "b \<in> set ips" and last: "octet a 3 = octet b 3"
    then have "octet a 0 = octet b 0 \<and> octet a 1 = octet b 1 \<and> octet a 2 = octet b 2"
      using assms(2) subnet_key_octets by metis
    moreover have "i = 0 \<or> i = 1 \<or> i = 2 \<or> i = 3" if "i < 4" for i :: nat using that by auto
    ultimately show "a = b" using last by (intro octets_eq) blast
  qed
  then have "card (set ips) \<le> card (UNIV :: u8 set)" by (metis card_inj_on_le finite subset_UNIV)
  then show ?thesis using assms(1) by (simp add: distinct_card card_word)
qed

end
