(* ===== verification/Ip_Filter.thy ===== *)
theory Ip_Filter
  imports Net_Address Utf8
begin

text \<open>
  The IP range filter of \<^verbatim>\<open>src-tauri/src/network/kad/ip_filter.rs\<close>: the range list with
  its merge, insertion and removal operations, the block checks on the live filter and
  on the shared snapshot, the exchange of hit counters between the two, and the
  PeerGuardian binary (\<^verbatim>\<open>.p2b\<close>) parser. \<^verbatim>\<open>AtomicU64\<close> counters are 64-bit words and wrap;
  a lock guard is the value it guards. Reading files and the text formats are not
  modelled.
\<close>

unbundle bit_operations_syntax

section \<open>State\<close>

record ip_range =
  r_start :: u32
  r_end :: u32
  description :: bytes
  access_level :: u32
  hits :: u64

record ip_filter =
  blocked_ranges :: "ip_range list"
  permit_ranges :: "ip_range list"
  enabled :: bool
  block_private :: bool
  ranges_ready :: bool
  loaded_from_disk :: bool
  total_range_hits :: u64
  total_special_hits :: u64

record ip_filter_snapshot =
  s_ranges :: "(u32 \<times> u32) list"
  s_range_hits :: "u64 list"
  s_enabled :: bool
  s_block_private :: bool
  s_ranges_ready :: bool
  s_hit_counter :: u64
  s_special_hit_counter :: u64

definition new_range :: "u32 \<Rightarrow> u32 \<Rightarrow> bytes \<Rightarrow> ip_range" where
  "new_range s e d = \<lparr>r_start = s, r_end = e, description = d, access_level = 0, hits = 0\<rparr>"

definition add_hits :: "u64 \<Rightarrow> ip_range \<Rightarrow> ip_range" where
  "add_hits n r = (if 0 < n then r\<lparr>hits := hits r + n\<rparr> else r)"

definition new_filter :: "bool \<Rightarrow> bool \<Rightarrow> ip_filter" where
  "new_filter en bp = \<lparr>blocked_ranges = [], permit_ranges = [], enabled = en,
     block_private = bp, ranges_ready = (\<not> en), loaded_from_disk = False,
     total_range_hits = 0, total_special_hits = 0\<rparr>"

section \<open>Binary search\<close>

text \<open>
  \<^verbatim>\<open>slice::binary_search_by\<close> of the standard library, on the comparison of a range with
  the wanted address that the filter passes to it.
\<close>

definition range_cmp :: "u32 \<Rightarrow> u32 \<times> u32 \<Rightarrow> ordering" where
  "range_cmp ip r = (if ip < fst r then Greater else if snd r < ip then Less else Equal)"

function bsearch :: "('a \<Rightarrow> ordering) \<Rightarrow> 'a list \<Rightarrow> nat \<Rightarrow> nat \<Rightarrow> nat option" where
  "bsearch f xs left right =
     (if left < right
      then let mid = left + (right - left) div 2
           in case f (xs ! mid) of
                Equal \<Rightarrow> Some mid
              | Less \<Rightarrow> bsearch f xs (mid + 1) right
              | Greater \<Rightarrow> bsearch f xs left mid
      else None)"
  by pat_completeness auto
termination
  by (relation "measure (\<lambda>(f, xs, left, right). right - left)") auto

declare bsearch.simps [simp del]

definition binary_search_by :: "('a \<Rightarrow> ordering) \<Rightarrow> 'a list \<Rightarrow> nat option" where
  "binary_search_by f xs = bsearch f xs 0 (length xs)"

abbreviation span :: "ip_range \<Rightarrow> u32 \<times> u32" where
  "span r \<equiv> (r_start r, r_end r)"

section \<open>Range list operations\<close>

definition sat_succ :: "u32 \<Rightarrow> u32" where
  "sat_succ w = (if w = 0xFFFFFFFF then w else w + 1)"

definition merge_step :: "ip_range list \<Rightarrow> ip_range \<Rightarrow> ip_range list" where
  "merge_step merged r =
     (let l = last merged
      in if r_start r \<le> sat_succ (r_end l)
         then let l1 = l\<lparr>r_end := max (r_end l) (r_end r)\<rparr>;
                  l2 = (if description l1 = [] \<and> description r \<noteq> []
                        then l1\<lparr>description := description r\<rparr> else l1)
              in butlast merged @ [add_hits (hits r) l2]
         else merged @ [r])"

definition merge_overlapping :: "ip_range list \<Rightarrow> ip_range list" where
  "merge_overlapping rs = (if length rs \<le> 1 then rs else foldl merge_step [hd rs] (tl rs))"

definition commit_ranges :: "ip_range list \<Rightarrow> ip_filter \<Rightarrow> nat \<times> ip_filter" where
  "commit_ranges new_ranges f =
     (let saved_hits = map_of (rev (map (\<lambda>r. (span r, hits r))
                         (filter (\<lambda>r. 0 < hits r) (blocked_ranges f))));
          merged = merge_overlapping (sort_key r_start new_ranges);
          restored = map (\<lambda>r. case saved_hits (span r) of
                               Some h \<Rightarrow> r\<lparr>hits := h\<rparr> | None \<Rightarrow> r) merged
      in (length restored,
          f\<lparr>blocked_ranges := restored, ranges_ready := True, loaded_from_disk := True\<rparr>))"

definition replace_permit_ranges :: "ip_range list \<Rightarrow> ip_filter \<Rightarrow> ip_filter" where
  "replace_permit_ranges permits f = f\<lparr>permit_ranges := sort_key r_start permits\<rparr>"

definition add_range :: "ipv4 \<Rightarrow> ipv4 \<Rightarrow> bytes \<Rightarrow> ip_filter \<Rightarrow> bool \<times> ip_filter" where
  "add_range s e d f =
     (if e < s then (False, f)
      else (True, f\<lparr>blocked_ranges := merge_overlapping
              (sort_key r_start (blocked_ranges f @ [new_range s e d]))\<rparr>))"

text \<open>
  \<^verbatim>\<open>remove_range\<close> parses its two textual addresses first; \<open>None\<close> is a parse failure.
\<close>

definition remove_range :: "ipv4 option \<Rightarrow> ipv4 option \<Rightarrow> ip_filter \<Rightarrow> bool \<times> ip_filter" where
  "remove_range start_ip end_ip f =
     (case start_ip of None \<Rightarrow> (False, f)
      | Some s \<Rightarrow> (case end_ip of None \<Rightarrow> (False, f)
         | Some e \<Rightarrow>
             let before = length (blocked_ranges f);
                 kept = filter (\<lambda>r. r_start r \<noteq> s \<or> r_end r \<noteq> e) (blocked_ranges f)
             in (length kept < before, f\<lparr>blocked_ranges := kept\<rparr>)))"

definition cut_range :: "u32 \<Rightarrow> u32 \<Rightarrow> ip_range \<Rightarrow> ip_range list" where
  "cut_range s e r =
     (if r_end r < s \<or> e < r_start r then [r]
      else (if r_start r < s then [r\<lparr>r_end := s - 1\<rparr>] else [])
         @ (if e < r_end r then [r\<lparr>r_start := e + 1\<rparr>] else []))"

definition remove_ranges_within :: "u32 \<Rightarrow> u32 \<Rightarrow> ip_filter \<Rightarrow> bool \<times> ip_filter" where
  "remove_ranges_within s e f =
     (if e < s then (False, f)
      else (\<exists>r \<in> set (blocked_ranges f). \<not> (r_end r < s \<or> e < r_start r),
            f\<lparr>blocked_ranges := concat (map (cut_range s e) (blocked_ranges f))\<rparr>))"

text \<open>\<^verbatim>\<open>dedup_by\<close>: drop each element equal to the one kept before it.\<close>

fun dedup_spans :: "ip_range list \<Rightarrow> ip_range list" where
  "dedup_spans (a # b # rs) =
     (if span b = span a then dedup_spans (a # rs) else a # dedup_spans (b # rs))"
| "dedup_spans rs = rs"

definition merge_ranges_from :: "ip_filter \<Rightarrow> ip_filter \<Rightarrow> ip_filter" where
  "merge_ranges_from other f =
     (let f1 = (if blocked_ranges other \<noteq> []
                then f\<lparr>blocked_ranges := merge_overlapping
                        (sort_key r_start (blocked_ranges f @ blocked_ranges other))\<rparr>
                else f)
      in if permit_ranges other \<noteq> []
         then f1\<lparr>permit_ranges := dedup_spans
                   (sort_key r_start (permit_ranges f1 @ permit_ranges other))\<rparr>
         else f1)"

definition set_enabled :: "bool \<Rightarrow> ip_filter \<Rightarrow> ip_filter" where
  "set_enabled en f =
     (if \<not> en then f\<lparr>enabled := en, ranges_ready := True\<rparr>
      else f\<lparr>enabled := en, ranges_ready := False\<rparr>)"

definition set_block_private :: "bool \<Rightarrow> ip_filter \<Rightarrow> ip_filter" where
  "set_block_private bp f = f\<lparr>block_private := bp\<rparr>"

definition mark_ranges_ready :: "ip_filter \<Rightarrow> ip_filter" where
  "mark_ranges_ready f = f\<lparr>ranges_ready := True\<rparr>"

definition mark_ranges_not_ready :: "ip_filter \<Rightarrow> ip_filter" where
  "mark_ranges_not_ready f = f\<lparr>ranges_ready := False\<rparr>"

section \<open>Block checks\<close>

text \<open>Each check returns its verdict and the filter with its hit counters bumped.\<close>

definition special_hit :: "ip_filter \<Rightarrow> ip_filter" where
  "special_hit f = f\<lparr>total_special_hits := total_special_hits f + 1\<rparr>"

definition range_hit :: "ip_filter \<Rightarrow> ip_filter" where
  "range_hit f = f\<lparr>total_range_hits := total_range_hits f + 1\<rparr>"

definition search_ranges :: "ipv4 \<Rightarrow> ip_filter \<Rightarrow> bool \<times> ip_filter" where
  "search_ranges ip f =
     (case binary_search_by (range_cmp ip) (map span (blocked_ranges f)) of
        Some idx \<Rightarrow>
          (True, range_hit (f\<lparr>blocked_ranges :=
             (blocked_ranges f)[idx := add_hits 1 (blocked_ranges f ! idx)]\<rparr>))
      | None \<Rightarrow> (False, f))"

definition is_blocked :: "ipv4 \<Rightarrow> ip_filter \<Rightarrow> bool \<times> ip_filter" where
  "is_blocked ip f =
     (if is_bogus_v4 ip then (True, special_hit f)
      else if block_private f \<and> is_lan_or_cgnat_v4 ip then (True, special_hit f)
      else if enabled f \<and> \<not> ranges_ready f then (True, range_hit f)
      else if enabled f then search_ranges ip f
      else (False, f))"

definition is_blocked_readonly :: "ipv4 \<Rightarrow> ip_filter \<Rightarrow> bool \<times> ip_filter" where
  "is_blocked_readonly ip f =
     (if is_bogus_v4 ip then (True, special_hit f)
      else if block_private f \<and> is_lan_or_cgnat_v4 ip then (True, special_hit f)
      else if enabled f \<and> \<not> ranges_ready f then (True, range_hit f)
      else if enabled f then search_ranges ip f
      else (False, f))"

definition is_blocked_readonly_for_kad :: "ipv4 \<Rightarrow> ip_filter \<Rightarrow> bool \<times> ip_filter" where
  "is_blocked_readonly_for_kad ip f =
     (if is_bogus_v4 ip then (True, special_hit f)
      else if block_private f \<and> is_lan_or_cgnat_v4 ip then (True, special_hit f)
      else if enabled f \<and> \<not> ranges_ready f then (\<not> is_default_bootstrap_ip ip, f)
      else if enabled f \<and> ranges_ready f then search_ranges ip f
      else (False, f))"

definition snap_special_hit :: "ip_filter_snapshot \<Rightarrow> ip_filter_snapshot" where
  "snap_special_hit s = s\<lparr>s_special_hit_counter := s_special_hit_counter s + 1\<rparr>"

definition snap_hit :: "ip_filter_snapshot \<Rightarrow> ip_filter_snapshot" where
  "snap_hit s = s\<lparr>s_hit_counter := s_hit_counter s + 1\<rparr>"

definition record_range_hit :: "nat \<Rightarrow> ip_filter_snapshot \<Rightarrow> ip_filter_snapshot" where
  "record_range_hit idx s =
     (let s1 = (if idx < length (s_range_hits s)
                then s\<lparr>s_range_hits := (s_range_hits s)[idx := s_range_hits s ! idx + 1]\<rparr>
                else s)
      in s1\<lparr>s_hit_counter := s_hit_counter s1 + 1\<rparr>)"

definition snap_search :: "ipv4 \<Rightarrow> ip_filter_snapshot \<Rightarrow> bool \<times> ip_filter_snapshot" where
  "snap_search ip s =
     (case binary_search_by (range_cmp ip) (s_ranges s) of
        Some idx \<Rightarrow> (True, record_range_hit idx s)
      | None \<Rightarrow> (False, s))"

definition snap_is_blocked :: "ipv4 \<Rightarrow> ip_filter_snapshot \<Rightarrow> bool \<times> ip_filter_snapshot" where
  "snap_is_blocked ip s =
     (if is_bogus_v4 ip then (True, snap_special_hit s)
      else if s_block_private s \<and> is_lan_or_cgnat_v4 ip then (True, snap_special_hit s)
      else if s_enabled s \<and> \<not> s_ranges_ready s then (True, snap_hit s)
      else if s_enabled s then snap_search ip s
      else (False, s))"

definition is_blocked_for_kad :: "ipv4 \<Rightarrow> ip_filter_snapshot \<Rightarrow> bool \<times> ip_filter_snapshot" where
  "is_blocked_for_kad ip s =
     (if is_bogus_v4 ip then (True, snap_special_hit s)
      else if s_block_private s \<and> is_lan_or_cgnat_v4 ip then (True, snap_special_hit s)
      else if s_enabled s \<and> \<not> s_ranges_ready s then (\<not> is_default_bootstrap_ip ip, s)
      else if s_enabled s \<and> s_ranges_ready s then snap_search ip s
      else (False, s))"

section \<open>Snapshots\<close>

definition create_shared_snapshot :: "ip_filter \<Rightarrow> ip_filter_snapshot" where
  "create_shared_snapshot f =
     (let rs = map span (blocked_ranges f)
      in \<lparr>s_ranges = rs, s_range_hits = map (\<lambda>_. 0) [0..<length rs], s_enabled = enabled f,
          s_block_private = block_private f, s_ranges_ready = ranges_ready f,
          s_hit_counter = 0, s_special_hit_counter = 0\<rparr>)"

definition update_shared_snapshot :: "ip_filter \<Rightarrow> ip_filter_snapshot \<Rightarrow> ip_filter_snapshot" where
  "update_shared_snapshot f s =
     (let pending = map_of (rev (filter (\<lambda>(r, n). 0 < n) (zip (s_ranges s) (s_range_hits s))));
          rs = map span (blocked_ranges f)
      in s\<lparr>s_ranges := rs,
           s_range_hits := map (\<lambda>r. case pending r of Some n \<Rightarrow> n | None \<Rightarrow> 0) rs,
           s_enabled := enabled f, s_block_private := block_private f,
           s_ranges_ready := ranges_ready f\<rparr>)"

text \<open>\<^verbatim>\<open>find\<close> the range with this span and add the hits to it.\<close>

fun credit_hits :: "(u32 \<times> u32) \<Rightarrow> u64 \<Rightarrow> ip_range list \<Rightarrow> ip_range list" where
  "credit_hits sp n [] = []"
| "credit_hits sp n (r # rs) =
     (if span r = sp then add_hits n r # rs else r # credit_hits sp n rs)"

definition collect_shared_hits ::
  "ip_filter \<Rightarrow> ip_filter_snapshot \<Rightarrow> ip_filter \<times> ip_filter_snapshot" where
  "collect_shared_hits f s =
     (let f1 = (if 0 < s_hit_counter s
                then f\<lparr>total_range_hits := total_range_hits f + s_hit_counter s\<rparr> else f);
          f2 = (if 0 < s_special_hit_counter s
                then f1\<lparr>total_special_hits := total_special_hits f1 + s_special_hit_counter s\<rparr>
                else f1);
          rs = fold (\<lambda>i rs.
                 let n = s_range_hits s ! i
                 in if n = 0 then rs
                    else if i < length (s_ranges s) then credit_hits (s_ranges s ! i) n rs
                    else rs)
               [0..<length (s_range_hits s)] (blocked_ranges f2)
      in (f2\<lparr>blocked_ranges := rs\<rparr>,
          s\<lparr>s_hit_counter := 0, s_special_hit_counter := 0,
             s_range_hits := map (\<lambda>_. 0) (s_range_hits s)\<rparr>))"

section \<open>The binary format\<close>

definition be32 :: "bytes \<Rightarrow> u32" where
  "be32 bs = word_of_nat (le_val (rev bs))"

definition is_p2b_magic :: "bytes \<Rightarrow> bool" where
  "is_p2b_magic bs \<longleftrightarrow> 7 \<le> length bs \<and> take 4 bs = [0xff, 0xff, 0xff, 0xff]
     \<and> take 3 (drop 4 bs) = [0x50, 0x32, 0x42]"

text \<open>The record loop, on the bytes that are left.\<close>

function p2b_records :: "bytes \<Rightarrow> ip_range list" where
  "p2b_records bs =
     (if bs = [] then []
      else if 0 \<notin> set bs then []
      else let desc = from_utf8_lossy (takeWhile (\<lambda>b. b \<noteq> 0) bs);
               rest = tl (dropWhile (\<lambda>b. b \<noteq> 0) bs)
           in if length rest < 8 then []
              else let s = be32 (take 4 rest); e = be32 (take 4 (drop 4 rest))
                   in (if s \<le> e then [new_range s e desc] else []) @ p2b_records (drop 8 rest))"
  by pat_completeness auto
termination
proof (relation "measure length", simp, goal_cases)
  case (1 bs x rest)
  have "length rest \<le> length bs"
    using 1 length_dropWhile_le [of "\<lambda>b. b \<noteq> 0" bs] by simp
  then show ?case using 1 by simp
qed

declare p2b_records.simps [simp del]

definition parse_p2b_bytes :: "bytes \<Rightarrow> ip_range list option" where
  "parse_p2b_bytes bs =
     (if length bs < 8 \<or> \<not> is_p2b_magic bs then None
      else if bs ! 7 \<noteq> 1 \<and> bs ! 7 \<noteq> 2 then None
      else Some (p2b_records (drop 8 bs)))"

function count_p2b_loop :: "bytes \<Rightarrow> nat" where
  "count_p2b_loop bs =
     (if bs = [] then 0
      else if 0 \<notin> set bs then 0
      else let rest = tl (dropWhile (\<lambda>b. b \<noteq> 0) bs)
           in if length rest < 8 then 0
              else (if be32 (take 4 rest) \<le> be32 (take 4 (drop 4 rest)) then 1 else 0)
                   + count_p2b_loop (drop 8 rest))"
  by pat_completeness auto
termination
proof (relation "measure length", simp, goal_cases)
  case (1 bs rest)
  have "length rest \<le> length bs"
    using 1 length_dropWhile_le [of "\<lambda>b. b \<noteq> 0" bs] by simp
  then show ?case using 1 by simp
qed

declare count_p2b_loop.simps [simp del]

definition count_p2b_entries :: "bytes \<Rightarrow> nat" where
  "count_p2b_entries bs =
     (if length bs < 8 \<or> take 4 bs \<noteq> [0xff, 0xff, 0xff, 0xff]
         \<or> take 3 (drop 4 bs) \<noteq> [0x50, 0x32, 0x42] then 0
      else if bs ! 7 \<noteq> 1 \<and> bs ! 7 \<noteq> 2 then 0
      else count_p2b_loop (drop 8 bs))"

text \<open>\<^verbatim>\<open>load_p2b_file\<close> on the file's bytes; a refused file leaves the filter as it was.\<close>

definition load_p2b :: "bytes \<Rightarrow> ip_filter \<Rightarrow> nat option \<times> ip_filter" where
  "load_p2b bs f =
     (if 268435456 < length bs then (None, f) else case parse_p2b_bytes bs of
        None \<Rightarrow> (None, f)
      | Some rs \<Rightarrow>
          let (n, f') = commit_ranges rs (replace_permit_ranges [] f) in (Some n, f'))"

section \<open>The set of blocked addresses\<close>

definition covered :: "ip_range list \<Rightarrow> u32 \<Rightarrow> bool" where
  "covered rs ip \<longleftrightarrow> (\<exists>r \<in> set rs. r_start r \<le> ip \<and> ip \<le> r_end r)"

text \<open>Non-empty ranges, ascending, with at least one free address between neighbours.\<close>

definition ranges_ok :: "ip_range list \<Rightarrow> bool" where
  "ranges_ok rs \<longleftrightarrow> (\<forall>r \<in> set rs. r_start r \<le> r_end r)
     \<and> sorted_wrt (\<lambda>a b. sat_succ (r_end a) < r_start b) rs"

lemma sat_succ_ge: "w \<le> sat_succ w"
proof (cases "w = 0xFFFFFFFF")
  case False
  then have "unat w \<noteq> 0xFFFFFFFF" by (auto simp: word_eq_iff_unsigned [where 'a = nat])
  then have "unat (w + 1) = unat w + 1"
    using unat_bounds(3) [of w] by (simp add: unat_word_ariths)
  then show ?thesis using False by (simp add: sat_succ_def word_le_nat_alt)
qed (simp add: sat_succ_def)

lemma sat_succ_le: "y < x \<Longrightarrow> sat_succ y \<le> (x :: u32)"
  by (auto simp: sat_succ_def inc_le)

lemma covered_simps [simp]:
  "covered [] ip = False"
  "covered (r # rs) ip \<longleftrightarrow> (r_start r \<le> ip \<and> ip \<le> r_end r) \<or> covered rs ip"
  "covered (rs @ rs') ip \<longleftrightarrow> covered rs ip \<or> covered rs' ip"
  by (auto simp: covered_def)

lemma covered_set_cong: "set rs = set rs' \<Longrightarrow> covered rs ip = covered rs' ip"
  by (simp add: covered_def)

lemma covered_spans:
  assumes "map span rs = map span rs'"
  shows "covered rs ip = covered rs' ip"
proof -
  have *: "covered rs ip = (\<exists>p \<in> set (map span rs). fst p \<le> ip \<and> ip \<le> snd p)" for rs
    by (auto simp: covered_def)
  show ?thesis by (simp only: * assms)
qed

lemma ranges_ok_spans:
  assumes "map span rs = map span rs'"
  shows "ranges_ok rs = ranges_ok rs'"
proof -
  have *: "ranges_ok rs \<longleftrightarrow> (\<forall>p \<in> set (map span rs). fst p \<le> snd p)
      \<and> sorted_wrt (\<lambda>a b. sat_succ (snd a) < fst b) (map span rs)" for rs
    by (auto simp: ranges_ok_def sorted_wrt_map)
  show ?thesis by (simp only: * assms)
qed

lemma ranges_ok_filter: "ranges_ok rs \<Longrightarrow> ranges_ok (filter P rs)"
  by (auto simp: ranges_ok_def sorted_wrt_filter)

lemma span_add_hits [simp]:
  "r_start (add_hits n r) = r_start r" "r_end (add_hits n r) = r_end r"
  by (simp_all add: add_hits_def)

section \<open>Searching\<close>

lemma bsearch_Some:
  "bsearch f xs l r = Some i \<Longrightarrow> l \<le> i \<and> i < r \<and> f (xs ! i) = Equal"
proof (induction f xs l r rule: bsearch.induct)
  case (1 f xs l r)
  let ?m = "l + (r - l) div 2"
  from 1(3) have lr: "l < r" by (simp add: bsearch.simps [of f xs l r] split: if_splits)
  then have m: "l \<le> ?m" "?m < r" by auto
  show ?case
  proof (cases "f (xs ! ?m)")
    case Equal
    then show ?thesis using 1(3) lr m by (simp add: bsearch.simps [of f xs l r] Let_def)
  next
    case Less
    then show ?thesis using 1(3) lr m 1(1) [OF lr refl Less]
      by (simp add: bsearch.simps [of f xs l r] Let_def)
  next
    case Greater
    then have "l \<le> i \<and> i < ?m \<and> f (xs ! i) = Equal"
      using 1(3) lr 1(2) [OF lr refl Greater] by (simp add: bsearch.simps [of f xs l r] Let_def)
    then show ?thesis using m by simp
  qed
qed

lemma bsearch_None:
  assumes "bsearch f xs l r = None" "r \<le> length xs"
    and "\<forall>i j. i \<le> j \<longrightarrow> j < length xs \<longrightarrow> f (xs ! j) = Less \<longrightarrow> f (xs ! i) = Less"
    and "\<forall>i j. i \<le> j \<longrightarrow> j < length xs \<longrightarrow> f (xs ! i) = Greater \<longrightarrow> f (xs ! j) = Greater"
    and "l \<le> i" "i < r"
  shows "f (xs ! i) \<noteq> Equal"
  using assms
proof (induction f xs l r rule: bsearch.induct)
  case (1 f xs l r)
  let ?m = "l + (r - l) div 2"
  have lr: "l < r" using 1(7,8) by simp
  have m: "?m < r" "?m < length xs" using lr 1(4) by auto
  show ?case
  proof (cases "f (xs ! ?m)")
    case Equal
    then show ?thesis using 1(3) lr by (simp add: bsearch.simps [of f xs l r] Let_def)
  next
    case Less
    then have none: "bsearch f xs (?m + 1) r = None"
      using 1(3) lr by (simp add: bsearch.simps [of f xs l r] Let_def)
    show ?thesis
    proof (cases "i \<le> ?m")
      case True
      then show ?thesis using 1(5) m(2) Less by simp
    next
      case False
      then have "?m + 1 \<le> i" by simp
      from 1(1) [OF lr refl Less none 1(4) 1(5) 1(6) this 1(8)] show ?thesis .
    qed
  next
    case Greater
    then have none: "bsearch f xs l ?m = None"
      using 1(3) lr by (simp add: bsearch.simps [of f xs l r] Let_def)
    show ?thesis
    proof (cases "i < ?m")
      case True
      have "?m \<le> length xs" using m by simp
      from 1(2) [OF lr refl Greater none this 1(5) 1(6) 1(7) True] show ?thesis .
    next
      case False
      then have "?m \<le> i" "i < length xs" using 1(4,8) by simp_all
      then show ?thesis using 1(6) Greater by simp
    qed
  qed
qed

lemma ranges_ok_nth:
  assumes "ranges_ok rs" "i < j" "j < length rs"
  shows "r_end (rs ! i) < r_start (rs ! j)"
proof -
  have "sat_succ (r_end (rs ! i)) < r_start (rs ! j)"
    using assms sorted_wrt_nth_less [of _ rs i j] unfolding ranges_ok_def by blast
  then show ?thesis using sat_succ_ge [of "r_end (rs ! i)"] by (rule le_less_trans [rotated])
qed

lemma ranges_ok_nth_mono:
  assumes "ranges_ok rs" "i \<le> j" "j < length rs"
  shows "r_start (rs ! i) \<le> r_start (rs ! j)" "r_end (rs ! i) \<le> r_end (rs ! j)"
proof -
  have v: "r_start (rs ! k) \<le> r_end (rs ! k)" if "k < length rs" for k
    using assms(1) that by (simp add: ranges_ok_def)
  have "i = j \<or> r_end (rs ! i) < r_start (rs ! j)"
    using assms ranges_ok_nth [of rs i j] by (cases "i = j") auto
  then show "r_start (rs ! i) \<le> r_start (rs ! j)" "r_end (rs ! i) \<le> r_end (rs ! j)"
    using v [of i] v [of j] assms by auto
qed

text \<open>On a well-formed list the binary search finds the range of an address, if any.\<close>

lemma binary_search_covered:
  assumes "ranges_ok rs"
  shows "(\<exists>i. binary_search_by (range_cmp ip) (map span rs) = Some i) \<longleftrightarrow> covered rs ip"
proof
  assume "\<exists>i. binary_search_by (range_cmp ip) (map span rs) = Some i"
  then obtain i where "i < length rs" "range_cmp ip (map span rs ! i) = Equal"
    unfolding binary_search_by_def using bsearch_Some by fastforce
  then show "covered rs ip"
    by (auto simp: range_cmp_def covered_def not_less split: if_splits intro!: bexI [of _ "rs ! i"])
next
  assume "covered rs ip"
  then obtain k where k: "k < length rs" "r_start (rs ! k) \<le> ip" "ip \<le> r_end (rs ! k)"
    by (auto simp: covered_def in_set_conv_nth)
  have eq: "range_cmp ip (map span rs ! k) = Equal"
    using k by (simp add: range_cmp_def not_less)
  show "\<exists>i. binary_search_by (range_cmp ip) (map span rs) = Some i"
  proof (rule ccontr)
    assume "\<not> ?thesis"
    then have none: "bsearch (range_cmp ip) (map span rs) 0 (length (map span rs)) = None"
      by (simp add: binary_search_by_def)
    have "range_cmp ip (map span rs ! k) \<noteq> Equal"
    proof (rule bsearch_None [OF none order.refl])
      have cmp: "(range_cmp ip (map span rs ! j) = Less \<longrightarrow> range_cmp ip (map span rs ! i) = Less)
        \<and> (range_cmp ip (map span rs ! i) = Greater \<longrightarrow> range_cmp ip (map span rs ! j) = Greater)"
        if ij: "i \<le> j" "j < length (map span rs)" for i j
      proof -
        note mono = ranges_ok_nth_mono [OF assms ij(1)]
        have "r_start (rs ! i) \<le> r_end (rs ! i)" "r_start (rs ! j) \<le> r_end (rs ! j)"
          using assms ij by (auto simp: ranges_ok_def)
        then show ?thesis using mono ij by (auto simp: range_cmp_def)
      qed
      then show "\<forall>i j. i \<le> j \<longrightarrow> j < length (map span rs) \<longrightarrow>
          range_cmp ip (map span rs ! j) = Less \<longrightarrow> range_cmp ip (map span rs ! i) = Less"
        "\<forall>i j. i \<le> j \<longrightarrow> j < length (map span rs) \<longrightarrow>
          range_cmp ip (map span rs ! i) = Greater \<longrightarrow> range_cmp ip (map span rs ! j) = Greater"
        by blast+
    qed (use k in auto)
    with eq show False by simp
  qed
qed

section \<open>Merging\<close>

lemma merge_step_snoc:
  "merge_step (bs @ [l]) r =
     (if r_start r \<le> sat_succ (r_end l)
      then bs @ [add_hits (hits r) (let l1 = l\<lparr>r_end := max (r_end l) (r_end r)\<rparr> in
             if description l1 = [] \<and> description r \<noteq> [] then l1\<lparr>description := description r\<rparr> else l1)]
      else bs @ [l, r])"
  by (simp add: merge_step_def Let_def)

lemma covered_merged_pair:
  assumes "s \<le> s'" "s' \<le> sat_succ e" "s \<le> e" "s' \<le> e'"
  shows "(s \<le> ip \<and> ip \<le> max e e') \<longleftrightarrow> (s \<le> ip \<and> ip \<le> e) \<or> (s' \<le> ip \<and> ip \<le> (e' :: u32))"
proof -
  have "s' \<le> ip" if "\<not> ip \<le> e"
    using that assms(2) sat_succ_le [of e ip] by (meson not_le order.trans)
  then show ?thesis using assms by (auto simp: le_max_iff_disj)
qed

lemma foldl_merge_step:
  assumes "ranges_ok (bs @ [l])" "\<forall>r \<in> set rs. r_start r \<le> r_end r"
    "sorted (map r_start (l # rs))"
  shows "ranges_ok (foldl merge_step (bs @ [l]) rs)
    \<and> (covered (foldl merge_step (bs @ [l]) rs) ip \<longleftrightarrow> covered (bs @ l # rs) ip)"
  using assms
proof (induction rs arbitrary: bs l)
  case Nil
  then show ?case by simp
next
  case (Cons r rs)
  have r: "r_start r \<le> r_end r" "r_start l \<le> r_start r" and l: "r_start l \<le> r_end l"
    using Cons.prems by (auto simp: ranges_ok_def)
  show ?case
  proof (cases "r_start r \<le> sat_succ (r_end l)")
    case True
    define m where "m = add_hits (hits r) (let l1 = l\<lparr>r_end := max (r_end l) (r_end r)\<rparr> in
      if description l1 = [] \<and> description r \<noteq> [] then l1\<lparr>description := description r\<rparr> else l1)"
    have m: "r_start m = r_start l" "r_end m = max (r_end l) (r_end r)"
      by (simp_all add: m_def Let_def)
    have step: "merge_step (bs @ [l]) r = bs @ [m]"
      using True by (simp add: merge_step_snoc m_def)
    have "ranges_ok (bs @ [m])"
      using Cons.prems(1) l m by (auto simp: ranges_ok_def sorted_wrt_append le_max_iff_disj)
    moreover have "sorted (map r_start (m # rs))"
      using Cons.prems(3) m by auto
    ultimately have "ranges_ok (foldl merge_step (bs @ [m]) rs)
      \<and> (covered (foldl merge_step (bs @ [m]) rs) ip \<longleftrightarrow> covered (bs @ m # rs) ip)"
      using Cons.prems(2) by (intro Cons.IH) auto
    then show ?thesis
      using covered_merged_pair [OF r(2) True l r(1), of ip] by (auto simp: step m)
  next
    case False
    then have gap: "sat_succ (r_end l) < r_start r" by simp
    have "ranges_ok ((bs @ [l]) @ [r])"
      using Cons.prems(1) gap r
      by (auto simp: ranges_ok_def sorted_wrt_append intro: less_le_trans)
    then have "ranges_ok (foldl merge_step ((bs @ [l]) @ [r]) rs)
      \<and> (covered (foldl merge_step ((bs @ [l]) @ [r]) rs) ip \<longleftrightarrow> covered ((bs @ [l]) @ r # rs) ip)"
      using Cons.prems by (intro Cons.IH) auto
    then show ?thesis using False by (simp add: merge_step_snoc)
  qed
qed

lemma merge_overlapping_correct:
  assumes "\<forall>r \<in> set rs. r_start r \<le> r_end r"
  shows "ranges_ok (merge_overlapping (sort_key r_start rs))"
    and "covered (merge_overlapping (sort_key r_start rs)) ip \<longleftrightarrow> covered rs ip"
proof -
  let ?ss = "sort_key r_start rs"
  have "ranges_ok (merge_overlapping ?ss)
    \<and> (covered (merge_overlapping ?ss) ip \<longleftrightarrow> covered ?ss ip)"
  proof (cases "length ?ss \<le> 1")
    case True
    then have "?ss = [] \<or> (\<exists>r. ?ss = [r])" by (cases ?ss) auto
    moreover have "\<forall>r \<in> set ?ss. r_start r \<le> r_end r" using assms by simp
    ultimately show ?thesis
      using True by (auto simp: merge_overlapping_def ranges_ok_def)
  next
    case False
    then obtain l ss where ss: "?ss = l # ss" by (cases ?ss) auto
    have "\<forall>r \<in> set (l # ss). r_start r \<le> r_end r" using assms ss by (metis set_sort)
    moreover have "sorted (map r_start (l # ss))" using ss by (metis sorted_sort_key)
    ultimately have "ranges_ok (foldl merge_step ([] @ [l]) ss)
      \<and> (covered (foldl merge_step ([] @ [l]) ss) ip \<longleftrightarrow> covered ([] @ l # ss) ip)"
      by (intro foldl_merge_step) (auto simp: ranges_ok_def)
    then show ?thesis using False ss by (simp add: merge_overlapping_def)
  qed
  then show "ranges_ok (merge_overlapping ?ss)"
    "covered (merge_overlapping ?ss) ip \<longleftrightarrow> covered rs ip"
    using covered_set_cong [of ?ss rs ip] by simp_all
qed

section \<open>Cutting\<close>

lemma unat_pred: "r < s \<Longrightarrow> unat (s - 1) = unat s - 1" for s :: u32
  by (rule unat_minus_one) auto

lemma unat_succ: "e < r \<Longrightarrow> unat (e + 1) = unat e + 1" for e :: u32
  using unat_bounds(3) [of r] by (simp add: unat_word_ariths word_less_nat_alt)

lemma unat_sat_succ: "unat (sat_succ w) = min (unat w + 1) 0xFFFFFFFF"
proof (cases "w = 0xFFFFFFFF")
  case False
  then have "unat w \<noteq> 0xFFFFFFFF" by (auto simp: word_eq_iff_unsigned [where 'a = nat])
  then show ?thesis
    using False unat_bounds(3) [of w] by (simp add: sat_succ_def unat_word_ariths)
qed (simp add: sat_succ_def)

lemma covered_cut_range:
  assumes "s \<le> e" "r_start r \<le> r_end r"
  shows "covered (cut_range s e r) ip \<longleftrightarrow> covered [r] ip \<and> \<not> (s \<le> ip \<and> ip \<le> e)"
  using assms unat_pred [of "r_start r" s] unat_succ [of e "r_end r"]
  by (auto simp: cut_range_def word_le_nat_alt word_less_nat_alt)

lemma cut_range_within:
  assumes "s \<le> e" "r_start r \<le> r_end r" "p \<in> set (cut_range s e r)"
  shows "r_start r \<le> r_start p" "r_start p \<le> r_end p" "r_end p \<le> r_end r"
  using assms unat_pred [of "r_start r" s] unat_succ [of e "r_end r"]
  by (auto simp: cut_range_def word_le_nat_alt word_less_nat_alt split: if_splits)

lemma ranges_ok_cut_range:
  assumes "s \<le> e" "r_start r \<le> r_end r"
  shows "ranges_ok (cut_range s e r)"
  using assms unat_pred [of "r_start r" s] unat_succ [of e "r_end r"]
  by (auto simp: ranges_ok_def cut_range_def word_le_nat_alt word_less_nat_alt unat_sat_succ)

lemma ranges_ok_append:
  "ranges_ok (xs @ ys) \<longleftrightarrow> ranges_ok xs \<and> ranges_ok ys
     \<and> (\<forall>x \<in> set xs. \<forall>y \<in> set ys. sat_succ (r_end x) < r_start y)"
  by (auto simp: ranges_ok_def sorted_wrt_append)

lemma sat_succ_mono: "a \<le> b \<Longrightarrow> sat_succ a \<le> sat_succ b"
  by (simp add: word_le_nat_alt unat_sat_succ)

lemma cut_ranges_correct:
  assumes "ranges_ok rs" "s \<le> e"
  shows "ranges_ok (concat (map (cut_range s e) rs))
    \<and> (covered (concat (map (cut_range s e) rs)) ip \<longleftrightarrow> covered rs ip \<and> \<not> (s \<le> ip \<and> ip \<le> e))"
  using assms(1)
proof (induction rs)
  case Nil
  then show ?case by (simp add: ranges_ok_def)
next
  case (Cons r rs)
  have ok: "ranges_ok rs" "r_start r \<le> r_end r"
    "\<forall>q \<in> set rs. sat_succ (r_end r) < r_start q \<and> r_start q \<le> r_end q"
    using Cons.prems by (auto simp: ranges_ok_def)
  have "sat_succ (r_end p) < r_start q"
    if p: "p \<in> set (cut_range s e r)" and q: "q \<in> set (concat (map (cut_range s e) rs))" for p q
  proof -
    obtain q' where q': "q' \<in> set rs" "q \<in> set (cut_range s e q')" using q by auto
    have "sat_succ (r_end p) \<le> sat_succ (r_end r)"
      using cut_range_within [OF assms(2) ok(2) p] by (simp add: sat_succ_mono)
    also have "\<dots> < r_start q'" using ok(3) q' by simp
    also have "r_start q' \<le> r_start q"
      using cut_range_within(1) [OF assms(2) _ q'(2)] ok(3) q' by simp
    finally show ?thesis .
  qed
  then show ?case
    using Cons.IH [OF ok(1)] ranges_ok_cut_range [OF assms(2) ok(2)]
      covered_cut_range [OF assms(2) ok(2), of ip]
    by (auto simp: ranges_ok_append)
qed

section \<open>Every operation keeps the list well-formed\<close>

definition filter_ok :: "ip_filter \<Rightarrow> bool" where
  "filter_ok f \<longleftrightarrow> ranges_ok (blocked_ranges f)"

text \<open>What the filter blocks.\<close>

definition blocks :: "ip_filter \<Rightarrow> ipv4 \<Rightarrow> bool" where
  "blocks f ip \<longleftrightarrow> is_bogus_v4 ip \<or> block_private f \<and> is_lan_or_cgnat_v4 ip
     \<or> enabled f \<and> (ranges_ready f \<longrightarrow> covered (blocked_ranges f) ip)"

lemma spans_update_hits: "map span (rs[i := add_hits n (rs ! i)]) = map span rs"
  by (cases "i < length rs") (simp_all add: map_update list_update_same_conv list_update_beyond)

lemma spans_credit_hits: "map span (credit_hits sp n rs) = map span rs"
  by (induction rs) auto

lemma spans_fold_credit:
  "map span (fold (\<lambda>i rs. if f i = 0 then rs
      else if P i then credit_hits (g i) (f i) rs else rs) is rs) = map span rs"
  by (induction "is" arbitrary: rs) (auto simp: spans_credit_hits)

lemma search_ranges_verdict:
  "filter_ok f \<Longrightarrow> fst (search_ranges ip f) \<longleftrightarrow> covered (blocked_ranges f) ip"
  using binary_search_covered [of "blocked_ranges f" ip]
  by (auto simp: search_ranges_def filter_ok_def split: option.splits)

lemma search_ranges_spans:
  "map span (blocked_ranges (snd (search_ranges ip f))) = map span (blocked_ranges f)"
  by (auto simp: search_ranges_def range_hit_def spans_update_hits split: option.splits)

lemma is_blocked_spans:
  "map span (blocked_ranges (snd (is_blocked ip f))) = map span (blocked_ranges f)"
  by (simp add: is_blocked_def special_hit_def range_hit_def search_ranges_spans)

lemma is_blocked_kad_spans:
  "map span (blocked_ranges (snd (is_blocked_readonly_for_kad ip f))) = map span (blocked_ranges f)"
  by (simp add: is_blocked_readonly_for_kad_def special_hit_def range_hit_def search_ranges_spans)

lemma collect_spans:
  "map span (blocked_ranges (fst (collect_shared_hits f s))) = map span (blocked_ranges f)"
  by (simp add: collect_shared_hits_def Let_def spans_fold_credit)

lemma commit_ranges_correct:
  assumes "\<forall>r \<in> set rs. r_start r \<le> r_end r"
  shows "filter_ok (snd (commit_ranges rs f))"
    and "covered (blocked_ranges (snd (commit_ranges rs f))) ip \<longleftrightarrow> covered rs ip"
proof -
  have spans: "map span (blocked_ranges (snd (commit_ranges rs f)))
      = map span (merge_overlapping (sort_key r_start rs))"
    by (simp add: commit_ranges_def Let_def split: option.splits)
  show "filter_ok (snd (commit_ranges rs f))"
    using merge_overlapping_correct(1) [OF assms] ranges_ok_spans [OF spans]
    by (simp add: filter_ok_def)
  show "covered (blocked_ranges (snd (commit_ranges rs f))) ip \<longleftrightarrow> covered rs ip"
    using merge_overlapping_correct(2) [OF assms] covered_spans [OF spans] by simp
qed

lemma add_range_correct:
  assumes "filter_ok f" "s \<le> e"
  shows "filter_ok (snd (add_range s e d f))"
    and "covered (blocked_ranges (snd (add_range s e d f))) ip
      \<longleftrightarrow> covered (blocked_ranges f) ip \<or> s \<le> ip \<and> ip \<le> e"
proof -
  have "\<forall>r \<in> set (blocked_ranges f @ [new_range s e d]). r_start r \<le> r_end r"
    using assms by (auto simp: filter_ok_def ranges_ok_def new_range_def)
  from merge_overlapping_correct [OF this]
  show "filter_ok (snd (add_range s e d f))"
    and "covered (blocked_ranges (snd (add_range s e d f))) ip
      \<longleftrightarrow> covered (blocked_ranges f) ip \<or> s \<le> ip \<and> ip \<le> e"
    using assms by (auto simp: add_range_def filter_ok_def new_range_def)
qed

lemma remove_ranges_within_correct:
  assumes "filter_ok f" "s \<le> e"
  shows "filter_ok (snd (remove_ranges_within s e f))"
    and "covered (blocked_ranges (snd (remove_ranges_within s e f))) ip
      \<longleftrightarrow> covered (blocked_ranges f) ip \<and> \<not> (s \<le> ip \<and> ip \<le> e)"
  using cut_ranges_correct [of "blocked_ranges f" s e ip] assms
  by (auto simp: remove_ranges_within_def filter_ok_def)

lemma merge_ranges_from_correct:
  assumes "filter_ok f" "filter_ok other"
  shows "filter_ok (merge_ranges_from other f)"
    and "covered (blocked_ranges (merge_ranges_from other f)) ip
      \<longleftrightarrow> covered (blocked_ranges f) ip \<or> covered (blocked_ranges other) ip"
proof -
  have "\<forall>r \<in> set (blocked_ranges f @ blocked_ranges other). r_start r \<le> r_end r"
    using assms by (auto simp: filter_ok_def ranges_ok_def)
  from merge_overlapping_correct [OF this]
  show "filter_ok (merge_ranges_from other f)"
    and "covered (blocked_ranges (merge_ranges_from other f)) ip
      \<longleftrightarrow> covered (blocked_ranges f) ip \<or> covered (blocked_ranges other) ip"
    using assms by (auto simp: merge_ranges_from_def Let_def filter_ok_def)
qed

lemma p2b_records_valid: "\<forall>r \<in> set (p2b_records bs). r_start r \<le> r_end r"
proof (induction bs rule: p2b_records.induct)
  case (1 bs)
  then show ?case
    by (subst p2b_records.simps) (auto simp: Let_def new_range_def)
qed

lemma count_p2b_loop_length: "count_p2b_loop bs = length (p2b_records bs)"
proof (induction bs rule: count_p2b_loop.induct)
  case (1 bs)
  then show ?case
    by (subst count_p2b_loop.simps, subst p2b_records.simps) (simp add: Let_def)
qed

lemma load_p2b_ok: "filter_ok f \<Longrightarrow> filter_ok (snd (load_p2b bs f))"
  using commit_ranges_correct(1) [OF p2b_records_valid]
  by (auto simp: load_p2b_def parse_p2b_bytes_def case_prod_beta split: option.splits)

lemma remove_range_ok: "filter_ok f \<Longrightarrow> filter_ok (snd (remove_range s e f))"
  by (auto simp: remove_range_def filter_ok_def Let_def ranges_ok_filter split: option.splits)

lemma filter_ok_frame:
  "filter_ok (f\<lparr>enabled := b\<rparr>) = filter_ok f" "filter_ok (f\<lparr>block_private := b\<rparr>) = filter_ok f"
  "filter_ok (f\<lparr>ranges_ready := b\<rparr>) = filter_ok f"
  "filter_ok (f\<lparr>enabled := b, ranges_ready := c\<rparr>) = filter_ok f"
  by (simp_all add: filter_ok_def)

text \<open>The life of a filter: every operation the rest of the program calls on it.\<close>

inductive filter_step :: "ip_filter \<Rightarrow> ip_filter \<Rightarrow> bool" where
  fs_add: "filter_step f (snd (add_range s e d f))"
| fs_remove: "filter_step f (snd (remove_range so eo f))"
| fs_within: "filter_step f (snd (remove_ranges_within s e f))"
| fs_commit: "\<forall>r \<in> set rs. r_start r \<le> r_end r \<Longrightarrow>
    filter_step f (snd (commit_ranges rs (replace_permit_ranges ps f)))"
| fs_p2b: "filter_step f (snd (load_p2b bs f))"
| fs_merge: "filter_ok other \<Longrightarrow> filter_step f (merge_ranges_from other f)"
| fs_enabled: "filter_step f (set_enabled b f)"
| fs_private: "filter_step f (set_block_private b f)"
| fs_ready: "filter_step f (mark_ranges_ready f)"
| fs_not_ready: "filter_step f (mark_ranges_not_ready f)"
| fs_check: "filter_step f (snd (is_blocked ip f))"
| fs_check_ro: "filter_step f (snd (is_blocked_readonly ip f))"
| fs_check_kad: "filter_step f (snd (is_blocked_readonly_for_kad ip f))"
| fs_collect: "filter_step f (fst (collect_shared_hits f s))"

definition filter_start :: "ip_filter \<Rightarrow> bool" where
  "filter_start f \<longleftrightarrow> (\<exists>en bp. f = new_filter en bp)"

lemma is_blocked_readonly_eq: "is_blocked_readonly = is_blocked"
  by (rule ext)+ (simp add: is_blocked_readonly_def is_blocked_def)

lemma filter_step_ok: "filter_step f g \<Longrightarrow> filter_ok f \<Longrightarrow> filter_ok g"
proof (induction rule: filter_step.induct)
  case (fs_add f s e d)
  then show ?case
    using add_range_correct(1) [of f s e d] by (cases "s \<le> e") (auto simp: add_range_def)
next
  case (fs_within f s e)
  then show ?case
    using remove_ranges_within_correct(1) [of f s e]
    by (cases "s \<le> e") (auto simp: remove_ranges_within_def)
next
  case (fs_check f ip)
  then show ?case
    using ranges_ok_spans [OF is_blocked_spans] by (simp add: filter_ok_def)
next
  case (fs_check_ro f ip)
  then show ?case
    using ranges_ok_spans [OF is_blocked_spans] by (simp add: filter_ok_def is_blocked_readonly_eq)
next
  case (fs_check_kad f ip)
  then show ?case
    using ranges_ok_spans [OF is_blocked_kad_spans] by (simp add: filter_ok_def)
next
  case (fs_collect f s)
  then show ?case
    using ranges_ok_spans [OF collect_spans] by (simp add: filter_ok_def)
qed (auto simp: remove_range_ok load_p2b_ok commit_ranges_correct(1) merge_ranges_from_correct(1)
      set_enabled_def set_block_private_def mark_ranges_ready_def
      mark_ranges_not_ready_def filter_ok_frame)

interpretation ipf: guarded_system filter_start filter_step filter_ok
proof
  show "filter_ok f" if "filter_start f" for f
    using that by (auto simp: filter_start_def new_filter_def filter_ok_def ranges_ok_def)
  show "filter_ok g" if "filter_ok f" "filter_step f g" for f g
    using that(2,1) by (rule filter_step_ok)
qed

lemma is_blocked_blocks: "filter_ok f \<Longrightarrow> fst (is_blocked ip f) \<longleftrightarrow> blocks f ip"
  by (auto simp: is_blocked_def blocks_def search_ranges_verdict)

lemma snap_search_verdict:
  "filter_ok f \<Longrightarrow> s_ranges s = map span (blocked_ranges f) \<Longrightarrow>
   fst (snap_search ip s) \<longleftrightarrow> covered (blocked_ranges f) ip"
  using binary_search_covered [of "blocked_ranges f" ip]
  by (auto simp: snap_search_def filter_ok_def split: option.splits)

section \<open>Properties of the filter\<close>

text \<open>
  C37: in every state a filter can reach, the block check decides exactly the intended
  set: bogus addresses always, LAN and CGNAT addresses when private blocking is on, and
  with the filter enabled every address of some blocked range, or every address while
  the ranges are not loaded yet. The check runs a binary search over the range list;
  its correctness rests on the list staying sorted and disjoint under every edit.
\<close>

theorem reachable_filter_verdict:
  assumes "filter_start f0" "filter_step\<^sup>*\<^sup>* f0 f"
  shows "fst (is_blocked ip f) \<longleftrightarrow> blocks f ip"
  using ipf.reachable_inv [OF assms] by (rule is_blocked_blocks)

theorem reachable_filter_verdict_witness:
  "\<exists>f. filter_start (new_filter True False) \<and> filter_step\<^sup>*\<^sup>* (new_filter True False) f
     \<and> blocked_ranges f \<noteq> [] \<and> (fst (is_blocked (v4 8 8 8 8) f) \<longleftrightarrow> blocks f (v4 8 8 8 8))"
proof -
  let ?init = "new_filter True False"
  let ?f = "snd (add_range (v4 8 0 0 0) (v4 8 8 8 8) [] ?init)"
  have start: "filter_start ?init" unfolding filter_start_def by blast
  have steps: "filter_step\<^sup>*\<^sup>* ?init ?f" by (rule r_into_rtranclp) (rule fs_add)
  have "blocked_ranges ?f \<noteq> []"
    by (simp add: add_range_def new_filter_def merge_overlapping_def v4_def)
  then show ?thesis
    using start steps reachable_filter_verdict [OF start steps, of "v4 8 8 8 8"] by blast
qed


definition sample_filter :: ip_filter where
  "sample_filter = (new_filter True False)\<lparr>blocked_ranges := [new_range 10 20 []]\<rparr>"




text \<open>
  The preflight count of a PeerGuardian binary predicts its load. The count is the
  number of ranges the parser returns (zero when it refuses the file); a refused file
  leaves the filter untouched, and an accepted one leaves exactly its ranges blocked and
  the fail-closed gate open.
\<close>

theorem p2b_load_matches_preflight:
  "count_p2b_entries bs = (case parse_p2b_bytes bs of None \<Rightarrow> 0 | Some rs \<Rightarrow> length rs)
   \<and> (case load_p2b bs f of
        (None, g) \<Rightarrow> g = f
      | (Some n, g) \<Rightarrow> (\<exists>rs. parse_p2b_bytes bs = Some rs
          \<and> (\<forall>ip. covered (blocked_ranges g) ip \<longleftrightarrow> covered rs ip)
          \<and> n = length (blocked_ranges g) \<and> ranges_ready g))"
proof
  show "count_p2b_entries bs = (case parse_p2b_bytes bs of None \<Rightarrow> 0 | Some rs \<Rightarrow> length rs)"
    by (auto simp: count_p2b_entries_def parse_p2b_bytes_def is_p2b_magic_def
        count_p2b_loop_length)
  show "case load_p2b bs f of
        (None, g) \<Rightarrow> g = f
      | (Some n, g) \<Rightarrow> (\<exists>rs. parse_p2b_bytes bs = Some rs
          \<and> (\<forall>ip. covered (blocked_ranges g) ip \<longleftrightarrow> covered rs ip)
          \<and> n = length (blocked_ranges g) \<and> ranges_ready g)"
  proof (cases "length bs \<le> 268435456 \<and> parse_p2b_bytes bs \<noteq> None")
    case True
    then obtain rs where rs: "parse_p2b_bytes bs = Some rs" by auto
    then have "rs = p2b_records (drop 8 bs)"
      by (auto simp: parse_p2b_bytes_def split: if_splits)
    then have "\<forall>r \<in> set rs. r_start r \<le> r_end r" using p2b_records_valid by simp
    from commit_ranges_correct(2) [OF this] show ?thesis
      using True rs
      by (simp add: load_p2b_def case_prod_beta)
         (simp add: commit_ranges_def Let_def)
  next
    case False
    then show ?thesis by (auto simp: load_p2b_def)
  qed
qed

end
