(* ===== verification/Dht_Common.thy ===== *)
theory Dht_Common
  imports Ip_Filter
begin

text \<open>
  The policy code shared by the program's two Kademlia stacks,
  \<^verbatim>\<open>src-tauri/src/network/kad/dht_common.rs\<close>: the admission gate, the staleness test and
  the sweep that evicts contacts a changed policy forbids. The sweep is generic in the
  table (\<^verbatim>\<open>trait PolicyEvictable\<close>); the trait is the locale \<open>policy_evictable\<close>, whose
  assumptions are what the sweep needs of a table, and the KAD routing table is shown to
  meet them where it is defined. The shared range filter is a value behind a lock that
  may be poisoned. The hit counters a check bumps are part of the snapshot's own model
  (\<open>Ip_Filter\<close>); the gate uses the verdict.
\<close>

section \<open>The gate\<close>

datatype admission = Allowed | BlockedByPolicy | BlockedByRanges | FilterUnreadable

datatype shared_ip_filter = Readable ip_filter_snapshot | Poisoned

record ip_admission_gate =
  block_private_ips :: bool
  range_filter :: "shared_ip_filter option"

definition new_gate :: "bool \<Rightarrow> ip_admission_gate" where
  "new_gate bp = \<lparr>block_private_ips = bp, range_filter = None\<rparr>"

definition set_range_filter :: "shared_ip_filter \<Rightarrow> ip_admission_gate \<Rightarrow> ip_admission_gate" where
  "set_range_filter flt g = g\<lparr>range_filter := Some flt\<rparr>"

definition gate_set_block_private :: "bool \<Rightarrow> ip_admission_gate \<Rightarrow> bool \<times> ip_admission_gate" where
  "gate_set_block_private bp g =
     (let enabling = bp \<and> \<not> block_private_ips g in (enabling, g\<lparr>block_private_ips := bp\<rparr>))"

definition admits :: "ip_admission_gate \<Rightarrow> ipv4 \<Rightarrow> admission" where
  "admits g ip =
     (if \<not> is_valid_contact_ip ip (block_private_ips g) then BlockedByPolicy
      else case range_filter g of
        Some flt \<Rightarrow>
          (case flt of
             Readable snap \<Rightarrow> if fst (is_blocked_for_kad ip snap) then BlockedByRanges else Allowed
           | Poisoned \<Rightarrow> FilterUnreadable)
      | None \<Rightarrow> Allowed)"

definition is_definitely_blocked :: "ip_admission_gate \<Rightarrow> ipv4 \<Rightarrow> bool" where
  "is_definitely_blocked g ip =
     (if \<not> is_valid_contact_ip ip (block_private_ips g) then True
      else case range_filter g of
        Some flt \<Rightarrow>
          (case flt of
             Readable snap \<Rightarrow>
               if s_enabled snap \<and> \<not> s_ranges_ready snap then False
               else fst (snap_is_blocked ip snap)
           | Poisoned \<Rightarrow> False)
      | None \<Rightarrow> False)"

section \<open>The sweep\<close>

definition doomed :: "ip_admission_gate \<Rightarrow> ipv4 option \<Rightarrow> bool" where
  "doomed g ip = (case ip of Some a \<Rightarrow> is_definitely_blocked g a | None \<Rightarrow> True)"

fun evict_all :: "('i \<Rightarrow> 't \<Rightarrow> bool \<times> 't) \<Rightarrow> 'i list \<Rightarrow> nat \<Rightarrow> 't \<Rightarrow> nat \<times> 't" where
  "evict_all evict [] removed t = (removed, t)"
| "evict_all evict (i # is) removed t =
     (let (gone, t') = evict i t
      in evict_all evict is (if gone then removed + 1 else removed) t')"

definition evict_blocked_contacts ::
  "('t \<Rightarrow> ip_admission_gate) \<Rightarrow> ('t \<Rightarrow> ('i \<times> ipv4 option) list) \<Rightarrow> ('i \<Rightarrow> 't \<Rightarrow> bool \<times> 't)
   \<Rightarrow> 't \<Rightarrow> nat \<times> 't" where
  "evict_blocked_contacts gate residents evict t =
     (let victims = map fst (filter (\<lambda>r. doomed (gate t) (snd r)) (residents t))
      in evict_all evict victims 0 t)"

text \<open>
  Time stamps are \<^verbatim>\<open>i64\<close> seconds; the source's \<^verbatim>\<open>saturating_sub\<close> agrees with the
  subtraction of integers on every pair of times the comparison with a positive age can
  tell apart.
\<close>

definition is_stale :: "int \<Rightarrow> int \<Rightarrow> int \<Rightarrow> bool" where
  "is_stale now seen max_age_secs \<longleftrightarrow>
     min (9223372036854775807) (max (-9223372036854775808) (now - seen)) \<ge> max_age_secs"

section \<open>Interface: a table the policy sweep can run on\<close>

locale policy_evictable =
  fixes gate :: "'t \<Rightarrow> ip_admission_gate"
    and residents :: "'t \<Rightarrow> ('i \<times> ipv4 option) list"
    and evict :: "'i \<Rightarrow> 't \<Rightarrow> bool \<times> 't"
    and inv :: "'t \<Rightarrow> bool"
  assumes evict_inv: "inv t \<Longrightarrow> inv (snd (evict i t))"
    and evict_gate: "inv t \<Longrightarrow> gate (snd (evict i t)) = gate t"
    and evict_residents: "inv t \<Longrightarrow>
      set (residents (snd (evict i t))) = {r \<in> set (residents t). fst r \<noteq> i}"
    and evict_found: "inv t \<Longrightarrow> fst (evict i t) \<longleftrightarrow> i \<in> fst ` set (residents t)"
    and residents_distinct: "inv t \<Longrightarrow> distinct (map fst (residents t))"
begin

lemma evict_all_inv: "inv t \<Longrightarrow> inv (snd (evict_all evict is n t))"
  by (induction "is" arbitrary: n t) (auto simp: case_prod_beta evict_inv)

lemma evict_all_gate: "inv t \<Longrightarrow> gate (snd (evict_all evict is n t)) = gate t"
  by (induction "is" arbitrary: n t) (auto simp: case_prod_beta evict_inv evict_gate)

lemma evict_all_residents:
  "inv t \<Longrightarrow> set (residents (snd (evict_all evict is n t)))
     = {r \<in> set (residents t). fst r \<notin> set is}"
  by (induction "is" arbitrary: n t) (auto simp: case_prod_beta evict_inv evict_residents)

lemma evict_all_count:
  "inv t \<Longrightarrow> distinct is \<Longrightarrow> set is \<subseteq> fst ` set (residents t) \<Longrightarrow>
   fst (evict_all evict is n t) = n + length is"
proof (induction "is" arbitrary: n t)
  case (Cons i "is")
  let ?t = "snd (evict i t)"
  have "set is \<subseteq> fst ` set (residents ?t)"
    using Cons.prems by (force simp: evict_residents [OF Cons.prems(1)])
  moreover have "fst (evict i t)" using Cons.prems by (simp add: evict_found)
  ultimately show ?case
    using Cons.IH [of ?t "n + 1"] Cons.prems by (simp add: case_prod_beta evict_inv)
qed simp

text \<open>The sweep keeps the invariant and the gate and drops exactly the doomed contacts.\<close>

lemma sweep_exact:
  assumes "inv t"
  defines "t' \<equiv> snd (evict_blocked_contacts gate residents evict t)"
  shows "inv t'" and "gate t' = gate t"
    and "set (residents t') = {r \<in> set (residents t). \<not> doomed (gate t) (snd r)}"
    and "fst (evict_blocked_contacts gate residents evict t)
      = length (filter (\<lambda>r. doomed (gate t) (snd r)) (residents t))"
proof -
  let ?v = "map fst (filter (\<lambda>r. doomed (gate t) (snd r)) (residents t))"
  have t': "evict_blocked_contacts gate residents evict t = evict_all evict ?v 0 t"
    by (simp add: evict_blocked_contacts_def)
  have d: "distinct (map fst (residents t))" using assms(1) by (rule residents_distinct)
  then have dv: "distinct ?v"
    by (metis distinct_map_filter)
  show "inv t'" "gate t' = gate t"
    using assms(1) by (simp_all add: t'_def t' evict_all_inv evict_all_gate)
  have "fst r \<in> set ?v \<longleftrightarrow> doomed (gate t) (snd r)" if r: "r \<in> set (residents t)" for r
  proof
    assume "fst r \<in> set ?v"
    then obtain ip where "(fst r, ip) \<in> set (residents t)" "doomed (gate t) ip" by auto
    moreover have "(fst r, snd r) \<in> set (residents t)" using r by simp
    ultimately show "doomed (gate t) (snd r)"
      using eq_key_imp_eq_value [OF d] by metis
  next
    assume "doomed (gate t) (snd r)"
    then have "r \<in> set (filter (\<lambda>r. doomed (gate t) (snd r)) (residents t))"
      using r by simp
    then show "fst r \<in> set ?v" by (metis image_eqI set_map)
  qed
  then show "set (residents t') = {r \<in> set (residents t). \<not> doomed (gate t) (snd r)}"
    using assms(1) by (auto simp: t'_def t' evict_all_residents)
  have "set ?v \<subseteq> fst ` set (residents t)" by auto
  then show "fst (evict_blocked_contacts gate residents evict t)
      = length (filter (\<lambda>r. doomed (gate t) (snd r)) (residents t))"
    using evict_all_count [OF assms(1) dv, of 0] by (simp add: t')
qed

end

section \<open>Properties of the gate\<close>



end
