(* ===== verification/Routing_Bin.thy ===== *)
theory Routing_Bin
  imports Dht_Common
begin

text \<open>
  The leaf container of the KAD routing table: \<^verbatim>\<open>RoutingBin\<close> and the limit checks of
  \<^verbatim>\<open>src-tauri/src/network/kad/routing.rs\<close>. A bin is the list of its contacts, the front
  of the \<^verbatim>\<open>VecDeque\<close> first. \<open>bin_ok\<close> is the bin's invariant (at most \<open>K\<close> contacts, no
  duplicate identifier, at most two non-LAN contacts per /24); every operation keeps it.
\<close>

section \<open>Constants\<close>

definition K_BUCKET_SIZE :: nat where "K_BUCKET_SIZE = 10"
definition MAX_CONTACTS_IP :: nat where "MAX_CONTACTS_IP = 1"
definition MAX_CONTACTS_SUBNET :: nat where "MAX_CONTACTS_SUBNET = 10"
definition MAX_CONTACTS_SUBNET_PER_BIN :: nat where "MAX_CONTACTS_SUBNET_PER_BIN = 2"

lemmas bin_limits = K_BUCKET_SIZE_def MAX_CONTACTS_IP_def MAX_CONTACTS_SUBNET_def
  MAX_CONTACTS_SUBNET_PER_BIN_def

section \<open>Bins\<close>

type_synonym routing_bin = "kad_contact list"
type_synonym ip_counts = "ipv4 \<rightharpoonup> nat"
type_synonym subnet_counts = "u32 \<rightharpoonup> nat"

definition bin_remaining :: "routing_bin \<Rightarrow> nat" where
  "bin_remaining b = K_BUCKET_SIZE - length b"

definition bin_get_contact :: "kad_id \<Rightarrow> routing_bin \<Rightarrow> kad_contact option" where
  "bin_get_contact i b = find (\<lambda>c. cid c = i) b"

text \<open>\<^verbatim>\<open>get_contact_mut\<close> and an assignment through the reference it returns.\<close>

fun bin_update_contact :: "kad_id \<Rightarrow> (kad_contact \<Rightarrow> kad_contact) \<Rightarrow> routing_bin \<Rightarrow> routing_bin" where
  "bin_update_contact i f [] = []"
| "bin_update_contact i f (c # b) =
     (if cid c = i then f c # b else c # bin_update_contact i f b)"

text \<open>\<^verbatim>\<open>position\<close> followed by \<^verbatim>\<open>remove\<close>.\<close>

fun remove_first :: "('a \<Rightarrow> bool) \<Rightarrow> 'a list \<Rightarrow> 'a option \<times> 'a list" where
  "remove_first P [] = (None, [])"
| "remove_first P (x # xs) =
     (if P x then (Some x, xs)
      else let (r, ys) = remove_first P xs in (r, x # ys))"

definition push_to_bottom :: "kad_id \<Rightarrow> routing_bin \<Rightarrow> routing_bin" where
  "push_to_bottom i b =
     (case remove_first (\<lambda>c. cid c = i) b of
        (Some c, b') \<Rightarrow> b' @ [c]
      | (None, _) \<Rightarrow> b)"

definition same_subnets :: "u32 \<Rightarrow> routing_bin \<Rightarrow> nat" where
  "same_subnets snet b = length (filter (\<lambda>c. subnet_key (cip c) = snet) b)"

definition bin_add_contact :: "kad_contact \<Rightarrow> routing_bin \<Rightarrow> bool \<times> routing_bin" where
  "bin_add_contact c b =
     (if \<exists>d \<in> set b. cid d = cid c then (False, b)
      else if MAX_CONTACTS_SUBNET_PER_BIN \<le> same_subnets (subnet_key (cip c)) b
              \<and> \<not> is_lan_ip (cip c) then (False, b)
      else if length b < K_BUCKET_SIZE then (True, b @ [c])
      else (False, b))"

definition bin_remove_contact :: "kad_id \<Rightarrow> routing_bin \<Rightarrow> kad_contact option \<times> routing_bin" where
  "bin_remove_contact i b = remove_first (\<lambda>c. cid c = i) b"

definition replace_unverified :: "kad_contact \<Rightarrow> routing_bin \<Rightarrow> ipv4 option \<times> routing_bin" where
  "replace_unverified c b =
     (if \<exists>d \<in> set b. cid d = cid c then (None, b)
      else case remove_first (\<lambda>d. \<not> verified d) b of
        (None, _) \<Rightarrow> (None, b)
      | (Some victim, rest) \<Rightarrow>
          if MAX_CONTACTS_SUBNET_PER_BIN \<le> same_subnets (subnet_key (cip c)) rest
             \<and> \<not> is_lan_ip (cip c) then (None, b)
          else (Some (cip victim), rest @ [c]))"

definition change_contact_ip ::
  "kad_id \<Rightarrow> ipv4 \<Rightarrow> ip_counts \<Rightarrow> subnet_counts \<Rightarrow> routing_bin \<Rightarrow> bool \<times> routing_bin" where
  "change_contact_ip i new_ip gip gsub b =
     (case bin_get_contact i b of
        None \<Rightarrow> (False, b)
      | Some c \<Rightarrow>
          if cip c = new_ip then (True, b)
          else if MAX_CONTACTS_IP \<le> count_of gip new_ip then (False, b)
          else let old_snet = subnet_key (cip c); new_snet = subnet_key new_ip
               in if old_snet \<noteq> new_snet \<and> \<not> is_lan_ip new_ip
                     \<and> (MAX_CONTACTS_SUBNET \<le> count_of gsub new_snet
                        \<or> MAX_CONTACTS_SUBNET_PER_BIN \<le> same_subnets new_snet b)
                  then (False, b)
                  else (True, bin_update_contact i (set_ip new_ip) b))"

type_synonym closest_map = "((kad_id \<times> ipv4 \<times> u16) \<times> kad_contact) list"

definition bin_get_closest_to ::
  "u8 \<Rightarrow> kad_id \<Rightarrow> nat \<Rightarrow> bool \<Rightarrow> routing_bin \<Rightarrow> closest_map \<Rightarrow> closest_map" where
  "bin_get_closest_to max_type target max_required require_verified b result =
     btree_truncate max_required
       (fold (\<lambda>c m. if contact_type c \<le> max_type \<and> (\<not> require_verified \<or> verified c)
                    then btree_insert (xor_distance target (cid c), cip c, udp_port c) c m
                    else m) b result)"

section \<open>Global limits\<close>

definition check_global_limits_replacing ::
  "ipv4 \<Rightarrow> ipv4 option \<Rightarrow> ip_counts \<Rightarrow> subnet_counts \<Rightarrow> bool" where
  "check_global_limits_replacing ip victim_ip gip gsub =
     (let ip_count = (if victim_ip = Some ip then count_of gip ip - 1 else count_of gip ip)
      in if MAX_CONTACTS_IP \<le> ip_count then False
         else if \<not> is_lan_ip ip then
           let snet = subnet_key ip;
               snet_count = (case victim_ip of
                   Some victim \<Rightarrow>
                     if \<not> is_lan_ip victim \<and> subnet_key victim = snet
                     then count_of gsub snet - 1 else count_of gsub snet
                 | None \<Rightarrow> count_of gsub snet)
           in \<not> MAX_CONTACTS_SUBNET \<le> snet_count
         else True)"

definition check_global_limits :: "ipv4 \<Rightarrow> ip_counts \<Rightarrow> subnet_counts \<Rightarrow> bool" where
  "check_global_limits ip gip gsub = check_global_limits_replacing ip None gip gsub"

section \<open>Updating a known contact\<close>

text \<open>
  \<^verbatim>\<open>apply_existing_contact_update\<close>: the result is the pair of old and new address when
  the address changed.
\<close>

definition udp_key_conflict :: "u32 option \<Rightarrow> kad_contact \<Rightarrow> kad_contact \<Rightarrow> bool" where
  "udp_key_conflict external_ip existing c =
     (case udp_key existing of
        None \<Rightarrow> False
      | Some k \<Rightarrow>
          is_valid k \<and>
          (let (stored, incoming) =
             (case external_ip of
                Some our_ip \<Rightarrow>
                  (get_key_value k our_ip,
                   case udp_key c of None \<Rightarrow> 0 | Some k' \<Rightarrow> get_key_value k' our_ip)
              | None \<Rightarrow> (key k, case udp_key c of None \<Rightarrow> 0 | Some k' \<Rightarrow> key k'))
           in stored \<noteq> 0 \<and> incoming \<noteq> stored))"

definition is_legacy_kad2 :: "kad_contact \<Rightarrow> bool" where
  "is_legacy_kad2 c \<longleftrightarrow> KADEMLIA_VERSION1_46C \<le> version c \<and> version c < KADEMLIA_VERSION6_49ABETA"

definition same_values :: "kad_contact \<Rightarrow> kad_contact \<Rightarrow> bool" where
  "same_values existing c \<longleftrightarrow> cip existing = cip c \<and> tcp_port existing = tcp_port c
     \<and> version existing = version c \<and> udp_port existing = udp_port c"

definition overwrite_contact :: "int \<Rightarrow> kad_contact \<Rightarrow> kad_contact \<Rightarrow> kad_contact" where
  "overwrite_contact now c existing =
     (let e1 = existing\<lparr>udp_port := udp_port c, tcp_port := tcp_port c\<rparr>;
          e2 = (if version e1 \<le> version c then e1\<lparr>version := version c\<rparr> else e1);
          e3 = (if verified c \<and> \<not> verified e2 then e2\<lparr>verified := True\<rparr> else e2);
          e4 = (if udp_key c \<noteq> None then e3\<lparr>udp_key := udp_key c\<rparr> else e3);
          e5 = e4\<lparr>kad_options := kad_options c\<rparr>;
          e6 = (if received_hello c then e5\<lparr>received_hello := True\<rparr> else e5)
      in update_type now e6)"

definition apply_existing_contact_update ::
  "int \<Rightarrow> kad_contact \<Rightarrow> u32 option \<Rightarrow> ip_counts \<Rightarrow> subnet_counts \<Rightarrow> routing_bin
   \<Rightarrow> (ipv4 \<times> ipv4) option \<times> routing_bin" where
  "apply_existing_contact_update now c external_ip gip gsub b =
     (case bin_get_contact (cid c) b of
        None \<Rightarrow> (None, b)
      | Some existing \<Rightarrow>
          if udp_key_conflict external_ip existing c then (None, b)
          else if is_legacy_kad2 existing \<and> received_hello existing then
            (None, if same_values existing c
                   then push_to_bottom (cid c) (bin_update_contact (cid c) (update_type now) b)
                   else b)
          else
            let old_ip = cip existing;
                (ok, b1) = (if old_ip \<noteq> cip c then change_contact_ip (cid c) (cip c) gip gsub b
                            else (True, b))
            in if \<not> ok then (None, b1)
               else let b2 = push_to_bottom (cid c)
                               (bin_update_contact (cid c) (overwrite_contact now c) b1)
                    in (if old_ip \<noteq> cip c then Some (old_ip, cip c) else None, b2))"

section \<open>The invariant\<close>

definition bin_ok :: "routing_bin \<Rightarrow> bool" where
  "bin_ok b \<longleftrightarrow> length b \<le> K_BUCKET_SIZE \<and> distinct (map cid b)
     \<and> (\<forall>c \<in> set b. \<not> is_lan_ip (cip c) \<longrightarrow>
          same_subnets (subnet_key (cip c)) b \<le> MAX_CONTACTS_SUBNET_PER_BIN)"

text \<open>
  The invariant looks at identifiers and addresses only: \<open>ckey\<close> is that part of a contact,
  and operations are described by their effect on the multiset of these pairs.
\<close>

abbreviation ckey :: "kad_contact \<Rightarrow> kad_id \<times> ipv4" where
  "ckey c \<equiv> (cid c, cip c)"

definition ckeys :: "routing_bin \<Rightarrow> (kad_id \<times> ipv4) multiset" where
  "ckeys b = mset (map ckey b)"

text \<open>
  What the table accepts as an entry: neither the zero identifier nor our own, a KAD2
  contact on a nonzero UDP port that is not UDP-firewalled.
\<close>

definition entry_ok :: "kad_id \<Rightarrow> kad_contact \<Rightarrow> bool" where
  "entry_ok local_id c \<longleftrightarrow> cid c \<noteq> zero \<and> cid c \<noteq> local_id \<and> is_kad2 c \<and> udp_port c \<noteq> 0
     \<and> \<not> is_udp_firewalled c"

text \<open>
  An update of a known contact keeps the bin's pairs, or moves the one contact to an address
  that was free and within its subnet's limits.
\<close>

definition moved_ok :: "kad_id \<Rightarrow> (ipv4 \<times> ipv4) option \<Rightarrow> ip_counts \<Rightarrow> subnet_counts
  \<Rightarrow> (kad_id \<times> ipv4) multiset \<Rightarrow> (kad_id \<times> ipv4) multiset \<Rightarrow> bool" where
  "moved_ok i r gip gsub K K' \<longleftrightarrow>
     (case r of
        None \<Rightarrow> K' = K
      | Some (old, new) \<Rightarrow> old \<noteq> new \<and> count_of gip new < MAX_CONTACTS_IP
          \<and> (is_lan_ip new \<or> subnet_key old = subnet_key new
             \<or> count_of gsub (subnet_key new) < MAX_CONTACTS_SUBNET)
          \<and> (\<exists>M. K = add_mset (i, old) M \<and> K' = add_mset (i, new) M))"

section \<open>The invariant as a property of the multiset of pairs\<close>

lemma ckeys_simps [simp]:
  "ckeys [] = {#}" "ckeys (c # b) = add_mset (ckey c) (ckeys b)"
  "ckeys (a @ b) = ckeys a + ckeys b"
  by (simp_all add: ckeys_def)

lemma ckeys_mset: "mset a = mset b \<Longrightarrow> ckeys a = ckeys b"
  by (simp add: ckeys_def)

lemma ckeys_projections:
  "image_mset fst (ckeys b) = mset (map cid b)" "image_mset snd (ckeys b) = mset (map cip b)"
  "size (ckeys b) = length b"
  "same_subnets s b = size (filter_mset (\<lambda>k. subnet_key (snd k) = s) (ckeys b))"
  by (induction b) (auto simp: same_subnets_def)

lemma set_ckeys: "set_mset (ckeys b) = ckey ` set b"
  by (simp add: ckeys_def)

lemma bin_ok_cong:
  assumes "ckeys a = ckeys b"
  shows "bin_ok a \<longleftrightarrow> bin_ok b"
proof -
  have "length a = length b" using ckeys_projections(3) assms by metis
  moreover have "distinct (map cid a) \<longleftrightarrow> distinct (map cid b)"
    using ckeys_projections(1) assms by (metis mset_eq_imp_distinct_iff)
  moreover have "same_subnets s a = same_subnets s b" for s
    by (simp add: ckeys_projections(4) assms)
  moreover have "ckey ` set a = ckey ` set b" using assms set_ckeys by metis
  then have "snd ` ckey ` set a = snd ` ckey ` set b" by simp
  then have "cip ` set a = cip ` set b" by (simp add: image_image)
  then have "(\<forall>ip \<in> cip ` set a. \<not> is_lan_ip ip \<longrightarrow>
        same_subnets (subnet_key ip) b \<le> MAX_CONTACTS_SUBNET_PER_BIN)
     \<longleftrightarrow> (\<forall>ip \<in> cip ` set b. \<not> is_lan_ip ip \<longrightarrow>
        same_subnets (subnet_key ip) b \<le> MAX_CONTACTS_SUBNET_PER_BIN)"
    by simp
  ultimately show ?thesis by (simp add: bin_ok_def)
qed

lemma same_subnets_simps [simp]:
  "same_subnets s [] = 0"
  "same_subnets s (c # b) = of_bool (subnet_key (cip c) = s) + same_subnets s b"
  "same_subnets s (a @ b) = same_subnets s a + same_subnets s b"
  by (simp_all add: same_subnets_def)

lemma bin_ok_Nil [simp]: "bin_ok []"
  by (simp add: bin_ok_def)

lemma bin_ok_Cons:
  "bin_ok (c # b) \<longleftrightarrow> bin_ok b \<and> length b < K_BUCKET_SIZE \<and> cid c \<notin> cid ` set b
     \<and> (is_lan_ip (cip c) \<or> same_subnets (subnet_key (cip c)) b < MAX_CONTACTS_SUBNET_PER_BIN)"
  (is "_ \<longleftrightarrow> ?R")
proof
  assume ok: "bin_ok (c # b)"
  then have "\<forall>d \<in> set b. \<not> is_lan_ip (cip d) \<longrightarrow>
      same_subnets (subnet_key (cip d)) b \<le> MAX_CONTACTS_SUBNET_PER_BIN"
    by (auto simp: bin_ok_def dest!: bspec)
  with ok show ?R by (auto simp: bin_ok_def)
next
  assume R: ?R
  have "same_subnets (subnet_key (cip d)) (c # b) \<le> MAX_CONTACTS_SUBNET_PER_BIN"
    if "d \<in> set b" "\<not> is_lan_ip (cip d)" for d
  proof (cases "subnet_key (cip c) = subnet_key (cip d)")
    case True
    then show ?thesis using R that is_lan_ip_subnet [OF True] by auto
  next
    case False
    then show ?thesis using R that by (auto simp: bin_ok_def)
  qed
  then show "bin_ok (c # b)" using R by (auto simp: bin_ok_def)
qed

lemma bin_ok_snoc:
  "bin_ok (b @ [c]) \<longleftrightarrow> bin_ok b \<and> length b < K_BUCKET_SIZE \<and> cid c \<notin> cid ` set b
     \<and> (is_lan_ip (cip c) \<or> same_subnets (subnet_key (cip c)) b < MAX_CONTACTS_SUBNET_PER_BIN)"
  by (simp add: bin_ok_Cons [symmetric] bin_ok_cong [of "b @ [c]" "c # b"])

lemma same_subnets_filter: "same_subnets s (filter P b) \<le> same_subnets s b"
  by (induction b) auto

lemma bin_ok_filter: "bin_ok b \<Longrightarrow> bin_ok (filter P b)"
proof (induction b)
  case (Cons c b)
  have "length (filter P b) < K_BUCKET_SIZE" if "length b < K_BUCKET_SIZE"
    using that length_filter_le [of P b] by linarith
  moreover have "same_subnets s (filter P b) < n" if "same_subnets s b < n" for s n
    using that same_subnets_filter [of s P b] by linarith
  ultimately show ?case using Cons by (auto simp: bin_ok_Cons)
qed simp

section \<open>What each operation does\<close>

lemma remove_first_cases:
  "remove_first P xs = (None, xs) \<and> (\<forall>x \<in> set xs. \<not> P x)
   \<or> (\<exists>us x vs. xs = us @ x # vs \<and> P x \<and> (\<forall>u \<in> set us. \<not> P u)
        \<and> remove_first P xs = (Some x, us @ vs))"
proof (induction xs)
  case (Cons y xs)
  then show ?case
  proof (cases "P y")
    case True
    then show ?thesis by (intro disjI2 exI [of _ "[]"] exI [of _ y] exI [of _ xs]) simp
  next
    case False
    from Cons show ?thesis
    proof
      assume "\<exists>us x vs. xs = us @ x # vs \<and> P x \<and> (\<forall>u \<in> set us. \<not> P u)
        \<and> remove_first P xs = (Some x, us @ vs)"
      then obtain us x vs where "xs = us @ x # vs" "P x" "\<forall>u \<in> set us. \<not> P u"
        "remove_first P xs = (Some x, us @ vs)" by blast
      then show ?thesis using False
        by (intro disjI2 exI [of _ "y # us"] exI [of _ x] exI [of _ vs]) simp
    qed (use False in simp)
  qed
qed simp

lemma remove_first_None: "remove_first P xs = (None, ys) \<Longrightarrow> ys = xs \<and> (\<forall>x \<in> set xs. \<not> P x)"
  using remove_first_cases [of P xs] by auto

lemma remove_first_Some:
  "remove_first P xs = (Some x, ys) \<Longrightarrow> P x \<and> mset xs = add_mset x (mset ys)"
  using remove_first_cases [of P xs] by auto

lemma remove_first_find: "fst (remove_first P xs) = find P xs"
  by (induction xs) (auto simp: case_prod_beta)

lemma mset_push_to_bottom [simp]: "mset (push_to_bottom i b) = mset b"
proof (cases "remove_first (\<lambda>c. cid c = i) b")
  case (Pair r b')
  then show ?thesis using remove_first_Some [of "\<lambda>c. cid c = i" b]
    by (cases r) (simp_all add: push_to_bottom_def)
qed

lemma push_to_bottom_keeps [simp]:
  "ckeys (push_to_bottom i b) = ckeys b" "set (push_to_bottom i b) = set b"
  by (rule ckeys_mset, simp) (metis mset_push_to_bottom set_mset_mset)

lemma any_cid: "(\<exists>d \<in> set b. cid d = i) \<longleftrightarrow> i \<in> cid ` set b"
  by auto

lemma bin_add_contact_True:
  assumes "bin_add_contact c b = (True, b')"
  shows "b' = b @ [c]" "cid c \<notin> cid ` set b" "bin_ok b \<Longrightarrow> bin_ok b'"
  using assms by (auto simp: bin_add_contact_def any_cid bin_ok_snoc not_le split: if_splits)

lemma bin_add_contact_False: "bin_add_contact c b = (False, b') \<Longrightarrow> b' = b"
  by (auto simp: bin_add_contact_def any_cid split: if_splits)

lemma bin_add_contact_fits:
  "bin_ok (b @ [c]) \<Longrightarrow> bin_add_contact c b = (True, b @ [c])"
  by (auto simp: bin_add_contact_def any_cid bin_ok_snoc)

lemma bin_remove_contact_Some:
  assumes "bin_remove_contact i b = (Some r, b')"
  shows "cid r = i" "mset b = add_mset r (mset b')" "bin_ok b \<Longrightarrow> bin_ok b'"
proof -
  show "cid r = i" and m: "mset b = add_mset r (mset b')"
    using remove_first_Some assms unfolding bin_remove_contact_def by fast+
  show "bin_ok b \<Longrightarrow> bin_ok b'"
    using m ckeys_mset [of b "r # b'"] bin_ok_cong [of b "r # b'"] by (simp add: bin_ok_Cons)
qed

lemma bin_remove_contact_None:
  "bin_remove_contact i b = (None, b') \<Longrightarrow> b' = b \<and> i \<notin> cid ` set b"
  using remove_first_None [of "\<lambda>c. cid c = i" b b'] by (auto simp: bin_remove_contact_def)

lemma replace_unverified_Some:
  assumes "replace_unverified c b = (Some ip, b')" "bin_ok b"
  shows "\<exists>v. \<not> verified v \<and> find (\<lambda>d. \<not> verified d) b = Some v \<and> cip v = ip
    \<and> (\<exists>b0. mset b = add_mset v (mset b0) \<and> b' = b0 @ [c])"
    and "bin_ok b'" "cid c \<notin> cid ` set b"
proof -
  obtain v b0 where r: "remove_first (\<lambda>d. \<not> verified d) b = (Some v, b0)"
    and new: "cid c \<notin> cid ` set b" and b': "b' = b0 @ [c]" "cip v = ip"
    and lim: "\<not> (MAX_CONTACTS_SUBNET_PER_BIN \<le> same_subnets (subnet_key (cip c)) b0
             \<and> \<not> is_lan_ip (cip c))"
    using assms(1) by (auto simp: replace_unverified_def any_cid split: if_splits prod.splits option.splits)
  have m: "\<not> verified v" "mset b = add_mset v (mset b0)" using remove_first_Some [OF r] by auto
  have f: "find (\<lambda>d. \<not> verified d) b = Some v"
    using remove_first_find [of "\<lambda>d. \<not> verified d" b] r by simp
  show "\<exists>v. \<not> verified v \<and> find (\<lambda>d. \<not> verified d) b = Some v \<and> cip v = ip
    \<and> (\<exists>b0. mset b = add_mset v (mset b0) \<and> b' = b0 @ [c])"
    using m f b' by blast
  have "bin_ok (v # b0)"
    using m(2) assms(2) ckeys_mset [of b "v # b0"] bin_ok_cong [of b "v # b0"] by simp
  moreover have "set b0 \<subseteq> set b" using m(2) by (metis set_mset_mset set_mset_add_mset_insert subset_insertI)
  ultimately show "bin_ok b'" using new lim b' by (auto simp: bin_ok_snoc bin_ok_Cons)
  show "cid c \<notin> cid ` set b" by fact
qed

lemma bin_get_contact_Some: "bin_get_contact i b = Some c \<Longrightarrow> c \<in> set b \<and> cid c = i"
  by (auto simp: bin_get_contact_def find_Some_iff)

lemma bin_get_contact_None: "bin_get_contact i b = None \<longleftrightarrow> i \<notin> cid ` set b"
  by (auto simp: bin_get_contact_def find_None_iff)

lemma bin_update_contact_absent [simp]: "i \<notin> cid ` set b \<Longrightarrow> bin_update_contact i f b = b"
  by (induction b) auto

lemma bin_update_contact_split:
  assumes "bin_get_contact i b = Some c"
  obtains us vs where "b = us @ c # vs" "bin_update_contact i f b = us @ f c # vs"
  using assms
proof (induction b arbitrary: thesis)
  case (Cons d b)
  show ?case
  proof (cases "cid d = i")
    case True
    then show ?thesis using Cons.prems(1) [of "[]" b] Cons.prems(2)
      by (simp add: bin_get_contact_def)
  next
    case False
    then obtain us vs where "b = us @ c # vs" "bin_update_contact i f b = us @ f c # vs"
      using Cons by (auto simp: bin_get_contact_def)
    then show ?thesis using Cons.prems(1) [of "d # us" vs] False by simp
  qed
qed (simp add: bin_get_contact_def)

lemma ckeys_bin_update_contact:
  "(\<And>c. cid (f c) = cid c \<and> cip (f c) = cip c) \<Longrightarrow> ckeys (bin_update_contact i f b) = ckeys b"
  by (induction b) auto

lemma set_bin_update_contact:
  "d \<in> set (bin_update_contact i f b) \<Longrightarrow> d \<in> set b \<or> (\<exists>c \<in> set b. cid c = i \<and> d = f c)"
  by (induction b) (auto split: if_splits)

lemma change_contact_ip_changed:
  assumes ch: "change_contact_ip i ip gip gsub b = (True, b')"
    and c: "bin_get_contact i b = Some c" "cip c \<noteq> ip"
  shows "b' = bin_update_contact i (set_ip ip) b"
    and "count_of gip ip < MAX_CONTACTS_IP"
    and "is_lan_ip ip \<or> subnet_key (cip c) = subnet_key ip
      \<or> count_of gsub (subnet_key ip) < MAX_CONTACTS_SUBNET"
    and "bin_ok b \<Longrightarrow> bin_ok b'"
proof -
  have lim: "is_lan_ip ip \<or> subnet_key (cip c) = subnet_key ip
      \<or> count_of gsub (subnet_key ip) < MAX_CONTACTS_SUBNET
        \<and> same_subnets (subnet_key ip) b < MAX_CONTACTS_SUBNET_PER_BIN"
    and b': "b' = bin_update_contact i (set_ip ip) b" "count_of gip ip < MAX_CONTACTS_IP"
    using ch c by (auto simp: change_contact_ip_def Let_def not_le split: if_splits)
  show "b' = bin_update_contact i (set_ip ip) b" "count_of gip ip < MAX_CONTACTS_IP" by fact+
  show "is_lan_ip ip \<or> subnet_key (cip c) = subnet_key ip
      \<or> count_of gsub (subnet_key ip) < MAX_CONTACTS_SUBNET" using lim by blast
  assume "bin_ok b"
  obtain us vs where s: "b = us @ c # vs" "b' = us @ set_ip ip c # vs"
    using bin_update_contact_split [OF c(1), where f = "set_ip ip"] b'(1) by blast
  have ok: "bin_ok (c # us @ vs)"
    using \<open>bin_ok b\<close> s(1) bin_ok_cong [of b "c # us @ vs"] by simp
  have "is_lan_ip ip \<or> same_subnets (subnet_key ip) (us @ vs) < MAX_CONTACTS_SUBNET_PER_BIN"
    using lim
  proof (elim disjE)
    assume e: "subnet_key (cip c) = subnet_key ip"
    show ?thesis using ok is_lan_ip_subnet [OF e] unfolding bin_ok_Cons e by blast
  qed (auto simp: s(1))
  then have "bin_ok (set_ip ip c # us @ vs)" using ok by (auto simp: bin_ok_Cons)
  then show "bin_ok b'" using s(2) bin_ok_cong [of b' "set_ip ip c # us @ vs"] by simp
qed

lemma change_contact_ip_False: "change_contact_ip i ip gip gsub b = (False, b') \<Longrightarrow> b' = b"
  by (auto simp: change_contact_ip_def Let_def split: option.splits if_splits)

lemma overwrite_contact_frame [simp]:
  "cid (overwrite_contact now c d) = cid d" "cip (overwrite_contact now c d) = cip d"
  "udp_port (overwrite_contact now c d) = udp_port c"
  "kad_options (overwrite_contact now c d) = kad_options c"
  "version (overwrite_contact now c d) = max (version d) (version c)"
  by (simp_all add: overwrite_contact_def Let_def max_def)

lemma entry_ok_overwrite:
  "entry_ok l d \<Longrightarrow> entry_ok l c \<Longrightarrow> entry_ok l (overwrite_contact now c d)"
  by (auto simp: entry_ok_def is_kad2_def is_udp_firewalled_def max_def)

lemma entry_ok_frame [simp]:
  "entry_ok l (update_type now c) = entry_ok l c" "entry_ok l (set_ip ip c) = entry_ok l c"
  by (simp_all add: entry_ok_def is_kad2_def is_udp_firewalled_def set_ip_def)

lemma apply_update_effect:
  assumes "apply_existing_contact_update now c ext gip gsub b = (r, b')" "bin_ok b"
  shows "bin_ok b' \<and> moved_ok (cid c) r gip gsub (ckeys b) (ckeys b')"
proof (cases "bin_get_contact (cid c) b")
  case None
  then show ?thesis using assms by (simp add: apply_existing_contact_update_def moved_ok_def)
next
  case (Some d)
  let ?upd = "\<lambda>x. push_to_bottom (cid c) (bin_update_contact (cid c) (overwrite_contact now c) x)"
  have keep: "ckeys (?upd x) = ckeys x" for x
    by (simp add: ckeys_bin_update_contact)
  have touch: "ckeys (push_to_bottom (cid c) (bin_update_contact (cid c) (update_type now) b)) = ckeys b"
    by (simp add: ckeys_bin_update_contact)
  consider (same) "r = None" "ckeys b' = ckeys b"
    | (moved) x where "cip d \<noteq> cip c" "change_contact_ip (cid c) (cip c) gip gsub b = (True, x)"
        "r = Some (cip d, cip c)" "b' = ?upd x"
    using assms(1) Some keep touch
    unfolding apply_existing_contact_update_def Let_def
    by (auto split: if_splits prod.splits dest!: change_contact_ip_False)
  then show ?thesis
  proof cases
    case same
    then show ?thesis using assms(2) bin_ok_cong [of b' b] by (simp add: moved_ok_def)
  next
    case moved
    note ch = change_contact_ip_changed [OF moved(2) Some moved(1)]
    have "bin_ok b'" using ch(4) assms(2) moved(4) keep bin_ok_cong by metis
    moreover obtain us vs where s: "b = us @ d # vs" "x = us @ set_ip (cip c) d # vs"
      using bin_update_contact_split [OF Some, where f = "set_ip (cip c)"] ch(1) by blast
    moreover have "cid d = cid c" using bin_get_contact_Some [OF Some] by simp
    ultimately show ?thesis using ch(2,3) moved keep
      by (auto simp: moved_ok_def intro!: exI [of _ "ckeys (us @ vs)"])
  qed
qed

lemma apply_update_entries:
  assumes "apply_existing_contact_update now c ext gip gsub b = (r, b')"
    and "\<forall>d \<in> set b. entry_ok l d" "entry_ok l c"
  shows "\<forall>d \<in> set b'. entry_ok l d"
proof -
  have upd: "\<forall>d \<in> set (bin_update_contact i f x). entry_ok l d"
    if "\<forall>d \<in> set x. entry_ok l d" "\<And>d. entry_ok l d \<Longrightarrow> entry_ok l (f d)" for i f x
    using set_bin_update_contact [of _ i f x] that by blast
  have ch: "\<forall>d \<in> set x. entry_ok l d" if "change_contact_ip i ip gip gsub b = (ok, x)" for i ip ok x
    using that assms(2) upd [OF assms(2), of "set_ip ip"]
    by (auto simp: change_contact_ip_def Let_def split: option.splits if_splits)
  have one: "\<forall>d \<in> set (push_to_bottom i (bin_update_contact i (update_type now) b)). entry_ok l d"
    for i using upd [OF assms(2), of "update_type now"] by simp
  have two: "\<forall>d \<in> set (push_to_bottom i (bin_update_contact i (overwrite_contact now c) x)). entry_ok l d"
    if "\<forall>d \<in> set x. entry_ok l d" for i x
    using upd [OF that, of "overwrite_contact now c"] entry_ok_overwrite assms(3) by simp
  show ?thesis
    using assms(1,2) one two [OF assms(2)] two [OF ch] ch
    unfolding apply_existing_contact_update_def Let_def
    by (auto split: option.splits if_splits prod.splits)
qed

lemma apply_update_ignored:
  assumes "bin_get_contact (cid c) b = Some d" "udp_key_conflict ext d c"
  shows "apply_existing_contact_update now c ext gip gsub b = (None, b)"
  using assms by (simp add: apply_existing_contact_update_def)

end
