(* ===== verification/Routing_Zone.thy ===== *)
theory Routing_Zone
  imports Routing_Bin
begin

text \<open>
  The zone tree of the KAD routing table: \<^verbatim>\<open>RoutingZone\<close> of
  \<^verbatim>\<open>src-tauri/src/network/kad/routing.rs\<close>. A zone is a leaf holding a bin or an inner
  node with two children. A function of the source that reads the clock takes the time as
  the argument \<open>now\<close>; one that draws random bits takes them as an argument. References to
  mutable parts of the tree become functions that apply an update where the source writes
  through the reference.

  \<open>zone_ok\<close> is the tree's invariant: the levels and zone indices of the nodes agree with
  their place, and every contact lies in the leaf its XOR distance to our identifier leads
  to. Every operation keeps it.
\<close>

section \<open>Constants and the tree\<close>

definition KK :: u32 where "KK = 5"
definition KBASE :: nat where "KBASE = 4"
definition LOG_BASE_EXPONENT :: nat where "LOG_BASE_EXPONENT = 5"
definition BIG_TIMER_INTERVAL_SECS :: int where "BIG_TIMER_INTERVAL_SECS = 3600"
definition BIG_TIMER_INITIAL_SECS :: int where "BIG_TIMER_INITIAL_SECS = 10"
definition BIG_TIMER_GLOBAL_GAP_SECS :: int where "BIG_TIMER_GLOBAL_GAP_SECS = 10"
definition BIG_TIMER_DISCONNECT_BYPASS_SECS :: int where
  "BIG_TIMER_DISCONNECT_BYPASS_SECS = 20 * 60 - 5 * 60"
definition SMALL_TIMER_INTERVAL_SECS :: int where "SMALL_TIMER_INTERVAL_SECS = 60"

lemmas zone_consts = KK_def KBASE_def BIG_TIMER_INTERVAL_SECS_def BIG_TIMER_INITIAL_SECS_def
  BIG_TIMER_GLOBAL_GAP_SECS_def BIG_TIMER_DISCONNECT_BYPASS_SECS_def SMALL_TIMER_INTERVAL_SECS_def

record zone_meta =
  level :: nat
  zone_index :: kad_id
  event_order :: nat
  next_big_timer :: int
  next_small_timer :: int

datatype routing_zone =
  RoutingZone (children: "(routing_zone \<times> routing_zone) option") (bin: "routing_bin option")
    (meta: zone_meta)

abbreviation zlevel :: "routing_zone \<Rightarrow> nat" where "zlevel z \<equiv> level (meta z)"
abbreviation zindex :: "routing_zone \<Rightarrow> kad_id" where "zindex z \<equiv> zone_index (meta z)"

definition new_leaf :: "int \<Rightarrow> nat \<Rightarrow> kad_id \<Rightarrow> nat \<Rightarrow> routing_zone" where
  "new_leaf now lv idx order =
     RoutingZone None (Some [])
       \<lparr>level = lv, zone_index = idx, event_order = order,
        next_big_timer = now + BIG_TIMER_INITIAL_SECS,
        next_small_timer = now + int (unat (chunk idx 3)) mod 3600\<rparr>"

definition is_leaf :: "routing_zone \<Rightarrow> bool" where
  "is_leaf z \<longleftrightarrow> bin z \<noteq> None"

definition can_split :: "routing_zone \<Rightarrow> bool" where
  "can_split z =
     (if 127 \<le> zlevel z then False
      else case bin z of
        None \<Rightarrow> False
      | Some b \<Rightarrow> (less_than_u32 (zindex z) KK \<or> zlevel z < KBASE) \<and> length b = K_BUCKET_SIZE)"

definition gen_sub_zone :: "int \<Rightarrow> nat \<Rightarrow> kad_id \<Rightarrow> nat \<Rightarrow> nat \<Rightarrow> routing_zone \<times> nat" where
  "gen_sub_zone now lv parent_index side order_gen =
     (let new_index = shift_left parent_index 1;
          new_index = (if side \<noteq> 0 then add_u32 new_index 1 else new_index)
      in (new_leaf now (lv + 1) new_index order_gen, order_gen + 1))"

text \<open>One contact handed to one of the two new bins; its address is noted when it does not fit.\<close>

definition distribute :: "kad_id \<Rightarrow> nat \<Rightarrow> kad_contact \<Rightarrow> routing_bin \<times> routing_bin \<times> ipv4 list
  \<Rightarrow> routing_bin \<times> routing_bin \<times> ipv4 list" where
  "distribute local_id lv c = (\<lambda>(b0, b1, dropped).
     if get_bit_number (xor_distance local_id (cid c)) lv = 0
     then let (added, b0') = bin_add_contact c b0
          in (b0', b1, if added then dropped else dropped @ [cip c])
     else let (added, b1') = bin_add_contact c b1
          in (b0, b1', if added then dropped else dropped @ [cip c]))"

definition set_bin :: "routing_bin \<Rightarrow> routing_zone \<Rightarrow> routing_zone" where
  "set_bin b z = RoutingZone (children z) (Some b) (meta z)"

definition split :: "int \<Rightarrow> kad_id \<Rightarrow> routing_zone \<Rightarrow> nat \<Rightarrow> ipv4 list
  \<Rightarrow> routing_zone \<times> nat \<times> ipv4 list" where
  "split now local_id z order_gen dropped =
     (case bin z of
        None \<Rightarrow> (z, order_gen, dropped)
      | Some b \<Rightarrow>
          let (child0, og1) = gen_sub_zone now (zlevel z) (zindex z) 0 order_gen;
              (child1, og2) = gen_sub_zone now (zlevel z) (zindex z) 1 og1;
              (b0, b1, dropped') = fold (distribute local_id (zlevel z)) b ([], [], dropped)
          in (RoutingZone (Some (set_bin b0 child0, set_bin b1 child1)) None (meta z), og2, dropped'))"

fun get_num_contacts :: "routing_zone \<Rightarrow> nat" where
  "get_num_contacts (RoutingZone ch (Some b) m) = length b mod 2 ^ 32"
| "get_num_contacts (RoutingZone (Some (z0, z1)) None m) =
     min (2 ^ 32 - 1) (get_num_contacts z0 + get_num_contacts z1)"
| "get_num_contacts (RoutingZone None None m) = 0"

text \<open>The loop that refills one bin from another when two leaves merge.\<close>

definition merge_into :: "kad_contact \<Rightarrow> routing_bin \<times> ipv4 list \<Rightarrow> routing_bin \<times> ipv4 list" where
  "merge_into c = (\<lambda>(nb, dropped).
     let (added, nb') = bin_add_contact c nb
     in (nb', if added then dropped else dropped @ [cip c]))"

definition should_merge :: "routing_zone \<Rightarrow> routing_zone \<Rightarrow> bool" where
  "should_merge z0 z1 \<longleftrightarrow> is_leaf z0 \<and> is_leaf z1
     \<and> get_num_contacts z0 + get_num_contacts z1 < K_BUCKET_SIZE div 2"

fun zone_consolidate :: "int \<Rightarrow> routing_zone \<Rightarrow> nat \<Rightarrow> ipv4 list
  \<Rightarrow> nat \<times> routing_zone \<times> nat \<times> ipv4 list" where
  "zone_consolidate now (RoutingZone ch (Some b) m) og dropped = (0, RoutingZone ch (Some b) m, og, dropped)"
| "zone_consolidate now (RoutingZone None None m) og dropped = (0, RoutingZone None None m, og, dropped)"
| "zone_consolidate now (RoutingZone (Some (z0, z1)) None m) og dropped =
     (let (n0, z0', og, dropped) =
            (if is_leaf z0 then (0, z0, og, dropped) else zone_consolidate now z0 og dropped);
          (n1, z1', og, dropped) =
            (if is_leaf z1 then (0, z1, og, dropped) else zone_consolidate now z1 og dropped)
      in if should_merge z0' z1' then
           let (nb, dropped) = fold merge_into (case bin z0' of Some b \<Rightarrow> b | None \<Rightarrow> []) ([], dropped);
               (nb, dropped) = fold merge_into (case bin z1' of Some b \<Rightarrow> b | None \<Rightarrow> []) (nb, dropped)
           in (n0 + n1 + 1,
               RoutingZone None (Some nb)
                 (m\<lparr>event_order := og,
                    next_big_timer := now + BIG_TIMER_INITIAL_SECS,
                    next_small_timer := now + int (unat (chunk (zone_index m) 3)) mod 3600\<rparr>),
               og + 1, dropped)
         else (n0 + n1, RoutingZone (Some (z0', z1')) None m, og, dropped))"

fun find_bin :: "kad_id \<Rightarrow> routing_zone \<Rightarrow> routing_bin option" where
  "find_bin d (RoutingZone ch (Some b) m) = Some b"
| "find_bin d (RoutingZone (Some (z0, z1)) None m) =
     (if get_bit_number d (level m) = 0 then find_bin d z0 else find_bin d z1)"
| "find_bin d (RoutingZone None None m) = None"

text \<open>\<^verbatim>\<open>find_bin_mut\<close>: apply \<open>f\<close> to the bin the search ends in.\<close>

fun find_bin_mut :: "kad_id \<Rightarrow> (routing_bin \<Rightarrow> 'r \<times> routing_bin) \<Rightarrow> routing_zone
  \<Rightarrow> 'r option \<times> routing_zone" where
  "find_bin_mut d f (RoutingZone ch (Some b) m) =
     (let (r, b') = f b in (Some r, RoutingZone ch (Some b') m))"
| "find_bin_mut d f (RoutingZone (Some (z0, z1)) None m) =
     (if get_bit_number d (level m) = 0
      then let (r, z0') = find_bin_mut d f z0 in (r, RoutingZone (Some (z0', z1)) None m)
      else let (r, z1') = find_bin_mut d f z1 in (r, RoutingZone (Some (z0, z1')) None m))"
| "find_bin_mut d f (RoutingZone None None m) = (None, RoutingZone None None m)"

text \<open>
  The loop over \<^verbatim>\<open>collect_leaves_mut\<close>: try \<open>f\<close> on the bins of the leaves from left to
  right and stop at the first success.
\<close>

fun scan_leaves_mut :: "(routing_bin \<Rightarrow> 'r option \<times> routing_bin) \<Rightarrow> routing_zone
  \<Rightarrow> 'r option \<times> routing_zone" where
  "scan_leaves_mut f (RoutingZone ch (Some b) m) =
     (let (r, b') = f b in (r, RoutingZone ch (Some b') m))"
| "scan_leaves_mut f (RoutingZone (Some (z0, z1)) None m) =
     (case scan_leaves_mut f z0 of
        (Some r, z0') \<Rightarrow> (Some r, RoutingZone (Some (z0', z1)) None m)
      | (None, z0') \<Rightarrow>
          let (r, z1') = scan_leaves_mut f z1 in (r, RoutingZone (Some (z0', z1')) None m))"
| "scan_leaves_mut f (RoutingZone None None m) = (None, RoutingZone None None m)"

section \<open>Adding a contact\<close>

datatype add_result = Added | Existing | Rejected | Failed

text \<open>The last step of \<^verbatim>\<open>add\<close>: a verified newcomer may take an unverified contact's place.\<close>

definition add_replacing :: "kad_contact \<Rightarrow> ip_counts \<Rightarrow> subnet_counts \<Rightarrow> routing_zone \<Rightarrow> ipv4 list
  \<Rightarrow> add_result \<times> routing_zone \<times> ipv4 list" where
  "add_replacing c gip gsub z dropped =
     (if verified c then
        case bin z of
          None \<Rightarrow> (Rejected, z, dropped)
        | Some b \<Rightarrow>
            (case find (\<lambda>d. \<not> verified d) b of
               None \<Rightarrow> (Rejected, z, dropped)
             | Some v \<Rightarrow>
                 if check_global_limits_replacing (cip c) (Some (cip v)) gip gsub then
                   case replace_unverified c b of
                     (Some evicted_ip, b') \<Rightarrow> (Added, set_bin b' z, dropped @ [evicted_ip])
                   | (None, b') \<Rightarrow> (Rejected, set_bin b' z, dropped)
                 else (Rejected, z, dropped))
      else (Rejected, z, dropped))"

text \<open>A bound on the height of the tree below a zone, for the recursion of \<^verbatim>\<open>add\<close>.\<close>

fun height :: "routing_zone \<Rightarrow> nat" where
  "height (RoutingZone None b m) = 0"
| "height (RoutingZone (Some (z0, z1)) b m) = Suc (max (height z0) (height z1))"

definition on_side :: "nat \<Rightarrow> (routing_zone \<Rightarrow> 'a \<times> routing_zone \<times> 'b) \<Rightarrow> zone_meta
  \<Rightarrow> routing_zone \<times> routing_zone \<Rightarrow> 'a \<times> routing_zone \<times> 'b" where
  "on_side side f m zs =
     (case zs of (z0, z1) \<Rightarrow>
        if side = 0
        then let (r, z0', st) = f z0 in (r, RoutingZone (Some (z0', z1)) None m, st)
        else let (r, z1', st) = f z1 in (r, RoutingZone (Some (z0, z1')) None m, st))"

lemma on_side_cong [fundef_cong]:
  assumes "side = side'" "m = m'" "zs = zs'"
    and "side' = 0 \<Longrightarrow> f (fst zs') = f' (fst zs')" "side' \<noteq> 0 \<Longrightarrow> f (snd zs') = f' (snd zs')"
  shows "on_side side f m zs = on_side side' f' m' zs'"
  using assms by (cases zs') (auto simp: on_side_def)

lemma split_children:
  assumes "can_split z" "split now local_id z og dropped = (z', og', dropped')" "children z' = Some (z0, z1)"
  shows "zlevel z < 127 \<and> height z0 = 0 \<and> height z1 = 0 \<and> zlevel z0 = zlevel z + 1 \<and> zlevel z1 = zlevel z + 1"
  using assms
  by (auto simp: can_split_def split_def gen_sub_zone_def new_leaf_def set_bin_def Let_def
      split: if_splits option.splits prod.splits)

lemma height_children: "children z = Some (z0, z1) \<Longrightarrow> height z0 < height z \<and> height z1 < height z"
  by (cases z) auto

function zone_add :: "int \<Rightarrow> kad_contact \<Rightarrow> kad_id \<Rightarrow> ip_counts \<Rightarrow> subnet_counts \<Rightarrow> routing_zone
  \<Rightarrow> nat \<Rightarrow> ipv4 list \<Rightarrow> add_result \<times> routing_zone \<times> nat \<times> ipv4 list" where
  "zone_add now c local_id gip gsub z og dropped =
     (case bin z of
        None \<Rightarrow>
          (case children z of
             Some zs \<Rightarrow>
               on_side (get_bit_number (xor_distance local_id (cid c)) (zlevel z))
                 (\<lambda>x. zone_add now c local_id gip gsub x og dropped) (meta z) zs
           | None \<Rightarrow> (Failed, z, og, dropped))
      | Some b \<Rightarrow>
          if bin_get_contact (cid c) b \<noteq> None then (Existing, z, og, dropped)
          else if 0 < bin_remaining b then
            (if check_global_limits (cip c) gip gsub then
               let (added, b') = bin_add_contact c b
               in if added then (Added, set_bin b' z, og, dropped)
                  else (Rejected, set_bin b' z, og, dropped)
             else (Rejected, z, og, dropped))
          else if can_split z then
            (case split now local_id z og dropped of (z', og', dropped') \<Rightarrow>
               (case children z' of
                 Some zs \<Rightarrow>
                   on_side (get_bit_number (xor_distance local_id (cid c)) (zlevel z'))
                     (\<lambda>x. zone_add now c local_id gip gsub x og' dropped') (meta z') zs
               | None \<Rightarrow>
                   let (r, z2, dropped2) = add_replacing c gip gsub z' dropped'
                   in (r, z2, og', dropped2)))
          else let (r, z2, dropped2) = add_replacing c gip gsub z dropped
               in (r, z2, og, dropped2))"
  by pat_completeness auto

termination
  by (relation "measures [\<lambda>(now, c, local_id, gip, gsub, z, og, dropped). height z,
    \<lambda>(now, c, local_id, gip, gsub, z, og, dropped). 127 - zlevel z]")
     (auto dest: height_children split_children [OF _ sym])

declare zone_add.simps [simp del]

section \<open>Queries\<close>

fun zone_get_closest_to :: "u8 \<Rightarrow> kad_id \<Rightarrow> kad_id \<Rightarrow> nat \<Rightarrow> bool \<Rightarrow> routing_zone \<Rightarrow> closest_map \<Rightarrow> closest_map" where
  "zone_get_closest_to max_type target d max_required require_verified (RoutingZone ch (Some b) m) result =
     bin_get_closest_to max_type target max_required require_verified b result"
| "zone_get_closest_to max_type target d max_required require_verified (RoutingZone (Some (z0, z1)) None m) result =
     (if get_bit_number d (level m) = 0 then
        let r = zone_get_closest_to max_type target d max_required require_verified z0 result
        in if length r < max_required
           then zone_get_closest_to max_type target d max_required require_verified z1 r else r
      else
        let r = zone_get_closest_to max_type target d max_required require_verified z1 result
        in if length r < max_required
           then zone_get_closest_to max_type target d max_required require_verified z0 r else r)"
| "zone_get_closest_to max_type target d max_required require_verified (RoutingZone None None m) result = result"

fun collect_all_contacts :: "routing_zone \<Rightarrow> kad_contact list" where
  "collect_all_contacts (RoutingZone ch (Some b) m) = b"
| "collect_all_contacts (RoutingZone (Some (z0, z1)) None m) =
     collect_all_contacts z0 @ collect_all_contacts z1"
| "collect_all_contacts (RoutingZone None None m) = []"

text \<open>\<open>coin\<close> gives the random side drawn at a zone.\<close>

fun random_bin :: "(zone_meta \<Rightarrow> nat) \<Rightarrow> routing_zone \<Rightarrow> kad_contact list" where
  "random_bin coin (RoutingZone ch (Some b) m) = b"
| "random_bin coin (RoutingZone (Some (z0, z1)) None m) =
     (if coin m = 0 then random_bin coin z0 else random_bin coin z1)"
| "random_bin coin (RoutingZone None None m) = []"

fun top_depth :: "(zone_meta \<Rightarrow> nat) \<Rightarrow> nat \<Rightarrow> routing_zone \<Rightarrow> kad_contact list" where
  "top_depth coin depth (RoutingZone ch (Some b) m) = b"
| "top_depth coin 0 (RoutingZone ch None m) = random_bin coin (RoutingZone ch None m)"
| "top_depth coin (Suc depth) (RoutingZone (Some (z0, z1)) None m) =
     top_depth coin depth z0 @ top_depth coin depth z1"
| "top_depth coin (Suc depth) (RoutingZone None None m) = []"

fun deepest_leaf_level :: "routing_zone \<Rightarrow> nat" where
  "deepest_leaf_level (RoutingZone (Some (z0, z1)) None m) = deepest_leaf_level z0"
| "deepest_leaf_level (RoutingZone ch b m) = level m"

fun ancestor_contacts_at :: "nat \<Rightarrow> routing_zone \<Rightarrow> nat" where
  "ancestor_contacts_at target_level (RoutingZone ch b m) =
     (if target_level \<le> level m \<or> b \<noteq> None then get_num_contacts (RoutingZone ch b m)
      else case ch of
        Some (z0, z1) \<Rightarrow> ancestor_contacts_at target_level z0
      | None \<Rightarrow> get_num_contacts (RoutingZone ch b m))"

section \<open>Timers and clean-up\<close>

definition random_lookup_target :: "kad_id \<Rightarrow> kad_id \<Rightarrow> routing_zone \<Rightarrow> kad_id" where
  "random_lookup_target rnd local_id z =
     (let prefix = shift_left (zindex z) (128 - zlevel z);
          random = random_with_prefix rnd prefix (zlevel z)
      in xor_distance random local_id)"

text \<open>
  The threshold \<^verbatim>\<open>remaining as f64 >= K_BUCKET_SIZE as f64 * 0.8\<close> is eight free slots.
  The result is the lookup target, the zone with its timer rewound and the new global
  deadline, or nothing when the zone does not fire.
\<close>

definition try_big_timer_on_leaf ::
  "kad_id \<Rightarrow> int \<Rightarrow> kad_id \<Rightarrow> int option \<Rightarrow> int \<Rightarrow> routing_zone \<Rightarrow> (kad_id \<times> routing_zone \<times> int) option" where
  "try_big_timer_on_leaf rnd now local_id last_kad_contact global_deadline z =
     (if now < global_deadline then None
      else if \<not> (next_big_timer (meta z) \<le> now
            \<or> (case last_kad_contact of Some t \<Rightarrow> t + BIG_TIMER_DISCONNECT_BYPASS_SECS \<le> now
                                       | None \<Rightarrow> False)) then None
      else case bin z of
        None \<Rightarrow> None
      | Some b \<Rightarrow>
          if less_than_u32 (zindex z) KK \<or> zlevel z < KBASE \<or> 8 \<le> bin_remaining b
          then Some (random_lookup_target rnd local_id z,
                     RoutingZone (children z) (bin z)
                       ((meta z)\<lparr>next_big_timer := now + BIG_TIMER_INTERVAL_SECS\<rparr>),
                     now + BIG_TIMER_GLOBAL_GAP_SECS)
          else None)"

text \<open>\<^verbatim>\<open>retain_mut\<close> of the small timer: the contacts kept and the addresses removed.\<close>

fun small_timer_retain :: "int \<Rightarrow> (kad_id \<rightharpoonup> nat) \<Rightarrow> kad_contact list \<Rightarrow> kad_contact list \<times> ipv4 list" where
  "small_timer_retain now in_use [] = ([], [])"
| "small_timer_retain now in_use (c # cs) =
     (let (kept, ips) = small_timer_retain now in_use cs
      in if CONTACT_TYPE_DEAD \<le> contact_type c \<and> 0 < expires_at c \<and> expires_at c \<le> now
         then if 0 < count_of in_use (cid c) then (c # kept, ips) else (kept, cip c # ips)
         else (if expires_at c = 0 then c\<lparr>expires_at := now\<rparr> # kept else c # kept, ips))"

text \<open>The rest of the pass over a leaf: rotate the front contact or probe it.\<close>

definition probe_front :: "int \<Rightarrow> kad_contact list \<Rightarrow> kad_contact list \<times> kad_contact list" where
  "probe_front now b =
     (case b of
        [] \<Rightarrow> ([], [])
      | oldest # rest \<Rightarrow>
          if now \<le> expires_at oldest \<or> CONTACT_TYPE_DEAD \<le> contact_type oldest
          then (rest @ [oldest], [])
          else let front = snd (checking_type now oldest) in (front # rest, [front]))"

fun on_small_timer :: "int \<Rightarrow> (kad_id \<rightharpoonup> nat) \<Rightarrow> routing_zone
  \<Rightarrow> routing_zone \<times> kad_contact list \<times> ipv4 list" where
  "on_small_timer now in_use (RoutingZone (Some (z0, z1)) None m) =
     (let (z0', p0, r0) = on_small_timer now in_use z0;
          (z1', p1, r1) = on_small_timer now in_use z1
      in (RoutingZone (Some (z0', z1')) None m, p0 @ p1, r0 @ r1))"
| "on_small_timer now in_use (RoutingZone None None m) = (RoutingZone None None m, [], [])"
| "on_small_timer now in_use (RoutingZone ch (Some b) m) =
     (if b = [] then (RoutingZone ch (Some b) m, [], [])
      else if now < next_small_timer m then (RoutingZone ch (Some b) m, [], [])
      else let (kept, ips) = small_timer_retain now in_use b;
               (b', probes) = probe_front now kept
           in (RoutingZone ch (Some b') (m\<lparr>next_small_timer := now + SMALL_TIMER_INTERVAL_SECS\<rparr>),
               probes, ips))"

text \<open>
  \<^verbatim>\<open>remove_stale\<close> and \<^verbatim>\<open>remove_dead\<close> walk every bin with \<^verbatim>\<open>retain\<close>: the number removed, the
  tree left and the addresses removed, in order.
\<close>

definition goes_stale :: "int \<Rightarrow> int \<Rightarrow> kad_contact \<Rightarrow> bool" where
  "goes_stale now max_age_secs c \<longleftrightarrow>
     is_dead c \<and> (is_stale now (last_seen c) max_age_secs \<or> is_expired now c)"

definition goes_dead :: "int \<Rightarrow> (kad_id \<rightharpoonup> nat) \<Rightarrow> kad_contact \<Rightarrow> bool" where
  "goes_dead now in_use c \<longleftrightarrow>
     (is_dead c \<and> (expires_at c = 0 \<or> expires_at c \<le> now)) \<and> \<not> 0 < count_of in_use (cid c)"

fun zone_retain :: "(kad_contact \<Rightarrow> bool) \<Rightarrow> routing_zone \<Rightarrow> nat \<times> routing_zone \<times> ipv4 list" where
  "zone_retain gone (RoutingZone ch (Some b) m) =
     (let kept = filter (\<lambda>c. \<not> gone c) b
      in (length b - length kept, RoutingZone ch (Some kept) m, map cip (filter gone b)))"
| "zone_retain gone (RoutingZone (Some (z0, z1)) None m) =
     (let (n0, z0', r0) = zone_retain gone z0; (n1, z1', r1) = zone_retain gone z1
      in (n0 + n1, RoutingZone (Some (z0', z1')) None m, r0 @ r1))"
| "zone_retain gone (RoutingZone None None m) = (0, RoutingZone None None m, [])"

definition zone_remove_stale :: "int \<Rightarrow> int \<Rightarrow> routing_zone \<Rightarrow> nat \<times> routing_zone \<times> ipv4 list" where
  "zone_remove_stale now max_age_secs z = zone_retain (goes_stale now max_age_secs) z"

definition zone_remove_dead :: "int \<Rightarrow> (kad_id \<rightharpoonup> nat) \<Rightarrow> routing_zone \<Rightarrow> nat \<times> routing_zone \<times> ipv4 list" where
  "zone_remove_dead now in_use z = zone_retain (goes_dead now in_use) z"

text \<open>The leaves with the path to each (\<open>True\<close> is the right child), and an update at a path.\<close>

fun collect_leaves :: "routing_zone \<Rightarrow> (bool list \<times> routing_zone) list" where
  "collect_leaves (RoutingZone ch (Some b) m) = [([], RoutingZone ch (Some b) m)]"
| "collect_leaves (RoutingZone (Some (z0, z1)) None m) =
     map (\<lambda>(p, z). (False # p, z)) (collect_leaves z0) @ map (\<lambda>(p, z). (True # p, z)) (collect_leaves z1)"
| "collect_leaves (RoutingZone None None m) = []"

fun replace_at :: "bool list \<Rightarrow> routing_zone \<Rightarrow> routing_zone \<Rightarrow> routing_zone" where
  "replace_at [] x z = x"
| "replace_at (s # p) x (RoutingZone (Some (z0, z1)) b m) =
     (if s then RoutingZone (Some (z0, replace_at p x z1)) b m
      else RoutingZone (Some (replace_at p x z0, z1)) b m)"
| "replace_at (s # p) x (RoutingZone None b m) = RoutingZone None b m"

section \<open>The invariant\<close>

text \<open>The key space of a zone: the leading \<open>level\<close> bits of the distance are the zone's index.\<close>

definition in_zone :: "kad_id \<Rightarrow> routing_zone \<Rightarrow> kad_id \<Rightarrow> bool" where
  "in_zone local_id z i \<longleftrightarrow>
     drop_bit (128 - zlevel z) (kad_val (xor_distance local_id i)) = kad_val (zindex z)"

fun zone_ok :: "kad_id \<Rightarrow> routing_zone \<Rightarrow> bool" where
  "zone_ok local_id (RoutingZone None (Some b) m) \<longleftrightarrow>
     level m \<le> 127 \<and> drop_bit (level m) (kad_val (zone_index m)) = 0 \<and> bin_ok b
     \<and> (\<forall>c \<in> set b. in_zone local_id (RoutingZone None (Some b) m) (cid c))"
| "zone_ok local_id (RoutingZone (Some (z0, z1)) None m) \<longleftrightarrow>
     level m < 127 \<and> drop_bit (level m) (kad_val (zone_index m)) = 0
     \<and> zlevel z0 = level m + 1 \<and> zlevel z1 = level m + 1
     \<and> zindex z0 = shift_left (zone_index m) 1 \<and> zindex z1 = add_u32 (shift_left (zone_index m) 1) 1
     \<and> zone_ok local_id z0 \<and> zone_ok local_id z1"
| "zone_ok local_id (RoutingZone ch b m) \<longleftrightarrow> False"

section \<open>Key spaces\<close>

lemma double_plus_bit:
  fixes x :: "128 word"
  shows "bit (2 * x + of_bool b) n \<longleftrightarrow> (if n = 0 then b else n < 128 \<and> bit x (n - 1))"
proof -
  have "2 * x + of_bool b = (2 * x OR of_bool b)"
    by (rule disjunctive_add) (auto simp: bit_simps bit_0)
  moreover have "bit (2 * x) n \<longleftrightarrow> n \<noteq> 0 \<and> n < 128 \<and> bit x (n - 1)"
    by (cases n) (auto simp: bit_double_iff bit_0 dest: bit_imp_le_length)
  ultimately show ?thesis by (auto simp: bit_simps)
qed

lemma drop_bit_step:
  fixes d :: "128 word"
  assumes "l < 127"
  shows "drop_bit (127 - l) d = 2 * drop_bit (128 - l) d + of_bool (bit d (127 - l))"
proof (rule bit_word_eqI)
  fix n assume n: "n < LENGTH(128)"
  have "128 - l + (n - 1) = 127 - l + n" if "n \<noteq> 0" using that assms by simp
  then show "bit (drop_bit (127 - l) d) n
    = bit (2 * drop_bit (128 - l) d + of_bool (bit d (127 - l))) n"
    unfolding double_plus_bit bit_drop_bit_eq comp_apply using n by simp
qed

lemma double_plus_cancel:
  fixes a b :: "128 word"
  assumes "2 * a + of_bool p = 2 * b + of_bool q" "\<not> bit a 127" "\<not> bit b 127"
  shows "a = b \<and> p = q"
proof -
  have e: "bit (2 * a + of_bool p) n = bit (2 * b + of_bool q) n" for n
    using assms(1) by simp
  have "bit a n = bit b n" if "n < 128" for n
    using e [of "Suc n"] assms(2,3) that by (cases "n = 127") (auto simp: double_plus_bit)
  then have "a = b" by (intro bit_word_eqI) simp
  moreover have "p = q" using e [of 0] by (simp add: double_plus_bit)
  ultimately show ?thesis by simp
qed

lemma small_index_bit:
  fixes x :: "128 word"
  assumes "drop_bit l x = 0" "l \<le> n"
  shows "\<not> bit x n"
proof -
  have "\<not> bit (drop_bit l x) (n - l)" by (simp add: assms(1))
  then show ?thesis using assms(2) by (simp add: bit_drop_bit_eq)
qed

text \<open>
  The key spaces of the two children split their parent's at the bit of the parent's level.
\<close>

lemma in_zone_children:
  assumes "level m < 127" "drop_bit (level m) (kad_val (zone_index m)) = 0"
    and "zlevel z = level m + 1"
    and "kad_val (zindex z) = 2 * kad_val (zone_index m) + of_bool s"
  shows "in_zone l z i \<longleftrightarrow> in_zone l (RoutingZone ch b m) i
     \<and> get_bit_number (xor_distance l i) (level m) = of_bool s"
proof -
  let ?d = "kad_val (xor_distance l i)"
  have "in_zone l z i \<longleftrightarrow> 2 * drop_bit (128 - level m) ?d + of_bool (bit ?d (127 - level m))
      = 2 * kad_val (zone_index m) + of_bool s"
    using assms(1,3,4) drop_bit_step [of "level m" ?d] by (simp add: in_zone_def)
  also have "\<dots> \<longleftrightarrow> drop_bit (128 - level m) ?d = kad_val (zone_index m) \<and> bit ?d (127 - level m) = s"
  proof
    assume e: "2 * drop_bit (128 - level m) ?d + of_bool (bit ?d (127 - level m))
      = 2 * kad_val (zone_index m) + of_bool s"
    have "\<not> 128 - level m + 127 < LENGTH(128)" using assms(1) by simp
    then have "\<not> bit (drop_bit (128 - level m) ?d) 127"
      unfolding bit_drop_bit_eq comp_apply by (meson bit_imp_le_length)
    moreover have "\<not> bit (kad_val (zone_index m)) 127"
      using assms(1) by (intro small_index_bit [OF assms(2)]) simp
    ultimately show "drop_bit (128 - level m) ?d = kad_val (zone_index m) \<and> bit ?d (127 - level m) = s"
      by (rule double_plus_cancel [OF e])
  qed simp
  finally show ?thesis using assms(1) by (simp add: in_zone_def get_bit_number_eq)
qed

lemma child_indices:
  "kad_val (shift_left i 1) = 2 * kad_val i + of_bool False"
  "kad_val (add_u32 (shift_left i 1) 1) = 2 * kad_val i + of_bool True"
  by (simp_all add: push_bit_eq_mult)

lemma drop_bit_child:
  fixes x :: "128 word"
  assumes "drop_bit l x = 0"
  shows "drop_bit (Suc l) (2 * x + of_bool s) = 0"
proof (rule bit_word_eqI)
  fix n
  show "bit (drop_bit (Suc l) (2 * x + of_bool s)) n = bit 0 n"
    using small_index_bit [OF assms, of "l + n"] by (simp add: bit_drop_bit_eq double_plus_bit)
qed

text \<open>Two distances that agree above a bit are ordered by it.\<close>

lemma less_by_bit:
  fixes u v :: "128 word"
  assumes "l < 127" "drop_bit (128 - l) u = drop_bit (128 - l) v" "\<not> bit u (127 - l)" "bit v (127 - l)"
  shows "u < v"
proof (rule ccontr)
  have unat_drop: "unat (drop_bit n w) = unat w div 2 ^ n" for n and w :: "128 word"
    by (metis drop_bit_eq_div unsigned_drop_bit_eq take_bit_nat_eq_self unsigned_less)
  let ?u = "drop_bit (127 - l) u" and ?v = "drop_bit (127 - l) v"
  assume "\<not> u < v"
  then have "unat ?v \<le> unat ?u"
    unfolding unat_drop by (simp add: not_less div_le_mono word_le_nat_alt)
  moreover have "?v = ?u + 1"
    using drop_bit_step [OF assms(1), of u] drop_bit_step [OF assms(1), of v] assms by simp
  moreover have "\<not> bit ?u 0" using assms(3) by (simp add: bit_drop_bit_eq)
  then have "?u + 1 \<noteq> 0"
    by (metis bit_0 even_plus_one_iff even_zero)
  ultimately show False by (metis unatSuc add.commute not_less_eq_eq order_refl)
qed
section \<open>Where contacts live\<close>

lemma in_zone_meta: "meta z = meta z' \<Longrightarrow> in_zone l z i = in_zone l z' i"
  by (simp add: in_zone_def)

lemma node_in_zone:
  assumes "zone_ok l (RoutingZone (Some (z0, z1)) None m)"
  shows "in_zone l z0 i \<longleftrightarrow> in_zone l (RoutingZone ch b m) i \<and> get_bit_number (xor_distance l i) (level m) = 0"
    and "in_zone l z1 i \<longleftrightarrow> in_zone l (RoutingZone ch b m) i \<and> get_bit_number (xor_distance l i) (level m) \<noteq> 0"
proof -
  have m: "level m < 127" "drop_bit (level m) (kad_val (zone_index m)) = 0"
    "zlevel z0 = level m + 1" "zlevel z1 = level m + 1"
    "kad_val (zindex z0) = 2 * kad_val (zone_index m) + of_bool False"
    "kad_val (zindex z1) = 2 * kad_val (zone_index m) + of_bool True"
    using assms by (simp_all only: zone_ok.simps child_indices)
  show "in_zone l z0 i \<longleftrightarrow> in_zone l (RoutingZone ch b m) i \<and> get_bit_number (xor_distance l i) (level m) = 0"
    using in_zone_children [OF m(1,2,3,5)] by simp
  have "get_bit_number (xor_distance l i) (level m) \<noteq> 0 \<longleftrightarrow> get_bit_number (xor_distance l i) (level m) = 1"
    using m(1) by (simp add: get_bit_number_eq)
  then show "in_zone l z1 i \<longleftrightarrow> in_zone l (RoutingZone ch b m) i \<and> get_bit_number (xor_distance l i) (level m) \<noteq> 0"
    using in_zone_children [OF m(1,2,4,6)] by simp
qed

lemma in_zone_shape: "in_zone l (RoutingZone ch b m) i = in_zone l (RoutingZone ch' b' m) i"
  by (simp add: in_zone_def)

lemma contacts_in_zone:
  "zone_ok l z \<Longrightarrow> c \<in> set (collect_all_contacts z) \<Longrightarrow> in_zone l z (cid c)"
proof (induction l z rule: zone_ok.induct)
  case (2 l z0 z1 m)
  then have "in_zone l z0 (cid c) \<or> in_zone l z1 (cid c)" by auto
  then show ?case using node_in_zone [OF 2(3)] by blast
qed auto

lemma side_of_contact:
  assumes "zone_ok l (RoutingZone (Some (z0, z1)) None m)"
  shows "c \<in> set (collect_all_contacts z0) \<Longrightarrow> get_bit_number (xor_distance l (cid c)) (level m) = 0"
    and "c \<in> set (collect_all_contacts z1) \<Longrightarrow> get_bit_number (xor_distance l (cid c)) (level m) \<noteq> 0"
proof -
  have ok: "zone_ok l z0" "zone_ok l z1" using assms by auto
  show "c \<in> set (collect_all_contacts z0) \<Longrightarrow> get_bit_number (xor_distance l (cid c)) (level m) = 0"
    using contacts_in_zone [OF ok(1)] node_in_zone(1) [OF assms] by blast
  show "c \<in> set (collect_all_contacts z1) \<Longrightarrow> get_bit_number (xor_distance l (cid c)) (level m) \<noteq> 0"
    using contacts_in_zone [OF ok(2)] node_in_zone(2) [OF assms] by blast
qed

lemma distinct_contacts: "zone_ok l z \<Longrightarrow> distinct (map cid (collect_all_contacts z))"
proof (induction l z rule: zone_ok.induct)
  case (2 l z0 z1 m)
  have ok: "zone_ok l z0" "zone_ok l z1" using 2(3) by auto
  have "i \<notin> cid ` set (collect_all_contacts z1)" if "i \<in> cid ` set (collect_all_contacts z0)" for i
    using that side_of_contact [OF 2(3)] by (metis image_iff)
  then show ?case using 2(1,2) ok by auto
qed (auto simp: bin_ok_def)

lemma find_bin_total:
  "zone_ok l z \<Longrightarrow> \<exists>b. find_bin d z = Some b \<and> bin_ok b \<and> set b \<subseteq> set (collect_all_contacts z)"
  by (induction l z rule: zone_ok.induct) auto

lemma find_bin_holds:
  "zone_ok l z \<Longrightarrow> c \<in> set (collect_all_contacts z) \<Longrightarrow>
   \<exists>b. find_bin (xor_distance l (cid c)) z = Some b \<and> c \<in> set b"
proof (induction l z rule: zone_ok.induct)
  case (2 l z0 z1 m)
  have ok: "zone_ok l z0" "zone_ok l z1" using 2(3) by auto
  then show ?case using 2 side_of_contact [OF 2(3), of c] by auto
qed auto

text \<open>The bin an identifier leads to holds the identifier's contact when any bin does.\<close>

lemma find_bin_exact:
  assumes "zone_ok l z" "find_bin (xor_distance l i) z = Some b"
  shows "bin_get_contact i b = find (\<lambda>c. cid c = i) (collect_all_contacts z)"
    and "i \<in> cid ` set b \<longleftrightarrow> i \<in> cid ` set (collect_all_contacts z)"
proof -
  have sub: "set b \<subseteq> set (collect_all_contacts z)"
    using find_bin_total [OF assms(1), of "xor_distance l i"] assms(2) by auto
  show iff: "i \<in> cid ` set b \<longleftrightarrow> i \<in> cid ` set (collect_all_contacts z)"
  proof
    assume "i \<in> cid ` set (collect_all_contacts z)"
    then obtain c where "c \<in> set (collect_all_contacts z)" "i = cid c" by blast
    then show "i \<in> cid ` set b" using find_bin_holds [OF assms(1), of c] assms(2) by auto
  qed (use sub in blast)
  show "bin_get_contact i b = find (\<lambda>c. cid c = i) (collect_all_contacts z)"
  proof (cases "bin_get_contact i b")
    case None
    then show ?thesis using iff bin_get_contact_None by (metis bin_get_contact_def)
  next
    case (Some c)
    then have c: "c \<in> set (collect_all_contacts z)" "cid c = i"
      using sub bin_get_contact_Some by blast+
    then obtain c' where f: "find (\<lambda>c. cid c = i) (collect_all_contacts z) = Some c'"
      by (cases "find (\<lambda>c. cid c = i) (collect_all_contacts z)") (auto simp: find_None_iff)
    then have "c' \<in> set (collect_all_contacts z)" "cid c' = i"
      by (auto simp: find_Some_iff)
    then have "c' = c"
      using c distinct_contacts [OF assms(1)] by (metis distinct_map inj_onD)
    then show ?thesis using Some f by simp
  qed
qed

section \<open>Updates in place\<close>

lemma find_bin_mut_effect:
  assumes "zone_ok l z" "find_bin d z = Some b" "f b = (r, b')"
  shows "\<exists>z'. find_bin_mut d f z = (Some r, z') \<and> meta z' = meta z
    \<and> mset (collect_all_contacts z') + mset b = mset (collect_all_contacts z) + mset b'
    \<and> (bin_ok b' \<and> cid ` set b' \<subseteq> cid ` set b \<longrightarrow> zone_ok l z')"
  using assms
proof (induction l z rule: zone_ok.induct)
  case (1 l b m)
  then show ?case by (force simp: in_zone_def)
next
  case (2 l z0 z1 m)
  have ok: "zone_ok l z0" "zone_ok l z1" using 2(3) by auto
  show ?case
  proof (cases "get_bit_number d (level m) = 0")
    case True
    then have fb: "find_bin d z0 = Some b" using 2(4) by simp
    obtain x where x: "find_bin_mut d f z0 = (Some r, x)" "meta x = meta z0"
      "mset (collect_all_contacts x) + mset b = mset (collect_all_contacts z0) + mset b'"
      "bin_ok b' \<and> cid ` set b' \<subseteq> cid ` set b \<longrightarrow> zone_ok l x"
      using 2(1) [OF ok(1) fb 2(5)] by blast
    then have "mset (collect_all_contacts x @ collect_all_contacts z1) + mset b
        = mset (collect_all_contacts z0 @ collect_all_contacts z1) + mset b'"
      by (metis (no_types, lifting) mset_append union_assoc union_commute)
    then show ?thesis using x(1,2,4) 2(3) True by simp
  next
    case False
    then have fb: "find_bin d z1 = Some b" using 2(4) by simp
    obtain x where x: "find_bin_mut d f z1 = (Some r, x)" "meta x = meta z1"
      "mset (collect_all_contacts x) + mset b = mset (collect_all_contacts z1) + mset b'"
      "bin_ok b' \<and> cid ` set b' \<subseteq> cid ` set b \<longrightarrow> zone_ok l x"
      using 2(2) [OF ok(2) fb 2(5)] by blast
    then have "mset (collect_all_contacts z0 @ collect_all_contacts x) + mset b
        = mset (collect_all_contacts z0 @ collect_all_contacts z1) + mset b'"
      by (metis (no_types, lifting) mset_append union_assoc)
    then show ?thesis using x(1,2,4) 2(3) False by simp
  qed
qed auto

lemma scan_leaves_mut_idle:
  "(\<forall>b. set b \<subseteq> set (collect_all_contacts z) \<longrightarrow> f b = (None, b)) \<Longrightarrow> scan_leaves_mut f z = (None, z)"
proof (induction z rule: collect_all_contacts.induct)
  case (2 z0 z1 m)
  have "scan_leaves_mut f z0 = (None, z0)" "scan_leaves_mut f z1 = (None, z1)"
    using 2(3) by (auto intro!: 2(1,2))
  then show ?case by simp
qed auto

end
