(* ===== verification/Routing_Add.thy ===== *)
theory Routing_Add
  imports Routing_Zone
begin

text \<open>
  Adding a contact to the zone tree (\<^verbatim>\<open>RoutingZone::split\<close> and \<^verbatim>\<open>RoutingZone::add\<close>):
  a split distributes the ten contacts of a full bin over its two children without losing
  one, and \<open>zone_add\<close> keeps the invariant and changes the contacts of the tree as
  \<open>add_effect\<close> says.
\<close>

section \<open>What an insertion may do\<close>

text \<open>
  What \<^verbatim>\<open>add\<close> may do to the contacts of a tree: nothing, or take the newcomer in within the
  limits, alone or in the place of an unverified contact whose address is then reported.
\<close>

definition add_effect :: "kad_contact \<Rightarrow> ip_counts \<Rightarrow> subnet_counts \<Rightarrow> add_result
  \<Rightarrow> kad_contact multiset \<Rightarrow> kad_contact multiset \<Rightarrow> ipv4 list \<Rightarrow> bool" where
  "add_effect c gip gsub r M M' ev \<longleftrightarrow>
     (if r = Added then
        ev = [] \<and> check_global_limits (cip c) gip gsub \<and> M' = add_mset c M
        \<or> (\<exists>v. ev = [cip v] \<and> verified c \<and> \<not> verified v \<and> v \<in># M
             \<and> check_global_limits_replacing (cip c) (Some (cip v)) gip gsub
             \<and> add_mset v M' = add_mset c M)
      else ev = [] \<and> M' = M)"

definition add_spec :: "kad_id \<Rightarrow> kad_contact \<Rightarrow> ip_counts \<Rightarrow> subnet_counts \<Rightarrow> routing_zone \<Rightarrow> ipv4 list
  \<Rightarrow> add_result \<times> routing_zone \<times> nat \<times> ipv4 list \<Rightarrow> bool" where
  "add_spec l c gip gsub z dropped out \<longleftrightarrow>
     (case out of (r, z', og', dropped') \<Rightarrow>
        meta z' = meta z \<and> zone_ok l z' \<and> r \<noteq> Failed
        \<and> (r = Existing \<longleftrightarrow> cid c \<in> cid ` set (collect_all_contacts z))
        \<and> (\<exists>ev. dropped' = dropped @ ev
             \<and> add_effect c gip gsub r (mset (collect_all_contacts z)) (mset (collect_all_contacts z')) ev))"

section \<open>Splitting loses no contact\<close>

lemma distribute_all:
  assumes "bin_ok b"
  shows "fold (distribute l lv) b ([], [], dropped) =
    (filter (\<lambda>c. get_bit_number (xor_distance l (cid c)) lv = 0) b,
     filter (\<lambda>c. get_bit_number (xor_distance l (cid c)) lv \<noteq> 0) b, dropped)"
  using assms
proof (induction b rule: rev_induct)
  case (snoc c b)
  let ?P = "\<lambda>c. get_bit_number (xor_distance l (cid c)) lv = 0"
  have "bin_ok b" using snoc.prems by (simp add: bin_ok_snoc)
  have fits: "bin_add_contact c (filter Q b) = (True, filter Q b @ [c])" if "Q c" for Q
    using bin_ok_filter [OF snoc.prems, of Q] that by (simp add: bin_add_contact_fits)
  show ?case using snoc.IH [OF \<open>bin_ok b\<close>] fits [of ?P] fits [of "\<lambda>c. \<not> ?P c"]
    by (simp add: distribute_def)
qed simp

lemma mset_filter_both: "mset (filter P xs) + mset (filter (\<lambda>x. \<not> P x) xs) = mset xs"
  by (induction xs) auto

lemma split_effect:
  assumes ok: "zone_ok l (RoutingZone None (Some b) m)" and lv: "level m < 127"
    and s: "split now l (RoutingZone None (Some b) m) og dropped = (z', og', dropped')"
  shows "\<exists>z0 z1. z' = RoutingZone (Some (z0, z1)) None m \<and> zone_ok l z'
    \<and> mset (collect_all_contacts z') = mset b \<and> og' = og + 2 \<and> dropped' = dropped"
proof -
  let ?P = "\<lambda>c. get_bit_number (xor_distance l (cid c)) (level m) = 0"
  let ?z0 = "set_bin (filter ?P b) (new_leaf now (level m + 1) (shift_left (zone_index m) 1) og)"
  let ?z1 = "set_bin (filter (\<lambda>c. \<not> ?P c) b)
    (new_leaf now (level m + 1) (add_u32 (shift_left (zone_index m) 1) 1) (og + 1))"
  have b: "bin_ok b" "drop_bit (level m) (kad_val (zone_index m)) = 0"
    "\<forall>c \<in> set b. in_zone l (RoutingZone None (Some b) m) (cid c)" using ok by auto
  have z': "z' = RoutingZone (Some (?z0, ?z1)) None m" "og' = og + 2" "dropped' = dropped"
    using s distribute_all [OF b(1)] by (simp_all add: split_def gen_sub_zone_def Let_def)
  have idx: "zlevel ?z0 = level m + 1" "zlevel ?z1 = level m + 1"
    "kad_val (zindex ?z0) = 2 * kad_val (zone_index m) + of_bool False"
    "kad_val (zindex ?z1) = 2 * kad_val (zone_index m) + of_bool True"
    by (simp_all only: set_bin_def new_leaf_def child_indices routing_zone.sel zone_meta.simps)
  note in0 = in_zone_children [OF lv b(2) idx(1,3), where ch = None and b = "Some b"]
  note in1 = in_zone_children [OF lv b(2) idx(2,4), where ch = None and b = "Some b"]
  have bit1: "get_bit_number (xor_distance l i) (level m) \<noteq> 0 \<longleftrightarrow>
      get_bit_number (xor_distance l i) (level m) = 1" for i
    using lv by (simp add: get_bit_number_eq)
  have "in_zone l ?z0 (cid c)" if "c \<in> set (filter ?P b)" for c
    using that b(3) in0 by simp
  moreover have "in_zone l ?z1 (cid c)" if "c \<in> set (filter (\<lambda>c. \<not> ?P c) b)" for c
    using that b(3) in1 bit1 by simp
  moreover have "drop_bit (level m + 1) (kad_val (zindex ?z0)) = 0"
    "drop_bit (level m + 1) (kad_val (zindex ?z1)) = 0"
    unfolding idx(3,4) using drop_bit_child [OF b(2)] by (simp_all only: Suc_eq_plus1)
  ultimately have "zone_ok l ?z0" "zone_ok l ?z1"
    using b(1) lv bin_ok_filter [OF b(1)]
    by (auto simp: set_bin_def new_leaf_def in_zone_def)
  then have "zone_ok l z'" using z'(1) lv b(2) by (simp add: set_bin_def new_leaf_def)
  moreover have "mset (collect_all_contacts z') = mset b"
    using z'(1) by (simp add: set_bin_def new_leaf_def mset_filter_both)
  ultimately show ?thesis using z' by blast
qed

section \<open>Adding a contact\<close>

lemma set_bin_ok:
  assumes "zone_ok l (RoutingZone None (Some b) m)" "bin_ok b'"
    and "\<forall>c \<in> set b'. c \<in> set b \<or> in_zone l (RoutingZone None (Some b) m) (cid c)"
  shows "zone_ok l (set_bin b' (RoutingZone None (Some b) m))"
  using assms by (auto simp: set_bin_def in_zone_def)

lemma add_effect_union:
  "add_effect c gip gsub r M M' ev \<Longrightarrow> add_effect c gip gsub r (N + M) (N + M') ev"
  "add_effect c gip gsub r M M' ev \<Longrightarrow> add_effect c gip gsub r (M + N) (M' + N) ev"
  unfolding add_effect_def
  by (cases r; auto; metis union_mset_add_mset_right union_mset_add_mset_left union_iff)+

lemma add_replacing_effect:
  assumes "zone_ok l (RoutingZone None (Some b) m)" "in_zone l (RoutingZone None (Some b) m) (cid c)"
    and "cid c \<notin> cid ` set b"
    and "add_replacing c gip gsub (RoutingZone None (Some b) m) dropped = (r, z', dropped')"
  shows "meta z' = m \<and> zone_ok l z' \<and> r \<noteq> Existing \<and> r \<noteq> Failed
    \<and> (\<exists>ev. dropped' = dropped @ ev \<and> add_effect c gip gsub r (mset b) (mset (collect_all_contacts z')) ev)"
proof -
  let ?z = "RoutingZone None (Some b) m"
  have unchanged: ?thesis if "r = Rejected" "z' = ?z" "dropped' = dropped"
    using that assms(1) by (auto simp: add_effect_def)
  show ?thesis
  proof (cases "\<exists>v ip b'. verified c \<and> find (\<lambda>d. \<not> verified d) b = Some v
      \<and> check_global_limits_replacing (cip c) (Some (cip v)) gip gsub
      \<and> replace_unverified c b = (Some ip, b')")
    case True
    then obtain v ip b' where v: "verified c" "find (\<lambda>d. \<not> verified d) b = Some v"
      "check_global_limits_replacing (cip c) (Some (cip v)) gip gsub"
      and rep: "replace_unverified c b = (Some ip, b')" by blast
    have "bin_ok b" using assms(1) by simp
    note R = replace_unverified_Some [OF rep \<open>bin_ok b\<close>]
    obtain b0 where b0: "\<not> verified v" "cip v = ip" "mset b = add_mset v (mset b0)" "b' = b0 @ [c]"
      using R(1) v(2) by auto
    have sub: "set b0 \<subseteq> set b" using b0(3) by (metis set_mset_mset set_mset_add_mset_insert subset_insertI)
    have res: "r = Added" "z' = set_bin b' ?z" "dropped' = dropped @ [ip]"
      using assms(4) v rep by (simp_all add: add_replacing_def)
    have "zone_ok l z'" unfolding res(2)
      by (rule set_bin_ok [OF assms(1) R(2)]) (use sub b0(4) assms(2) in auto)
    moreover have "add_effect c gip gsub r (mset b) (mset (collect_all_contacts z')) [ip]"
      using res(1,2) b0 v by (auto simp: add_effect_def set_bin_def)
    ultimately show ?thesis using res by (auto simp: set_bin_def)
  next
    case False
    have keep: "b' = b" if "replace_unverified c b = (None, b')" for b'
      using that by (auto simp: replace_unverified_def split: if_splits option.splits prod.splits)
    show ?thesis
      by (rule unchanged; use assms(4) False keep in
        \<open>auto simp: add_replacing_def set_bin_def split: if_splits option.splits prod.splits\<close>)
  qed
qed

lemma on_side_spec:
  assumes node: "zone_ok l (RoutingZone (Some (z0, z1)) None m)"
    and iz: "in_zone l (RoutingZone (Some (z0, z1)) None m) (cid c)"
    and sd: "sd = get_bit_number (xor_distance l (cid c)) (level m)"
    and f0: "sd = 0 \<Longrightarrow> in_zone l z0 (cid c) \<Longrightarrow> add_spec l c gip gsub z0 dropped (f z0)"
    and f1: "sd \<noteq> 0 \<Longrightarrow> in_zone l z1 (cid c) \<Longrightarrow> add_spec l c gip gsub z1 dropped (f z1)"
  shows "add_spec l c gip gsub (RoutingZone (Some (z0, z1)) None m) dropped (on_side sd f m (z0, z1))"
proof (cases "sd = 0")
  case True
  obtain r x og' d' where fx: "f z0 = (r, x, og', d')" by (rule prod_cases4)
  have "in_zone l z0 (cid c)" using iz True sd node_in_zone(1) [OF node, of _ "Some (z0, z1)" None] by simp
  note S = f0 [OF True this, unfolded fx add_spec_def prod.case]
  have "cid c \<notin> cid ` set (collect_all_contacts z1)"
    using side_of_contact(2) [OF node] True sd by (metis image_iff)
  then show ?thesis using S node True add_effect_union(2)
    by (auto simp: on_side_def fx add_spec_def)
next
  case False
  obtain r x og' d' where fx: "f z1 = (r, x, og', d')" by (rule prod_cases4)
  have "in_zone l z1 (cid c)" using iz False sd node_in_zone(2) [OF node, of _ "Some (z0, z1)" None] by simp
  note S = f1 [OF False this, unfolded fx add_spec_def prod.case]
  have "cid c \<notin> cid ` set (collect_all_contacts z0)"
    using side_of_contact(1) [OF node] False sd by (metis image_iff)
  then show ?thesis using S node False add_effect_union(1)
    by (auto simp: on_side_def fx add_spec_def)
qed

lemma zone_ok_leaf: "zone_ok l z \<Longrightarrow> bin z = Some b \<Longrightarrow> z = RoutingZone None (Some b) (meta z)"
  by (cases "(l, z)" rule: zone_ok.cases) auto

lemma zone_ok_node:
  "zone_ok l z \<Longrightarrow> bin z = None \<Longrightarrow> \<exists>z0 z1. z = RoutingZone (Some (z0, z1)) None (meta z)"
  by (cases "(l, z)" rule: zone_ok.cases) auto

lemma zone_add_fresh_slot:
  assumes ok: "zone_ok l (RoutingZone None (Some b) m)" "in_zone l (RoutingZone None (Some b) m) (cid c)"
    and new: "cid c \<notin> cid ` set b" and lim: "check_global_limits (cip c) gip gsub"
    and add: "bin_add_contact c b = (added, b')"
  shows "add_spec l c gip gsub (RoutingZone None (Some b) m) dropped
    (if added then Added else Rejected, set_bin b' (RoutingZone None (Some b) m), og, dropped)"
proof (cases added)
  case True
  note A = bin_add_contact_True [OF add [unfolded eqTrueI [OF True]]]
  have "zone_ok l (set_bin b' (RoutingZone None (Some b) m))"
    using A ok by (intro set_bin_ok) auto
  then show ?thesis using True A new lim by (auto simp: add_spec_def add_effect_def set_bin_def)
next
  case False
  then have "b' = b" using add bin_add_contact_False by simp
  then show ?thesis using False ok new by (auto simp: add_spec_def add_effect_def set_bin_def)
qed

lemma add_spec_split:
  assumes ok: "zone_ok l (RoutingZone None (Some b) m)" "in_zone l (RoutingZone None (Some b) m) (cid c)"
    and lv: "level m < 127"
    and sp: "split now l (RoutingZone None (Some b) m) og dropped = (z', og', dropped')"
    and f: "\<And>z0 z1 x. children z' = Some (z0, z1) \<Longrightarrow>
      zone_ok l x \<Longrightarrow> in_zone l x (cid c) \<Longrightarrow>
      x = (if get_bit_number (xor_distance l (cid c)) (zlevel z') = 0 then z0 else z1) \<Longrightarrow> add_spec l c gip gsub x dropped' (f x)"
  shows "\<exists>zs. children z' = Some zs \<and> meta z' = m \<and> add_spec l c gip gsub (RoutingZone None (Some b) m) dropped
    (on_side (get_bit_number (xor_distance l (cid c)) (level m)) f m zs)"
proof -
  obtain z0 z1 where S: "z' = RoutingZone (Some (z0, z1)) None m" "zone_ok l z'"
    "mset (collect_all_contacts z') = mset b" "dropped' = dropped"
    using split_effect [OF ok(1) lv sp] by blast
  have kids: "zone_ok l z0" "zone_ok l z1" "in_zone l z' (cid c)"
    using S(1,2) ok(2) in_zone_meta [of z' "RoutingZone None (Some b) m"] by simp_all
  have "add_spec l c gip gsub z' dropped
    (on_side (get_bit_number (xor_distance l (cid c)) (level m)) f m (z0, z1))"
    unfolding S(1) using f [of z0 z1] kids(1,2) S(1,4)
    by (intro on_side_spec [OF S(2) [unfolded S(1)] kids(3) [unfolded S(1)] refl]) simp_all
  moreover have "set (collect_all_contacts z') = set b" using S(3) by (metis set_mset_mset)
  ultimately show ?thesis using S(1,3) by (simp add: add_spec_def case_prod_beta)
qed

lemma zone_add_spec:
  "zone_ok l z \<Longrightarrow> in_zone l z (cid c) \<Longrightarrow> add_spec l c gip gsub z dropped (zone_add now c l gip gsub z og dropped)"
proof (induction now c l gip gsub z og dropped rule: zone_add.induct)
  case (1 now c l gip gsub z og dropped)
  show ?case
  proof (cases "bin z")
    case None
    then obtain z0 z1 where z: "z = RoutingZone (Some (z0, z1)) None (meta z)"
      using zone_ok_node 1(5) by blast
    then have z': "children z = Some (z0, z1)" by (metis routing_zone.sel(1))
    have ok: "zone_ok l z0" "zone_ok l z1" using 1(5) z by (metis zone_ok.simps(2))+
    have "add_spec l c gip gsub (RoutingZone (Some (z0, z1)) None (meta z)) dropped
      (on_side (get_bit_number (xor_distance l (cid c)) (zlevel z))
        (\<lambda>x. zone_add now c l gip gsub x og dropped) (meta z) (z0, z1))"
      using 1(1) [OF None z'] 1(2) [OF None z'] ok 1(5,6) z by (intro on_side_spec) auto
    then show ?thesis using z None z' by (simp add: zone_add.simps [of now c l gip gsub z])
  next
    case (Some b)
    then have z: "z = RoutingZone None (Some b) (meta z)" using zone_ok_leaf 1(5) by blast
    define m where "m = meta z"
    have z: "z = RoutingZone None (Some b) m" using z by (simp add: m_def)
    have ok: "zone_ok l (RoutingZone None (Some b) m)" "in_zone l (RoutingZone None (Some b) m) (cid c)"
      using 1(5,6) z by simp_all
    note ZA = zone_add.simps [of now c l gip gsub "RoutingZone None (Some b) m"]
    show ?thesis
    proof (cases "cid c \<in> cid ` set b")
      case True
      then have "zone_add now c l gip gsub z og dropped = (Existing, z, og, dropped)"
        using bin_get_contact_None [of "cid c" b] by (simp add: ZA z)
      then show ?thesis using True ok z by (auto simp: add_spec_def add_effect_def)
    next
      case new: False
      then have none: "bin_get_contact (cid c) b = None" by (simp add: bin_get_contact_None)
      consider (room) "0 < bin_remaining b" | (split) "\<not> 0 < bin_remaining b" "can_split z"
        | (full) "\<not> 0 < bin_remaining b" "\<not> can_split z" by blast
      then show ?thesis
      proof cases
        case room
        obtain added b' where add: "bin_add_contact c b = (added, b')" by fastforce
        show ?thesis
          using zone_add_fresh_slot [OF ok new _ add, of gip gsub] room none add ok new
          by (auto simp: ZA z add_spec_def add_effect_def)
      next
        case split
        have lv: "level m < 127" using split(2) z by (simp add: can_split_def split: if_splits)
        obtain z' og' dropped' where sp: "split now l z og dropped = (z', og', dropped')"
          by (rule prod_cases3)
        let ?s = "get_bit_number (xor_distance l (cid c)) (level m)"
        let ?f = "\<lambda>x. zone_add now c l gip gsub x og' dropped'"
        have kid: "add_spec l c gip gsub x dropped' (?f x)"
          if "children z' = Some (z0, z1)" "zone_ok l x" "in_zone l x (cid c)"
            "x = (if get_bit_number (xor_distance l (cid c)) (zlevel z') = 0 then z0 else z1)" for z0 z1 x
          using that none 1(3,4) [OF Some _ split sp [symmetric] refl, of "(z0, z1)"]
          by (auto split: if_splits)
        have "\<exists>zs. children z' = Some zs \<and> meta z' = m
          \<and> add_spec l c gip gsub (RoutingZone None (Some b) m) dropped (on_side ?s ?f m zs)"
          by (rule add_spec_split [OF ok lv sp [unfolded z]]) (erule (3) kid)
        then show ?thesis using none split sp by (auto simp: ZA z)
      next
        case full
        obtain r z' d' where rep: "add_replacing c gip gsub z dropped = (r, z', d')"
          by (rule prod_cases3)
        show ?thesis
          using add_replacing_effect [OF ok new rep [unfolded z]] full none rep new
          by (auto simp: ZA z add_spec_def)
      qed
    qed
  qed
qed

end
