(* ===== verification/Routing_Upkeep.thy ===== *)
theory Routing_Upkeep
  imports Routing_Add
begin

text \<open>
  Upkeep of the zone tree: merging sparse leaves (\<^verbatim>\<open>RoutingZone::consolidate\<close>), dropping
  stale and dead contacts, the small timer that probes a contact per leaf and the big timer
  that starts a random lookup. Each operation keeps \<open>zone_ok\<close>, and the addresses it reports
  as removed are those of the contacts that left the tree.
\<close>

section \<open>What upkeep may do\<close>

text \<open>
  Merging keeps the tree's invariant and accounts for every contact: those that do not fit
  the merged bin are the ones whose addresses are reported.
\<close>

definition drops :: "kad_contact list \<Rightarrow> ipv4 list \<Rightarrow> kad_contact list \<Rightarrow> ipv4 list \<Rightarrow> bool" where
  "drops cs dropped cs' dropped' \<longleftrightarrow>
     (\<exists>D. dropped' = dropped @ map cip D \<and> mset cs = mset cs' + mset D)"

definition expired_dead :: "int \<Rightarrow> (kad_id \<rightharpoonup> nat) \<Rightarrow> kad_contact \<Rightarrow> bool" where
  "expired_dead now in_use c \<longleftrightarrow> is_dead c \<and> 0 < expires_at c \<and> expires_at c \<le> now
     \<and> count_of in_use (cid c) = 0"

definition same_leaf :: "routing_zone \<Rightarrow> routing_zone \<Rightarrow> bool" where
  "same_leaf z z' \<longleftrightarrow> children z' = children z \<and> bin z' = bin z \<and> zlevel z' = zlevel z
     \<and> zindex z' = zindex z"

section \<open>Merging leaves\<close>

lemma fold_merge_into:
  assumes "fold merge_into cs (nb, dropped) = (nb', dropped')" "bin_ok nb"
  shows "bin_ok nb' \<and> (\<exists>D. dropped' = dropped @ map cip D \<and> mset nb + mset cs = mset nb' + mset D)"
  using assms
proof (induction cs arbitrary: nb dropped)
  case (Cons c cs)
  obtain added nb1 where add: "bin_add_contact c nb = (added, nb1)" by fastforce
  show ?case
  proof (cases added)
    case True
    note A = bin_add_contact_True [OF add [unfolded eqTrueI [OF True]]]
    obtain D where "dropped' = dropped @ map cip D" "mset nb1 + mset cs = mset nb' + mset D" "bin_ok nb'"
      using Cons.IH [of nb1 dropped] Cons.prems add True A(3) by (auto simp: merge_into_def)
    then show ?thesis using A(1) by auto
  next
    case False
    then have "nb1 = nb" using add bin_add_contact_False by simp
    then obtain D where D: "dropped' = (dropped @ [cip c]) @ map cip D"
      "mset nb + mset cs = mset nb' + mset D" "bin_ok nb'"
      using Cons.IH [of nb "dropped @ [cip c]"] Cons.prems add False by (auto simp: merge_into_def)
    then have "dropped' = dropped @ map cip (c # D)" "mset nb + mset (c # cs) = mset nb' + mset (c # D)"
      by simp_all
    then show ?thesis using D(3) by blast
  qed
qed auto

lemma drops_refl [simp]: "drops cs d cs d"
  by (simp add: drops_def)

lemma drops_both:
  assumes "drops a d a' d1" "drops b d1 b' d2"
  shows "drops (a @ b) d (a' @ b') d2"
proof -
  obtain D E where "d1 = d @ map cip D" "mset a = mset a' + mset D"
    "d2 = d1 @ map cip E" "mset b = mset b' + mset E"
    using assms by (auto simp: drops_def)
  then have "d2 = d @ map cip (D @ E)" "mset (a @ b) = mset (a' @ b') + mset (D @ E)" by simp_all
  then show ?thesis unfolding drops_def by blast
qed

lemma drops_trans: "drops a d b d1 \<Longrightarrow> drops b d1 c d2 \<Longrightarrow> drops a d c d2"
proof -
  assume "drops a d b d1" "drops b d1 c d2"
  then obtain D E where "d1 = d @ map cip D" "mset a = mset b + mset D"
    "d2 = d1 @ map cip E" "mset b = mset c + mset E"
    by (auto simp: drops_def)
  then have "d2 = d @ map cip (D @ E)" "mset a = mset c + mset (D @ E)" by simp_all
  then show ?thesis unfolding drops_def by blast
qed

lemma drops_set: "drops a d b d' \<Longrightarrow> set b \<subseteq> set a"
  unfolding drops_def by (metis set_mset_mset set_mset_union Un_upper1)

lemma merge_leaves:
  assumes node: "zone_ok l (RoutingZone (Some (z0, z1)) None m)"
    and leaves: "bin z0 = Some b0" "bin z1 = Some b1"
    and f0: "fold merge_into b0 ([], d) = (nb0, d0)" and f1: "fold merge_into b1 (nb0, d0) = (nb, d')"
    and m': "level m' = level m" "zone_index m' = zone_index m"
  shows "zone_ok l (RoutingZone None (Some nb) m') \<and> drops (b0 @ b1) d nb d'"
proof -
  have ok: "zone_ok l z0" "zone_ok l z1" using node by auto
  have c: "collect_all_contacts z0 = b0" "collect_all_contacts z1 = b1"
    using zone_ok_leaf [OF ok(1) leaves(1)] zone_ok_leaf [OF ok(2) leaves(2)]
    by (metis collect_all_contacts.simps(1))+
  have "fold merge_into (b0 @ b1) ([], d) = (nb, d')" using f0 f1 by simp
  then have "bin_ok nb" and dr: "drops (b0 @ b1) d nb d'"
    using fold_merge_into [of "b0 @ b1" "[]" d nb d'] by (auto simp: drops_def)
  moreover have "in_zone l (RoutingZone (Some (z0, z1)) None m) (cid c)" if "c \<in> set nb" for c
    using contacts_in_zone [OF node, of c] drops_set [OF dr] that c by auto
  ultimately show ?thesis using node m' by (auto simp: in_zone_def)
qed

lemma zone_consolidate_effect:
  assumes "zone_ok l z" "zone_consolidate now z og d = (n, z', og', d')"
  shows "zone_ok l z' \<and> zlevel z' = zlevel z \<and> zindex z' = zindex z
    \<and> drops (collect_all_contacts z) d (collect_all_contacts z') d'"
  using assms
proof (induction l z arbitrary: og d n z' og' d' rule: zone_ok.induct)
  case (1 l b m)
  then show ?case by auto
next
  case (2 l z0 z1 m)
  have ok: "zone_ok l z0" "zone_ok l z1" using 2(3) by auto
  obtain n0 x0 og0 d0 where e0: "(if is_leaf z0 then (0, z0, og, d) else zone_consolidate now z0 og d)
      = (n0, x0, og0, d0)" by (rule prod_cases4)
  obtain n1 x1 og1 d1 where e1: "(if is_leaf z1 then (0, z1, og0, d0) else zone_consolidate now z1 og0 d0)
      = (n1, x1, og1, d1)" by (rule prod_cases4)
  have x0: "zone_ok l x0 \<and> zlevel x0 = zlevel z0 \<and> zindex x0 = zindex z0
      \<and> drops (collect_all_contacts z0) d (collect_all_contacts x0) d0"
    using e0 ok(1) 2(1) [OF ok(1)] by (cases "is_leaf z0") auto
  have x1: "zone_ok l x1 \<and> zlevel x1 = zlevel z1 \<and> zindex x1 = zindex z1
      \<and> drops (collect_all_contacts z1) d0 (collect_all_contacts x1) d1"
    using e1 ok(2) 2(2) [OF ok(2)] by (cases "is_leaf z1") auto
  have node: "zone_ok l (RoutingZone (Some (x0, x1)) None m)" using 2(3) x0 x1 by simp
  have both: "drops (collect_all_contacts z0 @ collect_all_contacts z1) d
      (collect_all_contacts x0 @ collect_all_contacts x1) d1"
    using drops_both x0 x1 by blast
  show ?case
  proof (cases "should_merge x0 x1")
    case False
    then show ?thesis using 2(4) e0 e1 node both by (auto simp: Let_def)
  next
    case True
    then obtain b0 b1 where b: "bin x0 = Some b0" "bin x1 = Some b1"
      by (auto simp: should_merge_def is_leaf_def)
    have c: "collect_all_contacts x0 = b0" "collect_all_contacts x1 = b1"
      using zone_ok_leaf [OF _ b(1), of l] zone_ok_leaf [OF _ b(2), of l] x0 x1
      by (metis collect_all_contacts.simps(1))+
    obtain nb0 e0' where f0: "fold merge_into b0 ([], d1) = (nb0, e0')" by fastforce
    obtain nb e1' where f1: "fold merge_into b1 (nb0, e0') = (nb, e1')" by fastforce
    have z': "\<exists>m'. level m' = level m \<and> zone_index m' = zone_index m
        \<and> z' = RoutingZone None (Some nb) m'" "d' = e1'"
      using 2(4) e0 e1 True b f0 f1 by (auto simp: Let_def)
    then obtain m' where m': "level m' = level m" "zone_index m' = zone_index m"
      "z' = RoutingZone None (Some nb) m'" by blast
    show ?thesis
      using merge_leaves [OF node b f0 f1 m'(1,2)] m' z'(2) drops_trans [OF both] c by simp
  qed
qed auto

section \<open>Removing contacts\<close>

lemma zone_retain_effect:
  "zone_ok l z \<Longrightarrow> zone_retain gone z = (n, z', ips) \<Longrightarrow>
   zone_ok l z' \<and> meta z' = meta z
   \<and> collect_all_contacts z' = filter (\<lambda>c. \<not> gone c) (collect_all_contacts z)
   \<and> ips = map cip (filter gone (collect_all_contacts z)) \<and> n = length ips"
proof (induction l z arbitrary: n z' ips rule: zone_ok.induct)
  case (1 l b m)
  then show ?case using sum_length_filter_compl [of gone b]
    by (auto simp: Let_def bin_ok_filter in_zone_def)
next
  case (2 l z0 z1 m)
  obtain n0 x0 r0 where e0: "zone_retain gone z0 = (n0, x0, r0)" by (rule prod_cases3)
  obtain n1 x1 r1 where e1: "zone_retain gone z1 = (n1, x1, r1)" by (rule prod_cases3)
  show ?case using 2(1) [OF _ e0] 2(2) [OF _ e1] 2(3,4) e0 e1 by auto
qed auto

section \<open>The small timer\<close>

lemma bin_ok_append: "bin_ok (a @ b) \<Longrightarrow> bin_ok a"
  by (induction b rule: rev_induct) (simp_all add: bin_ok_snoc flip: append_assoc)

lemma ckeys_cids: "ckeys b = ckeys b' + ckeys D \<Longrightarrow> cid ` set b' \<subseteq> cid ` set b"
proof -
  assume "ckeys b = ckeys b' + ckeys D"
  then have "ckey ` set b = ckey ` set b' \<union> ckey ` set D" by (metis set_ckeys set_mset_union)
  then have "fst ` ckey ` set b' \<subseteq> fst ` ckey ` set b" by blast
  then show ?thesis by (simp add: image_image)
qed

lemma small_timer_retain_effect:
  "small_timer_retain now in_use cs = (kept, ips) \<Longrightarrow>
   ips = map cip (filter (expired_dead now in_use) cs)
   \<and> ckeys cs = ckeys kept + ckeys (filter (expired_dead now in_use) cs)
   \<and> (\<forall>c \<in> set kept. \<exists>c' \<in> set cs. c = c' \<or> c = c'\<lparr>expires_at := now\<rparr>)"
proof (induction cs arbitrary: kept ips)
  case (Cons c cs)
  obtain k r where e: "small_timer_retain now in_use cs = (k, r)" by fastforce
  note IH = Cons.IH [OF e]
  show ?case
  proof (cases "expired_dead now in_use c")
    case True
    then have "kept = k" "ips = cip c # r"
      using Cons.prems e by (auto simp: expired_dead_def is_dead_def)
    then show ?thesis using IH True by auto
  next
    case False
    then have "ips = r" "kept = c # k \<or> kept = c\<lparr>expires_at := now\<rparr> # k"
      using Cons.prems e by (auto simp: expired_dead_def is_dead_def Let_def split: if_splits)
    then show ?thesis using IH False by auto
  qed
qed simp

lemma probe_front_effect:
  assumes "probe_front now b = (b', probes)"
  shows "ckeys b' = ckeys b" "\<forall>c \<in> set b'. \<exists>c' \<in> set b. c = c' \<or> c = snd (checking_type now c')"
  using assms by (auto simp: probe_front_def Let_def split: list.splits if_splits)

lemma entry_ok_timers [simp]:
  "entry_ok l (c\<lparr>expires_at := t\<rparr>) = entry_ok l c"
  "entry_ok l (snd (checking_type now c)) = entry_ok l c"
  by (simp_all add: entry_ok_def is_kad2_def is_udp_firewalled_def)

lemma small_timer_leaf:
  assumes r: "small_timer_retain now in_use b = (kept, ips)" and p: "probe_front now kept = (b', probes)"
    and ok: "zone_ok l (RoutingZone None (Some b) m)"
    and m': "level m' = level m" "zone_index m' = zone_index m"
  shows "zone_ok l (RoutingZone None (Some b') m')"
    and "ckeys b = ckeys b' + ckeys (filter (expired_dead now in_use) b)"
    and "(\<forall>c \<in> set b. entry_ok k c) \<Longrightarrow> (\<forall>c \<in> set b'. entry_ok k c)"
proof -
  note R = small_timer_retain_effect [OF r] and P = probe_front_effect [OF p]
  show K: "ckeys b = ckeys b' + ckeys (filter (expired_dead now in_use) b)" using R P by simp
  have "bin_ok (b' @ filter (expired_dead now in_use) b)"
    using ok K bin_ok_cong [of b "b' @ filter (expired_dead now in_use) b"] by simp
  then have "bin_ok b'" by (rule bin_ok_append)
  moreover have "in_zone l (RoutingZone None (Some b) m) i" if "i \<in> cid ` set b'" for i
    using that ckeys_cids [OF K] ok by auto
  ultimately show "zone_ok l (RoutingZone None (Some b') m')"
    using ok m' by (auto simp: in_zone_def)
  assume e: "\<forall>c \<in> set b. entry_ok k c"
  show "\<forall>c \<in> set b'. entry_ok k c"
  proof
    fix c assume "c \<in> set b'"
    then obtain c1 c2 where "c = c1 \<or> c = snd (checking_type now c1)"
      "c1 = c2 \<or> c1 = c2\<lparr>expires_at := now\<rparr>" "c2 \<in> set b"
      using R P by blast
    then show "entry_ok k c" using e by auto
  qed
qed

lemma on_small_timer_effect:
  "zone_ok l z \<Longrightarrow> on_small_timer now in_use z = (z', probes, ips) \<Longrightarrow>
   zone_ok l z' \<and> zlevel z' = zlevel z \<and> zindex z' = zindex z
   \<and> (\<exists>D. ips = map cip D \<and> ckeys (collect_all_contacts z) = ckeys (collect_all_contacts z') + ckeys D
        \<and> set D \<subseteq> {c \<in> set (collect_all_contacts z). expired_dead now in_use c})
   \<and> ((\<forall>c \<in> set (collect_all_contacts z). entry_ok k c) \<longrightarrow>
      (\<forall>c \<in> set (collect_all_contacts z'). entry_ok k c))"
proof (induction l z arbitrary: z' probes ips rule: zone_ok.induct)
  case (1 l b m)
  show ?case
  proof (cases "b = [] \<or> now < next_small_timer m")
    case True
    then have z': "z' = RoutingZone None (Some b) m" "ips = []" using 1(2) by (simp_all split: if_splits)
    show ?thesis unfolding z' using 1(1) by (intro conjI exI [of _ "[]"]) simp_all
  next
    case False
    obtain kept r where r: "small_timer_retain now in_use b = (kept, r)" by fastforce
    obtain b' p where p: "probe_front now kept = (b', p)" by fastforce
    let ?m = "m\<lparr>next_small_timer := now + SMALL_TIMER_INTERVAL_SECS\<rparr>"
    have z': "z' = RoutingZone None (Some b') ?m" "ips = r" using 1(2) False r p by auto
    note L = small_timer_leaf [OF r p 1(1), of ?m]
    have "r = map cip (filter (expired_dead now in_use) b)" using small_timer_retain_effect [OF r] by simp
    then show ?thesis unfolding z' using L(1,2) L(3) [of k]
      by (intro conjI exI [of _ "filter (expired_dead now in_use) b"]) (simp_all, blast?)
  qed
next
  case (2 l z0 z1 m)
  obtain x0 p0 r0 where e0: "on_small_timer now in_use z0 = (x0, p0, r0)" by (rule prod_cases3)
  obtain x1 p1 r1 where e1: "on_small_timer now in_use z1 = (x1, p1, r1)" by (rule prod_cases3)
  have ok: "zone_ok l z0" "zone_ok l z1" using 2(3) by auto
  have z': "z' = RoutingZone (Some (x0, x1)) None m" "ips = r0 @ r1" using 2(4) e0 e1 by auto
  obtain D0 where D0: "zone_ok l x0" "zlevel x0 = zlevel z0" "zindex x0 = zindex z0" "r0 = map cip D0"
    "ckeys (collect_all_contacts z0) = ckeys (collect_all_contacts x0) + ckeys D0"
    "set D0 \<subseteq> {c \<in> set (collect_all_contacts z0). expired_dead now in_use c}"
    "(\<forall>c \<in> set (collect_all_contacts z0). entry_ok k c) \<longrightarrow> (\<forall>c \<in> set (collect_all_contacts x0). entry_ok k c)"
    using 2(1) [OF ok(1) e0] by (elim conjE exE) (rule that)
  obtain D1 where D1: "zone_ok l x1" "zlevel x1 = zlevel z1" "zindex x1 = zindex z1" "r1 = map cip D1"
    "ckeys (collect_all_contacts z1) = ckeys (collect_all_contacts x1) + ckeys D1"
    "set D1 \<subseteq> {c \<in> set (collect_all_contacts z1). expired_dead now in_use c}"
    "(\<forall>c \<in> set (collect_all_contacts z1). entry_ok k c) \<longrightarrow> (\<forall>c \<in> set (collect_all_contacts x1). entry_ok k c)"
    using 2(2) [OF ok(2) e1] by (elim conjE exE) (rule that)
  show ?case
  proof (intro conjI exI [of _ "D0 @ D1"])
    show "zone_ok l z'" using 2(3) D0(1-3) D1(1-3) z'(1) by simp
    show "ckeys (collect_all_contacts (RoutingZone (Some (z0, z1)) None m))
        = ckeys (collect_all_contacts z') + ckeys (D0 @ D1)"
      using z'(1) D0(5) D1(5) by simp
    show "set (D0 @ D1) \<subseteq> {c \<in> set (collect_all_contacts (RoutingZone (Some (z0, z1)) None m)).
        expired_dead now in_use c}"
      using D0(6) D1(6) by auto
    show "(\<forall>c \<in> set (collect_all_contacts (RoutingZone (Some (z0, z1)) None m)). entry_ok k c) \<longrightarrow>
        (\<forall>c \<in> set (collect_all_contacts z'). entry_ok k c)"
      unfolding z'(1) collect_all_contacts.simps set_append ball_Un
      by (intro impI conjI; elim conjE) (rule mp [OF D0(7)], assumption, rule mp [OF D1(7)], assumption)
  qed (use z' D0(4) D1(4) in simp_all)
qed auto

section \<open>The big timer\<close>

lemma replace_at_leaf:
  "zone_ok l z \<Longrightarrow> (p, x) \<in> set (collect_leaves z) \<Longrightarrow> same_leaf x x' \<Longrightarrow>
   zone_ok l (replace_at p x' z) \<and> zlevel (replace_at p x' z) = zlevel z
   \<and> zindex (replace_at p x' z) = zindex z
   \<and> collect_all_contacts (replace_at p x' z) = collect_all_contacts z"
proof (induction l z arbitrary: p rule: zone_ok.induct)
  case (1 l b m)
  then show ?case by (cases x') (auto simp: same_leaf_def in_zone_def)
qed auto

lemma big_timer_same_leaf:
  "try_big_timer_on_leaf rnd now l lk dl z = Some (t, z', dl') \<Longrightarrow> same_leaf z z'"
  by (auto simp: try_big_timer_on_leaf_def same_leaf_def split: if_splits option.splits)

lemma collect_leaves_ok:
  "zone_ok l z \<Longrightarrow> (p, x) \<in> set (collect_leaves z) \<Longrightarrow> zone_ok l x \<and> is_leaf x"
  by (induction l z arbitrary: p rule: zone_ok.induct) (auto simp: is_leaf_def)

end
