(* ===== verification/Routing_Closest.thy ===== *)
theory Routing_Closest
  imports Routing_Upkeep
begin

text \<open>
  Closest-contact queries: the tree walk of \<^verbatim>\<open>RoutingZone::get_closest_to\<close>, which visits
  the subtree on the target's side first and the other one only when there is room left, is
  equivalent to sorting all eligible contacts of the tree by XOR distance and taking a
  prefix.
\<close>

unbundle bit_operations_syntax

section \<open>The reference: sort all contacts by distance\<close>

definition eligible :: "u8 \<Rightarrow> bool \<Rightarrow> kad_contact \<Rightarrow> bool" where
  "eligible max_type require_verified c \<longleftrightarrow>
     contact_type c \<le> max_type \<and> (\<not> require_verified \<or> verified c)"

definition closest_entry :: "kad_id \<Rightarrow> kad_contact \<Rightarrow> (kad_id \<times> ipv4 \<times> u16) \<times> kad_contact" where
  "closest_entry t c = ((xor_distance t (cid c), cip c, udp_port c), c)"

definition by_distance :: "kad_id \<Rightarrow> kad_contact list \<Rightarrow> kad_contact list" where
  "by_distance t cs = sort_key (\<lambda>c. xor_distance t (cid c)) cs"

section \<open>Sorted maps are determined by their entries\<close>

lemma xor_distance_inject [simp]: "xor_distance t a = xor_distance t b \<longleftrightarrow> a = b"
proof
  assume "xor_distance t a = xor_distance t b"
  then have "bit (kad_val (xor_distance t a)) n = bit (kad_val (xor_distance t b)) n" for n by simp
  then have "kad_val a = kad_val b" by (intro bit_word_eqI) (auto simp: bit_simps)
  then show "a = b" by (simp add: kad_val_inject)
qed simp

lemma sorted_keys_unique:
  assumes "sorted_keys xs" "sorted_keys ys" "mset xs = mset ys"
  shows "xs = ys"
proof -
  have "inj_on fst (set xs)" using assms(1) strict_sorted_iff [of "map fst xs"] by (simp add: distinct_map)
  then have "sort_key fst xs = ys" "sort_key fst xs = xs"
    using assms strict_sorted_iff by (auto intro!: sort_key_inj_key_eq)
  then show ?thesis by simp
qed

lemma sorted_keys_append:
  "sorted_keys (a @ b) \<longleftrightarrow> sorted_keys a \<and> sorted_keys b \<and> (\<forall>x \<in> set a. \<forall>y \<in> set b. fst x < fst y)"
  by (auto simp: sorted_wrt_append)

lemma inj_distance: "distinct (map cid cs) \<Longrightarrow> inj_on (\<lambda>c. xor_distance t (cid c)) (set cs)"
  by (auto simp: inj_on_def distinct_map)

lemma set_by_distance [simp]: "set (by_distance t cs) = set cs" "length (by_distance t cs) = length cs"
  "mset (by_distance t cs) = mset cs"
  by (simp_all add: by_distance_def)

lemma sorted_by_distance:
  assumes "distinct (map cid cs)"
  shows "sorted_keys (map (closest_entry t) (by_distance t cs))"
proof -
  let ?d = "\<lambda>c. xor_distance t (cid c)"
  have "distinct (map ?d (by_distance t cs))"
    using assms inj_distance [OF assms, of t] by (simp add: distinct_map by_distance_def)
  moreover have "sorted (map ?d (by_distance t cs))" by (simp add: by_distance_def)
  ultimately have "sorted_wrt (<) (map ?d (by_distance t cs))" by (simp add: strict_sorted_iff)
  then show ?thesis
    by (simp add: sorted_wrt_map closest_entry_def less_prod_def' comp_def)
       (erule sorted_wrt_mono_rel [rotated], simp)
qed

lemma by_distance_append:
  assumes "distinct (map cid (xs @ ys))"
    and "\<And>x y. x \<in> set xs \<Longrightarrow> y \<in> set ys \<Longrightarrow> xor_distance t (cid x) < xor_distance t (cid y)"
    and "mset zs = mset (xs @ ys)"
  shows "by_distance t zs = by_distance t xs @ by_distance t ys"
  unfolding by_distance_def
proof (rule sort_key_inj_key_eq)
  have "distinct (map cid zs)" using assms(1,3) by (metis mset_eq_imp_distinct_iff mset_map)
  then show "inj_on (\<lambda>c. xor_distance t (cid c)) (set zs)" by (rule inj_distance)
  show "sorted (map (\<lambda>c. xor_distance t (cid c))
      (sort_key (\<lambda>c. xor_distance t (cid c)) xs @ sort_key (\<lambda>c. xor_distance t (cid c)) ys))"
    using assms(2) by (force simp: sorted_append intro: less_imp_le)
qed (use assms(3) in simp)

section \<open>A bin\<close>

lemma fold_insert_closest:
  fixes mt :: u8 and req :: bool
  assumes "distinct (map cid cs)" "sorted_keys m"
    and "\<And>e c. e \<in> set m \<Longrightarrow> c \<in> set cs \<Longrightarrow> fst (fst e) \<noteq> xor_distance t (cid c)"
  defines "ins \<equiv> \<lambda>c m. if eligible mt req c
      then btree_insert (xor_distance t (cid c), cip c, udp_port c) c m else m"
  shows "sorted_keys (fold ins cs m)
    \<and> mset (fold ins cs m) = mset m + mset (map (closest_entry t) (filter (eligible mt req) cs))"
  using assms(1-3)
proof (induction cs arbitrary: m)
  case (Cons c cs)
  let ?k = "(xor_distance t (cid c), cip c, udp_port c)"
  show ?case
  proof (cases "eligible mt req c")
    case True
    have fresh: "?k \<notin> fst ` set m" using Cons.prems(3) [of _ c] by force
    have keys: "set (btree_insert ?k c m) = insert (?k, c) (set m)"
      using mset_btree_insert [OF fresh, of c] by (metis set_mset_mset set_mset_add_mset_insert)
    have "fst (fst e) \<noteq> xor_distance t (cid x)" if "e \<in> set (btree_insert ?k c m)" "x \<in> set cs" for e x
      using that(1) unfolding keys
    proof
      assume "e = (?k, c)"
      then show ?thesis using that(2) Cons.prems(1) by (auto simp: image_iff)
    next
      assume "e \<in> set m"
      then show ?thesis using that(2) by (intro Cons.prems(3)) simp_all
    qed
    then have "sorted_keys (fold ins cs (btree_insert ?k c m))
        \<and> mset (fold ins cs (btree_insert ?k c m)) = mset (btree_insert ?k c m)
          + mset (map (closest_entry t) (filter (eligible mt req) cs))"
      using Cons.IH [OF _ sorted_btree_insert [OF Cons.prems(2)]] Cons.prems(1) by simp
    then show ?thesis using True mset_btree_insert [OF fresh, of c] by (simp add: ins_def closest_entry_def [of t c])
  next
    case False
    then show ?thesis using Cons.IH [OF _ Cons.prems(2)] Cons.prems(1,3) by (simp add: ins_def)
  qed
qed simp

lemma bin_closest:
  assumes "distinct (map cid b)" "sorted_keys m"
    and "\<And>e c. e \<in> set m \<Longrightarrow> c \<in> set b \<Longrightarrow> fst (fst e) < xor_distance t (cid c)"
  shows "bin_get_closest_to mt t n req b m
    = take n (m @ map (closest_entry t) (by_distance t (filter (eligible mt req) b)))"
proof -
  let ?r = "fold (\<lambda>c m. if eligible mt req c
      then btree_insert (xor_distance t (cid c), cip c, udp_port c) c m else m) b m"
  let ?e = "map (closest_entry t) (by_distance t (filter (eligible mt req) b))"
  have "fst (fst e) \<noteq> xor_distance t (cid c)" if "e \<in> set m" "c \<in> set b" for e c
    using assms(3) [OF that] by simp
  then have r: "sorted_keys ?r" "mset ?r = mset m + mset (map (closest_entry t) (filter (eligible mt req) b))"
    using fold_insert_closest [OF assms(1,2), of t mt req] by simp_all
  have "sorted_keys ?e"
    by (rule sorted_by_distance) (use assms(1) distinct_map_filter in blast)
  moreover have "fst e < fst e'" if "e \<in> set m" "e' \<in> set ?e" for e e'
    using assms(3) that by (cases e) (auto simp: closest_entry_def less_prod_def')
  ultimately have "sorted_keys (m @ ?e)"
    using assms(2) unfolding sorted_keys_append by blast
  then have "?r = m @ ?e" using r by (intro sorted_keys_unique) simp_all
  then show ?thesis
    by (simp add: bin_get_closest_to_def btree_truncate_take eligible_def)
qed

section \<open>The tree\<close>

text \<open>Within a zone, the child on the target's side holds the closer contacts.\<close>

lemma closer_child:
  assumes node: "zone_ok l (RoutingZone (Some (z0, z1)) None m)"
    and x: "x \<in> set (collect_all_contacts z0)" and y: "y \<in> set (collect_all_contacts z1)"
  shows "if get_bit_number (xor_distance l t) (level m) = 0
    then xor_distance t (cid x) < xor_distance t (cid y)
    else xor_distance t (cid y) < xor_distance t (cid x)"
proof -
  let ?z = "RoutingZone (Some (z0, z1)) None m"
  let ?dx = "kad_val (xor_distance t (cid x))" and ?dy = "kad_val (xor_distance t (cid y))"
  have lv: "level m < 127" using node by simp
  have iz: "in_zone l ?z (cid x)" "in_zone l ?z (cid y)"
    using contacts_in_zone [OF node] x y by auto
  have bits: "\<not> bit (kad_val l XOR kad_val (cid x)) (127 - level m)"
    "bit (kad_val l XOR kad_val (cid y)) (127 - level m)"
    using side_of_contact(1) [OF node x] side_of_contact(2) [OF node y] lv
    by (simp_all add: get_bit_number_eq)
  have via: "drop_bit n (kad_val (xor_distance t i)) = drop_bit n (kad_val (xor_distance l t))
      XOR drop_bit n (kad_val (xor_distance l i))" for n i
    by (rule bit_word_eqI) (auto simp: bit_simps)
  have pre: "drop_bit (128 - level m) ?dx = drop_bit (128 - level m) ?dy"
    using iz unfolding via [of _ "cid x"] via [of _ "cid y"] in_zone_def by simp
  show ?thesis
  proof (cases "get_bit_number (xor_distance l t) (level m) = 0")
    case True
    then have "\<not> bit ?dx (127 - level m)" "bit ?dy (127 - level m)"
      using bits lv by (auto simp: get_bit_number_eq bit_simps)
    then show ?thesis using True less_by_bit [OF lv pre] by (simp add: kad_id_less_iff)
  next
    case False
    then have "\<not> bit ?dy (127 - level m)" "bit ?dx (127 - level m)"
      using bits lv by (auto simp: get_bit_number_eq bit_simps)
    then show ?thesis using False less_by_bit [OF lv pre [symmetric]] by (simp add: kad_id_less_iff)
  qed
qed

text \<open>
  Asking one subtree for the closest contacts, and the other only when there is room left,
  gives the closest contacts of both when the first holds the closer ones.
\<close>

lemma closest_in_two:
  fixes t :: kad_id and A B :: "kad_contact list" and P :: "kad_contact \<Rightarrow> bool"
  defines "E \<equiv> \<lambda>cs. map (closest_entry t) (by_distance t (filter P cs))"
  assumes A: "f m = take n (m @ E A)"
    and B: "\<And>r. sorted_keys r \<Longrightarrow> length r \<le> n \<Longrightarrow>
        (\<And>e c. e \<in> set r \<Longrightarrow> c \<in> set B \<Longrightarrow> fst (fst e) < xor_distance t (cid c)) \<Longrightarrow> g r = take n (r @ E B)"
    and m: "sorted_keys m" "length m \<le> n"
      "\<And>e c. e \<in> set m \<Longrightarrow> c \<in> set A \<union> set B \<Longrightarrow> fst (fst e) < xor_distance t (cid c)"
    and AB: "distinct (map cid (A @ B))"
      "\<And>x y. x \<in> set A \<Longrightarrow> y \<in> set B \<Longrightarrow> xor_distance t (cid x) < xor_distance t (cid y)"
  shows "(if length (f m) < n then g (f m) else f m)
    = take n (m @ map (closest_entry t) (by_distance t (filter P A) @ by_distance t (filter P B)))"
proof (cases "length (f m) < n")
  case True
  then have fm: "f m = m @ E A" using A by (simp add: min_def split: if_splits)
  have "sorted_keys (E A)"
    unfolding E_def by (rule sorted_by_distance) (use AB(1) distinct_map_filter in auto)
  moreover have "fst e < fst e'" if "e \<in> set m" "e' \<in> set (E A)" for e e'
    using m(3) that by (cases e) (auto simp: E_def closest_entry_def less_prod_def')
  ultimately have "sorted_keys (f m)"
    using m(1) unfolding fm sorted_keys_append by blast
  moreover have "fst (fst e) < xor_distance t (cid c)" if "e \<in> set (f m)" "c \<in> set B" for e c
    using that(1) unfolding fm set_append
  proof
    assume "e \<in> set m"
    then show ?thesis using that(2) by (intro m(3)) simp_all
  qed (use that(2) AB(2) in \<open>auto simp: E_def closest_entry_def\<close>)
  ultimately have "g (f m) = take n (f m @ E B)" using True by (intro B) simp_all
  then show ?thesis using True fm by (simp add: E_def)
next
  case False
  then have "n \<le> length (m @ E A)" using A by simp
  then show ?thesis using False A by (simp add: E_def)
qed

lemma zone_closest:
  assumes "zone_ok l z" "sorted_keys m" "length m \<le> n"
    and "\<And>e c. e \<in> set m \<Longrightarrow> c \<in> set (collect_all_contacts z) \<Longrightarrow> fst (fst e) < xor_distance t (cid c)"
  shows "zone_get_closest_to mt t (xor_distance l t) n req z m
    = take n (m @ map (closest_entry t) (by_distance t (filter (eligible mt req) (collect_all_contacts z))))"
  using assms
proof (induction l z arbitrary: m rule: zone_ok.induct)
  case (1 l b m')
  then show ?case using bin_closest [of b m t mt n req] by (simp add: bin_ok_def)
next
  case (2 l z0 z1 m')
  let ?P = "eligible mt req" and ?A = "collect_all_contacts z0" and ?B = "collect_all_contacts z1"
  let ?f = "zone_get_closest_to mt t (xor_distance l t) n req"
  have ok: "zone_ok l z0" "zone_ok l z1" using 2(3) by auto
  have d: "distinct (map cid (?A @ ?B))" using distinct_contacts [OF 2(3)] by simp
  then have d': "distinct (map cid (?B @ ?A))" by auto
  have dP: "distinct (map cid (filter ?P ?A @ filter ?P ?B))" "distinct (map cid (filter ?P ?B @ filter ?P ?A))"
    using d distinct_map_filter [of cid "?A @ ?B" ?P] by auto
  have IH0: "?f z0 r = take n (r @ map (closest_entry t) (by_distance t (filter ?P ?A)))"
    if "sorted_keys r" "length r \<le> n" "\<And>e c. e \<in> set r \<Longrightarrow> c \<in> set ?A \<Longrightarrow> fst (fst e) < xor_distance t (cid c)" for r
    using 2(1) [OF ok(1) that] .
  have IH1: "?f z1 r = take n (r @ map (closest_entry t) (by_distance t (filter ?P ?B)))"
    if "sorted_keys r" "length r \<le> n" "\<And>e c. e \<in> set r \<Longrightarrow> c \<in> set ?B \<Longrightarrow> fst (fst e) < xor_distance t (cid c)" for r
    using 2(2) [OF ok(2) that] .
  show ?case
  proof (cases "get_bit_number (xor_distance l t) (level m') = 0")
    case True
    have lt: "xor_distance t (cid x) < xor_distance t (cid y)" if "x \<in> set ?A" "y \<in> set ?B" for x y
      using closer_child [OF 2(3) that, of t] True by simp
    have "(if length (?f z0 m) < n then ?f z1 (?f z0 m) else ?f z0 m)
      = take n (m @ map (closest_entry t) (by_distance t (filter ?P ?A) @ by_distance t (filter ?P ?B)))"
    proof (rule closest_in_two [where f = "?f z0" and g = "?f z1"])
      show "?f z0 m = take n (m @ map (closest_entry t) (by_distance t (filter ?P ?A)))"
        by (rule IH0) (use 2(4-6) in auto)
    qed (rule IH1 2(4,5) d lt 2(6); auto; fail)+
    moreover have "by_distance t (filter ?P (?A @ ?B)) = by_distance t (filter ?P ?A) @ by_distance t (filter ?P ?B)"
      by (rule by_distance_append) (use dP lt in auto)
    ultimately show ?thesis using True by (simp add: Let_def)
  next
    case False
    have lt: "xor_distance t (cid x) < xor_distance t (cid y)" if "x \<in> set ?B" "y \<in> set ?A" for x y
      using closer_child [OF 2(3) that(2,1), of t] False by simp
    have "(if length (?f z1 m) < n then ?f z0 (?f z1 m) else ?f z1 m)
      = take n (m @ map (closest_entry t) (by_distance t (filter ?P ?B) @ by_distance t (filter ?P ?A)))"
    proof (rule closest_in_two [where f = "?f z1" and g = "?f z0"])
      show "?f z1 m = take n (m @ map (closest_entry t) (by_distance t (filter ?P ?B)))"
        by (rule IH1) (use 2(4-6) in auto)
    qed (rule IH0 2(4,5) d' lt 2(6); auto; fail)+
    moreover have "by_distance t (filter ?P (?A @ ?B)) = by_distance t (filter ?P ?B) @ by_distance t (filter ?P ?A)"
      by (rule by_distance_append) (use dP lt in auto)
    ultimately show ?thesis using False by (simp add: Let_def)
  qed
qed auto

end
