(* ===== verification/Routing_Table.thy ===== *)
theory Routing_Table
  imports Routing_Closest
begin

text \<open>
  The KAD routing table: \<^verbatim>\<open>RoutingTable\<close> of \<^verbatim>\<open>src-tauri/src/network/kad/routing.rs\<close>,
  the public interface over the zone tree with the table-wide limits on addresses and
  subnets. Every operation that changes state is a function that returns the table. The
  clock is the argument \<open>now\<close> (one reading per operation) and random draws are arguments.

  \<open>table_inv\<close> is the table's invariant: the tree's invariant, the counters equal to what
  the tree holds, at most one contact per address and ten per public /24. Every operation
  keeps it, so it holds in every reachable table.
\<close>

unbundle bit_operations_syntax

section \<open>State\<close>

record routing_table =
  root :: routing_zone
  local_id :: kad_id
  global_ip_count :: ip_counts
  global_subnet_count :: subnet_counts
  external_ip :: "u32 option"
  big_timer_global_deadline :: int
  next_zone_event_order :: nat
  in_use_contacts :: "kad_id \<rightharpoonup> nat"
  ip_gate :: ip_admission_gate

definition new_table :: "int \<Rightarrow> kad_id \<Rightarrow> bool \<Rightarrow> routing_table" where
  "new_table now lid bp =
     \<lparr>root = new_leaf now 0 (from_u32 0) 0, local_id = lid, global_ip_count = Map.empty,
      global_subnet_count = Map.empty, external_ip = None, big_timer_global_deadline = now,
      next_zone_event_order = 1, in_use_contacts = Map.empty, ip_gate = new_gate bp\<rparr>"

definition reset_big_timer_global :: "int \<Rightarrow> routing_table \<Rightarrow> routing_table" where
  "reset_big_timer_global now t = t\<lparr>big_timer_global_deadline := now\<rparr>"

definition set_external_ip :: "ipv4 option \<Rightarrow> routing_table \<Rightarrow> routing_table" where
  "set_external_ip ip t = t\<lparr>external_ip := ip\<rparr>"

definition set_ip_filter :: "shared_ip_filter \<Rightarrow> routing_table \<Rightarrow> routing_table" where
  "set_ip_filter flt t = t\<lparr>ip_gate := set_range_filter flt (ip_gate t)\<rparr>"

definition all_contacts :: "routing_table \<Rightarrow> kad_contact list" where
  "all_contacts t = collect_all_contacts (root t)"

definition has_contact_ip :: "routing_table \<Rightarrow> ipv4 \<Rightarrow> bool" where
  "has_contact_ip t ip \<longleftrightarrow> 0 < count_of (global_ip_count t) ip"

definition track_ip_add :: "ipv4 \<Rightarrow> routing_table \<Rightarrow> routing_table" where
  "track_ip_add ip t = t\<lparr>global_ip_count := count_inc ip (global_ip_count t),
     global_subnet_count := count_inc (subnet_key ip) (global_subnet_count t)\<rparr>"

definition track_ip_remove :: "ipv4 \<Rightarrow> routing_table \<Rightarrow> routing_table" where
  "track_ip_remove ip t = t\<lparr>global_ip_count := count_dec ip (global_ip_count t),
     global_subnet_count := count_dec (subnet_key ip) (global_subnet_count t)\<rparr>"

section \<open>Insertion\<close>

text \<open>The early returns of \<^verbatim>\<open>insert\<close>.\<close>

definition insert_refused :: "routing_table \<Rightarrow> kad_contact \<Rightarrow> bool" where
  "insert_refused t c \<longleftrightarrow>
     kad_options c AND 0x01 \<noteq> 0
     \<or> cid c = zero
     \<or> cid c = local_id t
     \<or> \<not> is_kad2 c
     \<or> admits (ip_gate t) (cip c) \<noteq> Allowed
     \<or> udp_port c = 0
     \<or> udp_port c = 53 \<and> version c \<le> KADEMLIA_VERSION5_48A"

definition promote_verified :: "kad_contact \<Rightarrow> kad_contact" where
  "promote_verified c =
     (if verified c \<and> contact_type c = CONTACT_TYPE_NEW
      then c\<lparr>contact_type := CONTACT_TYPE_OPEN\<rparr> else c)"

definition stamp_new :: "int \<Rightarrow> kad_contact \<Rightarrow> kad_contact" where
  "stamp_new now c =
     (let c = (if created_at c = 0 then c\<lparr>created_at := now\<rparr> else c)
      in if expires_at c = 0 then c\<lparr>expires_at := now\<rparr> else c)"

definition track_move :: "(ipv4 \<times> ipv4) option \<Rightarrow> routing_table \<Rightarrow> routing_table" where
  "track_move ip_change t =
     (case ip_change of
        Some (old_ip, new_ip) \<Rightarrow> track_ip_add new_ip (track_ip_remove old_ip t)
      | None \<Rightarrow> t)"

text \<open>The insertion of a contact that no leaf holds.\<close>

definition insert_new :: "int \<Rightarrow> kad_contact \<Rightarrow> routing_table \<Rightarrow> bool \<times> routing_table" where
  "insert_new now c t =
     (let c = stamp_new now c;
          (result, z, og, split_dropped) =
            zone_add now c (local_id t) (global_ip_count t) (global_subnet_count t) (root t)
              (next_zone_event_order t) [];
          t = fold track_ip_remove split_dropped (t\<lparr>root := z, next_zone_event_order := og\<rparr>)
      in if result = Added then (True, track_ip_add (cip c) t) else (False, t))"

definition table_insert :: "int \<Rightarrow> kad_contact \<Rightarrow> routing_table \<Rightarrow> bool \<times> routing_table" where
  "table_insert now c t =
     (if insert_refused t c then (False, t)
      else
        let c = promote_verified c;
            d = xor_distance (local_id t) (cid c);
            update = apply_existing_contact_update now c (external_ip t) (global_ip_count t)
                       (global_subnet_count t)
        in if (case find_bin d (root t) of Some b \<Rightarrow> bin_get_contact (cid c) b \<noteq> None | None \<Rightarrow> False)
           then case find_bin_mut d update (root t) of
                  (Some ip_change, z) \<Rightarrow> (False, track_move ip_change (t\<lparr>root := z\<rparr>))
                | (None, z) \<Rightarrow> (False, t)
           else case scan_leaves_mut
                       (\<lambda>b. if bin_get_contact (cid c) b \<noteq> None
                            then (let (r, b') = update b in (Some r, b')) else (None, b)) (root t) of
                  (Some ip_change, z) \<Rightarrow> (False, track_move ip_change (t\<lparr>root := z\<rparr>))
                | (None, z) \<Rightarrow> insert_new now c (t\<lparr>root := z\<rparr>))"

section \<open>Lookup, removal and verification\<close>

definition get_contact :: "kad_id \<Rightarrow> routing_table \<Rightarrow> kad_contact option" where
  "get_contact i t =
     (case find_bin (xor_distance (local_id t) i) (root t) of
        Some b \<Rightarrow> (case bin_get_contact i b of
                     Some c \<Rightarrow> Some c
                   | None \<Rightarrow> find (\<lambda>c. cid c = i) (all_contacts t))
      | None \<Rightarrow> find (\<lambda>c. cid c = i) (all_contacts t))"

definition insert_if_new :: "int \<Rightarrow> kad_contact \<Rightarrow> routing_table \<Rightarrow> bool \<times> routing_table" where
  "insert_if_new now c t = (if get_contact (cid c) t \<noteq> None then (False, t) else table_insert now c t)"

definition table_remove :: "kad_id \<Rightarrow> routing_table \<Rightarrow> bool \<times> routing_table" where
  "table_remove i t =
     (case find_bin_mut (xor_distance (local_id t) i) (bin_remove_contact i) (root t) of
        (Some (Some removed), z) \<Rightarrow> (True, track_ip_remove (cip removed) (t\<lparr>root := z\<rparr>))
      | (_, z) \<Rightarrow>
          (case scan_leaves_mut (bin_remove_contact i) z of
             (Some removed, z') \<Rightarrow> (True, track_ip_remove (cip removed) (t\<lparr>root := z'\<rparr>))
           | (None, z') \<Rightarrow> (False, t\<lparr>root := z'\<rparr>)))"

text \<open>
  \<^verbatim>\<open>get_contact_mut\<close> and a write through the reference: \<open>f\<close> is applied to the contact.
\<close>

definition touch :: "kad_id \<Rightarrow> (kad_contact \<Rightarrow> kad_contact) \<Rightarrow> routing_bin \<Rightarrow> unit option \<times> routing_bin" where
  "touch i f b =
     (if bin_get_contact i b \<noteq> None then (Some (), bin_update_contact i f b) else (None, b))"

definition get_contact_mut :: "kad_id \<Rightarrow> (kad_contact \<Rightarrow> kad_contact) \<Rightarrow> routing_table \<Rightarrow> routing_table" where
  "get_contact_mut i f t =
     (case find_bin_mut (xor_distance (local_id t) i) (touch i f) (root t) of
        (Some (Some u), z) \<Rightarrow> t\<lparr>root := z\<rparr>
      | (_, z) \<Rightarrow> t\<lparr>root := snd (scan_leaves_mut (touch i f) z)\<rparr>)"

definition mark_verified :: "int \<Rightarrow> kad_id \<Rightarrow> routing_table \<Rightarrow> routing_table" where
  "mark_verified now i t = get_contact_mut i (\<lambda>c. update_type now (c\<lparr>verified := True\<rparr>)) t"

definition mark_verified_from :: "int \<Rightarrow> kad_id \<Rightarrow> ipv4 \<Rightarrow> routing_table \<Rightarrow> bool \<times> routing_table" where
  "mark_verified_from now i sender_ip t =
     (case get_contact i t of
        Some c \<Rightarrow> if cip c = sender_ip then (True, mark_verified now i t) else (False, t)
      | None \<Rightarrow> (False, t))"

section \<open>Queries\<close>

definition find_closest_verified_by_type :: "routing_table \<Rightarrow> kad_id \<Rightarrow> nat \<Rightarrow> u8 \<Rightarrow> kad_contact list" where
  "find_closest_verified_by_type t target count_wanted max_type =
     map snd (zone_get_closest_to max_type target (xor_distance (local_id t) target) count_wanted True
       (root t) [])"

definition find_closest_verified :: "routing_table \<Rightarrow> kad_id \<Rightarrow> nat \<Rightarrow> kad_contact list" where
  "find_closest_verified t target n = find_closest_verified_by_type t target n (CONTACT_TYPE_DEAD - 1)"

definition find_closest_any :: "routing_table \<Rightarrow> kad_id \<Rightarrow> nat \<Rightarrow> kad_contact list" where
  "find_closest_any t target n =
     map snd (zone_get_closest_to (CONTACT_TYPE_DEAD - 1) target (xor_distance (local_id t) target) n
       False (root t) [])"

definition verified_len :: "routing_table \<Rightarrow> nat" where
  "verified_len t = length (filter verified (all_contacts t))"

definition table_len :: "routing_table \<Rightarrow> nat" where
  "table_len t = get_num_contacts (root t)"

definition table_is_empty :: "routing_table \<Rightarrow> bool" where
  "table_is_empty t \<longleftrightarrow> table_len t = 0"

definition find_closest_prefer_verified :: "routing_table \<Rightarrow> kad_id \<Rightarrow> nat \<Rightarrow> kad_contact list" where
  "find_closest_prefer_verified t target n =
     (let order = sort_key (\<lambda>c. (is_udp_firewalled c, xor_distance target (cid c)));
          good = order (find_closest_verified t target n)
      in if n \<le> length good then good
         else if 0 < verified_len t then good
         else let remaining = n - length good;
                  more = filter (\<lambda>c. \<not> verified c \<and> \<not> is_dead c \<and> cid c \<notin> cid ` set good)
                           (find_closest_any t target n)
              in good @ take remaining (order more))"

definition find_closest :: "routing_table \<Rightarrow> kad_id \<Rightarrow> nat \<Rightarrow> kad_contact list" where
  "find_closest t target n =
     (if 0 < verified_len t then filter (\<lambda>c. \<not> is_dead c) (find_closest_verified t target n)
      else filter (\<lambda>c. \<not> is_dead c) (find_closest_any t target n))"

definition export_bootstrap_contacts :: "(zone_meta \<Rightarrow> nat) \<Rightarrow> routing_table \<Rightarrow> nat \<Rightarrow> kad_contact list" where
  "export_bootstrap_contacts coin t max_count =
     take max_count (filter (\<lambda>c. \<not> is_dead c) (top_depth coin LOG_BASE_EXPONENT (root t)))"

definition is_acceptable_contact :: "routing_table \<Rightarrow> kad_contact \<Rightarrow> bool" where
  "is_acceptable_contact t c =
     (if \<not> is_kad2 c then False
      else case get_contact (cid c) t of
        Some e \<Rightarrow> \<not> (verified e \<and> (cip e \<noteq> cip c \<or> udp_port e \<noteq> udp_port c))
      | None \<Rightarrow> check_global_limits (cip c) (global_ip_count t) (global_subnet_count t))"

section \<open>Upkeep\<close>

definition consolidate :: "int \<Rightarrow> routing_table \<Rightarrow> nat \<times> routing_table" where
  "consolidate now t =
     (let (n, z, og, dropped) = zone_consolidate now (root t) (next_zone_event_order t) []
      in (n, fold track_ip_remove dropped (t\<lparr>root := z, next_zone_event_order := og\<rparr>)))"

text \<open>The common shape of \<^verbatim>\<open>remove_stale\<close> and \<^verbatim>\<open>remove_dead_contacts\<close>.\<close>

definition removed_then_consolidate ::
  "int \<Rightarrow> nat \<times> routing_zone \<times> ipv4 list \<Rightarrow> routing_table \<Rightarrow> nat \<times> routing_table" where
  "removed_then_consolidate now out t =
     (case out of (removed, z, ips_removed) \<Rightarrow>
        let t' = fold track_ip_remove ips_removed (t\<lparr>root := z\<rparr>)
        in (removed, if 0 < removed then snd (consolidate now t') else t'))"

definition remove_stale :: "int \<Rightarrow> int \<Rightarrow> routing_table \<Rightarrow> nat \<times> routing_table" where
  "remove_stale now max_age_secs t =
     removed_then_consolidate now (zone_remove_stale now max_age_secs (root t)) t"

definition remove_dead_contacts :: "int \<Rightarrow> routing_table \<Rightarrow> nat \<times> routing_table" where
  "remove_dead_contacts now t =
     removed_then_consolidate now (zone_remove_dead now (in_use_contacts t) (root t)) t"

fun first_firing :: "kad_id \<Rightarrow> int \<Rightarrow> kad_id \<Rightarrow> int option \<Rightarrow> int \<Rightarrow> (bool list \<times> routing_zone) list
  \<Rightarrow> (bool list \<times> kad_id \<times> routing_zone \<times> int) option" where
  "first_firing rnd now lid last_contact deadline [] = None"
| "first_firing rnd now lid last_contact deadline ((p, z) # leaves) =
     (case try_big_timer_on_leaf rnd now lid last_contact deadline z of
        Some r \<Rightarrow> Some (p, r)
      | None \<Rightarrow> first_firing rnd now lid last_contact deadline leaves)"

definition try_fire_big_timer :: "kad_id \<Rightarrow> int \<Rightarrow> int option \<Rightarrow> routing_table \<Rightarrow> kad_id option \<times> routing_table" where
  "try_fire_big_timer rnd now last_kad_contact t =
     (let leaves = sort_key (\<lambda>pz. event_order (meta (snd pz))) (collect_leaves (root t))
      in case first_firing rnd now (local_id t) last_kad_contact (big_timer_global_deadline t) leaves of
           Some (p, target, z, deadline) \<Rightarrow>
             (Some target, t\<lparr>root := replace_at p z (root t), big_timer_global_deadline := deadline\<rparr>)
         | None \<Rightarrow> (None, t))"

definition get_contacts_to_probe :: "int \<Rightarrow> routing_table \<Rightarrow> kad_contact list \<times> routing_table" where
  "get_contacts_to_probe now t =
     (let (z, to_probe, ips_removed) = on_small_timer now (in_use_contacts t) (root t)
      in (to_probe, fold track_ip_remove ips_removed (t\<lparr>root := z\<rparr>)))"

definition use_inc :: "kad_id \<Rightarrow> (kad_id \<rightharpoonup> nat) \<Rightarrow> (kad_id \<rightharpoonup> nat)" where
  "use_inc i m = m(i \<mapsto> (count_of m i + 1) mod 2 ^ 32)"

definition mark_contacts_in_use :: "kad_id list \<Rightarrow> routing_table \<Rightarrow> routing_table" where
  "mark_contacts_in_use is t = t\<lparr>in_use_contacts := fold use_inc is (in_use_contacts t)\<rparr>"

definition release_contacts_in_use :: "kad_id list \<Rightarrow> routing_table \<Rightarrow> routing_table" where
  "release_contacts_in_use is t = t\<lparr>in_use_contacts := fold count_dec is (in_use_contacts t)\<rparr>"

section \<open>Policy sweeps\<close>

definition resident_contacts :: "routing_table \<Rightarrow> (kad_id \<times> ipv4 option) list" where
  "resident_contacts t = map (\<lambda>c. (cid c, Some (cip c))) (all_contacts t)"

definition evict_contact :: "kad_id \<Rightarrow> routing_table \<Rightarrow> bool \<times> routing_table" where
  "evict_contact i t = table_remove i t"

definition evict_filtered_contacts :: "routing_table \<Rightarrow> routing_table" where
  "evict_filtered_contacts t = snd (evict_blocked_contacts ip_gate resident_contacts evict_contact t)"

definition set_block_private_ips :: "bool \<Rightarrow> routing_table \<Rightarrow> routing_table" where
  "set_block_private_ips bp t =
     (let (sweep, g) = gate_set_block_private bp (ip_gate t);
          t = t\<lparr>ip_gate := g\<rparr>
      in if sweep then evict_filtered_contacts t else t)"

section \<open>The invariant and the reachable tables\<close>

text \<open>The two counters agree with the addresses \<open>ips\<close>, and these are within the limits.\<close>

definition accounts :: "ipv4 list \<Rightarrow> routing_table \<Rightarrow> bool" where
  "accounts ips t \<longleftrightarrow> global_ip_count t = counts ips
     \<and> global_subnet_count t = counts (map subnet_key ips)"

definition within_limits :: "ipv4 list \<Rightarrow> bool" where
  "within_limits ips \<longleftrightarrow> distinct ips
     \<and> (\<forall>ip \<in> set ips. \<not> is_lan_ip ip \<longrightarrow>
          count (mset (map subnet_key ips)) (subnet_key ip) \<le> MAX_CONTACTS_SUBNET)"

definition table_inv :: "routing_table \<Rightarrow> bool" where
  "table_inv t \<longleftrightarrow> zone_ok (local_id t) (root t) \<and> zlevel (root t) = 0 \<and> zindex (root t) = from_u32 0
     \<and> (\<forall>c \<in> set (all_contacts t). entry_ok (local_id t) c)
     \<and> accounts (map cip (all_contacts t)) t \<and> within_limits (map cip (all_contacts t))"

text \<open>
  One call of a public operation. The one caller of \<^verbatim>\<open>get_contact_mut\<close> (the
  \<^verbatim>\<open>HelloResAck\<close> handler of \<^verbatim>\<open>network/udp.rs\<close>) stores the sender's UDP key.
\<close>

inductive table_step :: "routing_table \<Rightarrow> routing_table \<Rightarrow> bool" where
  step_insert: "table_step t (snd (table_insert now c t))"
| step_insert_if_new: "table_step t (snd (insert_if_new now c t))"
| step_remove: "table_step t (snd (table_remove i t))"
| step_mark_verified: "table_step t (mark_verified now i t)"
| step_mark_verified_from: "table_step t (snd (mark_verified_from now i ip t))"
| step_store_key: "table_step t (get_contact_mut i (\<lambda>c. c\<lparr>udp_key := Some k\<rparr>) t)"
| step_consolidate: "table_step t (snd (consolidate now t))"
| step_remove_stale: "table_step t (snd (remove_stale now age t))"
| step_remove_dead: "table_step t (snd (remove_dead_contacts now t))"
| step_probe: "table_step t (snd (get_contacts_to_probe now t))"
| step_big_timer: "table_step t (snd (try_fire_big_timer rnd now lk t))"
| step_reset_timer: "table_step t (reset_big_timer_global now t)"
| step_external_ip: "table_step t (set_external_ip ip t)"
| step_ip_filter: "table_step t (set_ip_filter flt t)"
| step_evict: "table_step t (evict_filtered_contacts t)"
| step_block_private: "table_step t (set_block_private_ips bp t)"
| step_in_use: "table_step t (mark_contacts_in_use is t)"
| step_release: "table_step t (release_contacts_in_use is t)"

definition table_start :: "routing_table \<Rightarrow> bool" where
  "table_start t \<longleftrightarrow> (\<exists>now lid bp. t = new_table now lid bp)"

end
