(* ===== verification/Routing_Laws.thy ===== *)
theory Routing_Laws
  imports Routing_Table
begin

text \<open>
  Laws of the routing table: the counters stand for the addresses in the tree, the upkeep
  operations and the removal of a contact keep \<open>table_inv\<close>, and the bin an identifier's
  distance leads to is the only one that can hold it.
\<close>

section \<open>Counters and limits\<close>

lemma accounts_mset: "mset a = mset b \<Longrightarrow> accounts a t = accounts b t"
  unfolding accounts_def by (metis counts_mset_eq mset_map)

lemma accounts_frame [simp]:
  "accounts ips (t\<lparr>root := z\<rparr>) = accounts ips t"
  "accounts ips (t\<lparr>next_zone_event_order := n\<rparr>) = accounts ips t"
  "accounts ips (t\<lparr>big_timer_global_deadline := d\<rparr>) = accounts ips t"
  "accounts ips (t\<lparr>in_use_contacts := u\<rparr>) = accounts ips t"
  "accounts ips (t\<lparr>external_ip := e\<rparr>) = accounts ips t"
  "accounts ips (t\<lparr>ip_gate := g\<rparr>) = accounts ips t"
  by (simp_all add: accounts_def)

lemma within_limits_mset: "mset a = mset b \<Longrightarrow> within_limits a = within_limits b"
  unfolding within_limits_def by (metis mset_eq_imp_distinct_iff mset_eq_setD mset_map)

lemma within_limits_Cons:
  "within_limits (ip # ips) \<longleftrightarrow> within_limits ips \<and> ip \<notin> set ips
     \<and> (is_lan_ip ip \<or> count (mset (map subnet_key ips)) (subnet_key ip) < MAX_CONTACTS_SUBNET)"
  (is "?L \<longleftrightarrow> ?R")
proof
  let ?n = "\<lambda>xs i. count (mset (map subnet_key xs)) (subnet_key i)"
  assume L: ?L
  have "?n ips i \<le> MAX_CONTACTS_SUBNET" if "i \<in> set ips" "\<not> is_lan_ip i" for i
  proof -
    have "?n (ip # ips) i \<le> MAX_CONTACTS_SUBNET" using L that unfolding within_limits_def by simp
    moreover have "?n ips i \<le> ?n (ip # ips) i" by simp
    ultimately show ?thesis by linarith
  qed
  with L show ?R unfolding within_limits_def by auto
next
  let ?n = "\<lambda>xs i. count (mset (map subnet_key xs)) (subnet_key i)"
  assume R: ?R
  have "?n (ip # ips) i \<le> MAX_CONTACTS_SUBNET" if "i \<in> set ips" "\<not> is_lan_ip i" for i
  proof (cases "subnet_key i = subnet_key ip")
    case True
    then show ?thesis using R that is_lan_ip_subnet [OF True] by simp
  next
    case False
    then show ?thesis using R that by (simp add: within_limits_def)
  qed
  with R show ?L unfolding within_limits_def by auto
qed

lemma within_limits_subnet_bound:
  assumes "distinct ips"
  shows "count (mset (map subnet_key ips)) s < u32_max"
proof -
  have "count (mset (map subnet_key ips)) s = length (filter (\<lambda>ip. subnet_key ip = s) ips)"
    by (induction ips) auto
  also have "\<dots> \<le> 256" using assms by (intro same_subnet_bound [where s = s]) auto
  finally show ?thesis by (simp add: u32_max_def)
qed

lemma accounts_add:
  assumes "accounts ips t" "within_limits ips" "ip \<notin> set ips"
  shows "accounts (ip # ips) (track_ip_add ip t)"
proof -
  have "count (mset ips) ip = 0" using assms(3) by (simp add: count_mset_0_iff)
  then have "count (mset ips) ip < u32_max" unfolding u32_max_def by linarith
  moreover have "count (mset (map subnet_key ips)) (subnet_key ip) < u32_max"
    using within_limits_subnet_bound assms(2) by (simp add: within_limits_def)
  ultimately show ?thesis using assms(1)
    by (simp add: accounts_def track_ip_add_def count_inc_counts)
qed

lemma accounts_remove:
  assumes "accounts ips t" "mset ips = add_mset ip (mset ips')"
  shows "accounts ips' (track_ip_remove ip t)"
proof -
  have "ip \<in> set ips" using assms(2) by (metis set_mset_mset union_single_eq_member)
  then have "count_dec ip (counts ips) = counts ips'"
    using assms(2) by (auto simp: count_dec_counts intro!: counts_mset_eq)
  moreover have "subnet_key ip \<in> set (map subnet_key ips)" using \<open>ip \<in> set ips\<close> by simp
  then have "count_dec (subnet_key ip) (counts (map subnet_key ips)) = counts (map subnet_key ips')"
    using assms(2) by (auto simp: count_dec_counts intro!: counts_mset_eq)
  ultimately show ?thesis using assms(1) by (simp add: accounts_def track_ip_remove_def)
qed

lemma accounts_remove_all:
  "accounts ips t \<Longrightarrow> mset ips = mset ips' + mset gone \<Longrightarrow> accounts ips' (fold track_ip_remove gone t)"
proof (induction gone arbitrary: ips t)
  case Nil
  then show ?case using accounts_mset [of ips ips'] by simp
next
  case (Cons g gone)
  have "accounts (ips' @ gone) (track_ip_remove g t)"
    using Cons.prems by (intro accounts_remove [of ips]) simp_all
  then show ?case using Cons.IH [of "ips' @ gone"] by simp
qed

lemma within_limits_subset: "within_limits ips \<Longrightarrow> mset ips = mset ips' + mset gone \<Longrightarrow> within_limits ips'"
proof (induction gone arbitrary: ips)
  case Nil
  then show ?case using within_limits_mset [of ips ips'] by simp
next
  case (Cons g gone)
  have "within_limits (g # (ips' @ gone))" using Cons.prems within_limits_mset [of ips "g # ips' @ gone"] by simp
  then show ?case using Cons.IH [of "ips' @ gone"] by (simp add: within_limits_Cons)
qed

lemma track_frame [simp]:
  "root (track_ip_remove ip t) = root t" "local_id (track_ip_remove ip t) = local_id t"
  "ip_gate (track_ip_remove ip t) = ip_gate t" "in_use_contacts (track_ip_remove ip t) = in_use_contacts t"
  "root (track_ip_add ip t) = root t" "local_id (track_ip_add ip t) = local_id t"
  "ip_gate (track_ip_add ip t) = ip_gate t" "in_use_contacts (track_ip_add ip t) = in_use_contacts t"
  "external_ip (track_ip_remove ip t) = external_ip t" "external_ip (track_ip_add ip t) = external_ip t"
  by (simp_all add: track_ip_remove_def track_ip_add_def)

lemma track_fold_frame [simp]:
  "root (fold track_ip_remove ips t) = root t" "local_id (fold track_ip_remove ips t) = local_id t"
  "ip_gate (fold track_ip_remove ips t) = ip_gate t"
  "in_use_contacts (fold track_ip_remove ips t) = in_use_contacts t"
  "external_ip (fold track_ip_remove ips t) = external_ip t"
  by (induction ips arbitrary: t) simp_all

text \<open>The limit checks of the source, read over the addresses the counters stand for.\<close>

lemma check_global_limits_iff:
  assumes "accounts ips t"
  shows "check_global_limits ip (global_ip_count t) (global_subnet_count t) \<longleftrightarrow>
    ip \<notin> set ips \<and> (is_lan_ip ip \<or> count (mset (map subnet_key ips)) (subnet_key ip) < MAX_CONTACTS_SUBNET)"
  using assms
  by (auto simp: check_global_limits_def check_global_limits_replacing_def accounts_def count_of_counts
      bin_limits Let_def not_le count_mset_0_iff)

lemma check_replacing_iff:
  assumes "accounts ips t" "mset ips = add_mset v (mset ips')" "within_limits ips"
  shows "check_global_limits_replacing ip (Some v) (global_ip_count t) (global_subnet_count t) \<longrightarrow>
    ip \<notin> set ips' \<and> (is_lan_ip ip \<or> count (mset (map subnet_key ips')) (subnet_key ip) < MAX_CONTACTS_SUBNET)"
proof -
  have c: "count (mset ips) k = count (mset ips') k + of_bool (k = v)" for k using assms(2) by simp
  have s: "count (mset (map subnet_key ips)) k = count (mset (map subnet_key ips')) k + of_bool (k = subnet_key v)"
    for k using assms(2) by simp
  show ?thesis
    using assms(1) c s
    by (auto simp: check_global_limits_replacing_def accounts_def count_of_counts bin_limits Let_def
        not_le count_mset_0_iff split: if_splits)
qed

section \<open>Every operation keeps the invariant\<close>

lemmas table_inv_parts = table_inv_def all_contacts_def

lemma shrink_inv:
  assumes "table_inv t" "zone_ok (local_id t) z" "zlevel z = 0" "zindex z = zindex (root t)"
    and "\<forall>c \<in> set (collect_all_contacts z). entry_ok (local_id t) c"
    and "mset (map cip (all_contacts t)) = mset (map cip (collect_all_contacts z)) + mset gone"
  shows "table_inv (fold track_ip_remove gone (t\<lparr>root := z, next_zone_event_order := og\<rparr>))"
    and "table_inv (fold track_ip_remove gone (t\<lparr>root := z\<rparr>))"
proof -
  have a: "accounts (map cip (all_contacts t)) t" "within_limits (map cip (all_contacts t))"
    using assms(1) by (simp_all add: table_inv_def)
  have "accounts (map cip (collect_all_contacts z)) (fold track_ip_remove gone (t\<lparr>root := z, next_zone_event_order := og\<rparr>))"
    "accounts (map cip (collect_all_contacts z)) (fold track_ip_remove gone (t\<lparr>root := z\<rparr>))"
    using assms(6) a(1) by (auto intro!: accounts_remove_all)
  moreover have "within_limits (map cip (collect_all_contacts z))"
    using within_limits_subset [OF a(2) assms(6)] .
  ultimately show "table_inv (fold track_ip_remove gone (t\<lparr>root := z, next_zone_event_order := og\<rparr>))"
    "table_inv (fold track_ip_remove gone (t\<lparr>root := z\<rparr>))"
    using assms(1-5) by (simp_all add: table_inv_parts)
qed

lemma consolidate_inv:
  assumes "table_inv t"
  shows "table_inv (snd (consolidate now t))"
    and "set (all_contacts (snd (consolidate now t))) \<subseteq> set (all_contacts t)"
proof -
  obtain n z og d where e: "zone_consolidate now (root t) (next_zone_event_order t) [] = (n, z, og, d)"
    by (rule prod_cases4)
  have ok: "zone_ok (local_id t) (root t)" using assms by (simp add: table_inv_def)
  note E = zone_consolidate_effect [OF ok e]
  then obtain D where D: "d = map cip D" "mset (all_contacts t) = mset (collect_all_contacts z) + mset D"
    by (auto simp: drops_def all_contacts_def)
  then have sub: "set (collect_all_contacts z) \<subseteq> set (all_contacts t)"
    by (metis Un_upper1 set_mset_mset set_mset_union)
  have "table_inv (fold track_ip_remove d (t\<lparr>root := z, next_zone_event_order := og\<rparr>))"
    by (rule shrink_inv(1) [OF assms]) (use E D assms sub in \<open>auto simp: table_inv_def\<close>)
  then show "table_inv (snd (consolidate now t))" by (simp add: consolidate_def e)
  show "set (all_contacts (snd (consolidate now t))) \<subseteq> set (all_contacts t)"
    using sub by (simp add: consolidate_def e all_contacts_def)
qed

lemma removed_then_consolidate_inv:
  assumes "table_inv t"
  shows "table_inv (snd (removed_then_consolidate now (zone_retain gone (root t)) t))"
    and "set (all_contacts (snd (removed_then_consolidate now (zone_retain gone (root t)) t)))
      \<subseteq> {c \<in> set (all_contacts t). \<not> gone c}"
proof -
  obtain n z ips where e: "zone_retain gone (root t) = (n, z, ips)" by (rule prod_cases3)
  have ok: "zone_ok (local_id t) (root t)" using assms by (simp add: table_inv_def)
  note E = zone_retain_effect [OF ok e]
  let ?t = "fold track_ip_remove ips (t\<lparr>root := z\<rparr>)"
  have "mset (map cip (all_contacts t)) = mset (map cip (collect_all_contacts z)) + mset ips"
    using E mset_filter_both [of gone "all_contacts t"]
    by (metis all_contacts_def image_mset_union mset_map union_commute)
  then have inv: "table_inv ?t"
    by (intro shrink_inv(2) [OF assms]) (use E assms in \<open>auto simp: table_inv_parts\<close>)
  have sub: "set (all_contacts ?t) \<subseteq> {c \<in> set (all_contacts t). \<not> gone c}"
    using E by (auto simp: all_contacts_def)
  show "table_inv (snd (removed_then_consolidate now (zone_retain gone (root t)) t))"
    using inv consolidate_inv(1) [OF inv] by (simp add: removed_then_consolidate_def e Let_def)
  show "set (all_contacts (snd (removed_then_consolidate now (zone_retain gone (root t)) t)))
      \<subseteq> {c \<in> set (all_contacts t). \<not> gone c}"
    using sub consolidate_inv(2) [OF inv] by (auto simp: removed_then_consolidate_def e Let_def)
qed

lemma snd_ckeys_mset: "ckeys a = ckeys b + ckeys D \<Longrightarrow> mset (map cip a) = mset (map cip b) + mset (map cip D)"
  by (metis ckeys_projections(2) image_mset_union)

lemma probe_inv: "table_inv t \<Longrightarrow> table_inv (snd (get_contacts_to_probe now t))"
proof -
  assume inv: "table_inv t"
  obtain z p ips where e: "on_small_timer now (in_use_contacts t) (root t) = (z, p, ips)" by (rule prod_cases3)
  have ok: "zone_ok (local_id t) (root t)" using inv by (simp add: table_inv_def)
  note E = on_small_timer_effect [OF ok e, of "local_id t"]
  then obtain D where "ips = map cip D" "ckeys (all_contacts t) = ckeys (collect_all_contacts z) + ckeys D"
    by (auto simp: all_contacts_def)
  then have "mset (map cip (all_contacts t)) = mset (map cip (collect_all_contacts z)) + mset ips"
    using snd_ckeys_mset by simp
  then have "table_inv (fold track_ip_remove ips (t\<lparr>root := z\<rparr>))"
    by (intro shrink_inv(2) [OF inv]) (use E inv in \<open>simp_all add: table_inv_parts\<close>)
  then show ?thesis by (simp add: get_contacts_to_probe_def e)
qed

lemma first_firing_Some:
  "first_firing rnd now l lk d leaves = Some (p, target, z', d') \<Longrightarrow>
   \<exists>z. (p, z) \<in> set leaves \<and> try_big_timer_on_leaf rnd now l lk d z = Some (target, z', d')"
  by (induction leaves) (auto split: option.splits)

lemma big_timer_inv:
  assumes "table_inv t"
  shows "table_inv (snd (try_fire_big_timer rnd now lk t))"
    and "all_contacts (snd (try_fire_big_timer rnd now lk t)) = all_contacts t"
proof -
  let ?leaves = "sort_key (\<lambda>pz. event_order (meta (snd pz))) (collect_leaves (root t))"
  have "table_inv (snd (try_fire_big_timer rnd now lk t))
    \<and> all_contacts (snd (try_fire_big_timer rnd now lk t)) = all_contacts t"
  proof (cases "first_firing rnd now (local_id t) lk (big_timer_global_deadline t) ?leaves")
    case None
    then show ?thesis using assms by (simp add: try_fire_big_timer_def)
  next
    case (Some r)
    obtain p target z' d' where r: "r = (p, target, z', d')" by (rule prod_cases4)
    obtain z where z: "(p, z) \<in> set (collect_leaves (root t))"
      "try_big_timer_on_leaf rnd now (local_id t) lk (big_timer_global_deadline t) z = Some (target, z', d')"
      using first_firing_Some [OF Some [unfolded r]] by auto
    have ok: "zone_ok (local_id t) (root t)" using assms by (simp add: table_inv_def)
    show ?thesis
      using replace_at_leaf [OF ok z(1) big_timer_same_leaf [OF z(2)]] Some r assms
      by (simp add: try_fire_big_timer_def table_inv_parts)
  qed
  then show "table_inv (snd (try_fire_big_timer rnd now lk t))"
    "all_contacts (snd (try_fire_big_timer rnd now lk t)) = all_contacts t" by blast+
qed

section \<open>The fast path always finds the contact\<close>

lemma find_bin_mut_same:
  "find_bin d z = Some b \<Longrightarrow> f b = (r, b) \<Longrightarrow> find_bin_mut d f z = (Some r, z)"
  by (induction d z rule: find_bin.induct) (auto split: if_splits)

lemma table_bin:
  assumes "table_inv t"
  obtains b where "find_bin (xor_distance (local_id t) i) (root t) = Some b" "bin_ok b"
    "set b \<subseteq> set (all_contacts t)" "i \<in> cid ` set b \<longleftrightarrow> i \<in> cid ` set (all_contacts t)"
    "bin_get_contact i b = find (\<lambda>c. cid c = i) (all_contacts t)"
proof -
  have ok: "zone_ok (local_id t) (root t)" using assms by (simp add: table_inv_def)
  obtain b where b: "find_bin (xor_distance (local_id t) i) (root t) = Some b" "bin_ok b"
    "set b \<subseteq> set (collect_all_contacts (root t))"
    using find_bin_total [OF ok] by blast
  show ?thesis using that b find_bin_exact [OF ok b(1)] by (simp add: all_contacts_def)
qed

lemma get_contact_find:
  assumes "table_inv t"
  shows "get_contact i t = find (\<lambda>c. cid c = i) (all_contacts t)"
proof -
  obtain b where "find_bin (xor_distance (local_id t) i) (root t) = Some b"
    "bin_get_contact i b = find (\<lambda>c. cid c = i) (all_contacts t)"
    using table_bin [OF assms] by metis
  then show ?thesis by (auto simp: get_contact_def split: option.splits)
qed

lemma distinct_all: "table_inv t \<Longrightarrow> distinct (map cid (all_contacts t))"
  using distinct_contacts [of "local_id t" "root t"] by (simp add: table_inv_parts)

lemma get_contact_Some:
  assumes "table_inv t"
  shows "get_contact i t = Some c \<longleftrightarrow> c \<in> set (all_contacts t) \<and> cid c = i"
proof -
  have d: "distinct (map cid (all_contacts t))" using assms by (rule distinct_all)
  show ?thesis unfolding get_contact_find [OF assms]
  proof
    assume "c \<in> set (all_contacts t) \<and> cid c = i"
    moreover then obtain c' where f: "find (\<lambda>c. cid c = i) (all_contacts t) = Some c'"
      by (cases "find (\<lambda>c. cid c = i) (all_contacts t)") (auto simp: find_None_iff)
    moreover then have "c' \<in> set (all_contacts t)" "cid c' = i" by (auto simp: find_Some_iff)
    ultimately show "find (\<lambda>c. cid c = i) (all_contacts t) = Some c"
      using d by (metis distinct_map inj_onD)
  qed (auto simp: find_Some_iff)
qed

lemma get_contact_None:
  "table_inv t \<Longrightarrow> get_contact i t = None \<longleftrightarrow> i \<notin> cid ` set (all_contacts t)"
  by (auto simp: get_contact_find find_None_iff)

lemma scan_absent:
  assumes "i \<notin> cid ` set (collect_all_contacts z)" "\<And>b. i \<notin> cid ` set b \<Longrightarrow> f b = (None, b)"
  shows "scan_leaves_mut f z = (None, z)"
proof (rule scan_leaves_mut_idle, intro allI impI)
  fix b assume "set b \<subseteq> set (collect_all_contacts z)"
  then have "i \<notin> cid ` set b" using assms(1) by blast
  then show "f b = (None, b)" by (rule assms(2))
qed

section \<open>Removing a contact\<close>

lemma table_remove_absent:
  assumes "table_inv t" "i \<notin> cid ` set (all_contacts t)"
  shows "table_remove i t = (False, t)"
proof -
  obtain b where b: "find_bin (xor_distance (local_id t) i) (root t) = Some b"
    "i \<in> cid ` set b \<longleftrightarrow> i \<in> cid ` set (all_contacts t)"
    using table_bin [OF assms(1)] by metis
  have absent: "bin_remove_contact i x = (None, x)" if "i \<notin> cid ` set x" for x
  proof (cases "bin_remove_contact i x")
    case (Pair r y)
    show ?thesis
    proof (cases r)
      case None
      then show ?thesis using Pair bin_remove_contact_None by simp
    next
      case (Some c)
      then have "cid c = i" "c \<in> set x"
        using Pair bin_remove_contact_Some(1,2) [of i x c y]
        by (simp, metis Pair Some bin_remove_contact_Some(2) set_mset_mset union_single_eq_member)
      then show ?thesis using that by blast
    qed
  qed
  have "find_bin_mut (xor_distance (local_id t) i) (bin_remove_contact i) (root t) = (Some None, root t)"
    using b assms(2) by (intro find_bin_mut_same [OF b(1)] absent) simp
  moreover have "scan_leaves_mut (bin_remove_contact i) (root t) = (None, root t)"
    by (rule scan_absent) (use assms(2) absent in \<open>simp_all add: all_contacts_def\<close>)
  ultimately show ?thesis by (simp add: table_remove_def)
qed

lemma table_remove_present:
  assumes "table_inv t" "c \<in> set (all_contacts t)"
  shows "fst (table_remove (cid c) t)" "table_inv (snd (table_remove (cid c) t))"
    and "mset (all_contacts t) = add_mset c (mset (all_contacts (snd (table_remove (cid c) t))))"
    and "ip_gate (snd (table_remove (cid c) t)) = ip_gate t"
    and "local_id (snd (table_remove (cid c) t)) = local_id t"
proof -
  let ?i = "cid c"
  have ok: "zone_ok (local_id t) (root t)" using assms by (simp add: table_inv_def)
  obtain b where b: "find_bin (xor_distance (local_id t) ?i) (root t) = Some b"
    "?i \<in> cid ` set b" "bin_ok b" "set b \<subseteq> set (all_contacts t)"
    using table_bin [OF assms(1), of ?i] assms(2) by (metis image_eqI)
  obtain r b' where rb: "bin_remove_contact ?i b = (r, b')" by fastforce
  then obtain d where r: "r = Some d" using b(2) bin_remove_contact_None by (cases r) auto
  note R = bin_remove_contact_Some [OF rb [unfolded r]]
  have d_in: "d \<in> set b" using R(2) by (metis set_mset_mset union_single_eq_member)
  then have "d = c"
    using R(1) assms distinct_all [OF assms(1)] b(4) by (metis distinct_map inj_onD subsetD)
  obtain z where z: "find_bin_mut (xor_distance (local_id t) ?i) (bin_remove_contact ?i) (root t) = (Some r, z)"
    "meta z = meta (root t)"
    "mset (collect_all_contacts z) + mset b = mset (collect_all_contacts (root t)) + mset b'"
    "bin_ok b' \<and> cid ` set b' \<subseteq> cid ` set b \<longrightarrow> zone_ok (local_id t) z"
    using find_bin_mut_effect [OF ok b(1), of "bin_remove_contact ?i", OF rb] by blast
  have "set b' \<subseteq> set b" using R(2) by (metis set_mset_mset set_mset_add_mset_insert subset_insertI)
  then have zok: "zone_ok (local_id t) z" using z(4) R(3) [OF b(3)] by blast
  have m: "mset (all_contacts t) = add_mset c (mset (collect_all_contacts z))"
    using z(3) R(2) \<open>d = c\<close> by (simp add: all_contacts_def)
  have res: "table_remove ?i t = (True, fold track_ip_remove [cip c] (t\<lparr>root := z\<rparr>))"
    using z(1) r \<open>d = c\<close> by (simp add: table_remove_def)
  have sub: "set (collect_all_contacts z) \<subseteq> set (all_contacts t)"
    using m by (metis set_mset_mset set_mset_add_mset_insert subset_insertI)
  have "table_inv (fold track_ip_remove [cip c] (t\<lparr>root := z\<rparr>))"
    by (rule shrink_inv(2) [OF assms(1) zok]) (use z(2) m sub assms(1) in \<open>auto simp: table_inv_def\<close>)
  then show "fst (table_remove ?i t)" "table_inv (snd (table_remove ?i t))"
    "mset (all_contacts t) = add_mset c (mset (all_contacts (snd (table_remove ?i t))))"
    "ip_gate (snd (table_remove ?i t)) = ip_gate t" "local_id (snd (table_remove ?i t)) = local_id t"
    using res m by (simp_all add: all_contacts_def)
qed

lemma table_remove_effect:
  assumes "table_inv t"
  shows "table_inv (snd (table_remove i t))" "ip_gate (snd (table_remove i t)) = ip_gate t"
    "fst (table_remove i t) \<longleftrightarrow> i \<in> cid ` set (all_contacts t)"
    "set (all_contacts (snd (table_remove i t))) = {c \<in> set (all_contacts t). cid c \<noteq> i}"
proof -
  have "table_inv (snd (table_remove i t)) \<and> ip_gate (snd (table_remove i t)) = ip_gate t
    \<and> (fst (table_remove i t) \<longleftrightarrow> i \<in> cid ` set (all_contacts t))
    \<and> set (all_contacts (snd (table_remove i t))) = {c \<in> set (all_contacts t). cid c \<noteq> i}"
  proof (cases "i \<in> cid ` set (all_contacts t)")
    case True
    then obtain c where c: "c \<in> set (all_contacts t)" "i = cid c" by blast
    note R = table_remove_present [OF assms c(1)]
    let ?cs = "all_contacts (snd (table_remove i t))"
    have "set (all_contacts t) = Set.insert c (set ?cs)"
      using R(3) c(2) by (metis set_mset_mset set_mset_add_mset_insert)
    moreover have "distinct (map cid (c # ?cs))"
      using distinct_all [OF assms] R(3) c(2) by (metis mset.simps(2) mset_eq_imp_distinct_iff mset_map)
    then have "cid x \<noteq> i" if "x \<in> set ?cs" for x
      using that c(2) by (metis distinct.simps(2) image_eqI list.set_map list.simps(9))
    ultimately show ?thesis using R(1,2,4) c by auto
  next
    case False
    then show ?thesis using table_remove_absent [OF assms False] assms by auto
  qed
  then show "table_inv (snd (table_remove i t))" "ip_gate (snd (table_remove i t)) = ip_gate t"
    "fst (table_remove i t) \<longleftrightarrow> i \<in> cid ` set (all_contacts t)"
    "set (all_contacts (snd (table_remove i t))) = {c \<in> set (all_contacts t). cid c \<noteq> i}" by blast+
qed

end
