(* ===== verification/Routing_Insert.thy ===== *)
theory Routing_Insert
  imports Routing_Laws
begin

text \<open>
  Insertion into the routing table (\<^verbatim>\<open>RoutingTable::insert\<close>) and writes through a contact
  reference: a known contact is updated in its bin and the counters follow a changed
  address, a new contact enters within the limits or takes the place of an unverified one.
  Both keep \<open>table_inv\<close>.
\<close>

text \<open>The change an accepted newcomer makes to the contacts of the table.\<close>

definition admitted :: "kad_contact \<Rightarrow> routing_table \<Rightarrow> routing_table \<Rightarrow> bool" where
  "admitted c t t' \<longleftrightarrow>
     mset (all_contacts t') = add_mset c (mset (all_contacts t))
     \<or> (\<exists>v \<in> set (all_contacts t). verified c \<and> \<not> verified v
          \<and> add_mset v (mset (all_contacts t')) = add_mset c (mset (all_contacts t)))"

section \<open>Writes through a contact reference\<close>

lemma table_update_bin:
  assumes "table_inv t" "find_bin d (root t) = Some b" "g b = (r, b')"
    and "bin_ok b'" "cid ` set b' \<subseteq> cid ` set b"
  obtains z where "find_bin_mut d g (root t) = (Some r, z)" "zone_ok (local_id t) z"
    "zlevel z = 0" "zindex z = zindex (root t)"
    "mset (collect_all_contacts z) + mset b = mset (all_contacts t) + mset b'"
proof -
  have ok: "zone_ok (local_id t) (root t)" "zlevel (root t) = 0" using assms(1) by (simp_all add: table_inv_def)
  obtain z where "find_bin_mut d g (root t) = (Some r, z)" "meta z = meta (root t)"
    "mset (collect_all_contacts z) + mset b = mset (collect_all_contacts (root t)) + mset b'"
    "zone_ok (local_id t) z"
    using find_bin_mut_effect [OF ok(1) assms(2), of g, OF assms(3)] assms(4,5) by blast
  then show ?thesis using that [of z] ok(2) by (simp add: all_contacts_def)
qed

lemma touch_absent:
  assumes "table_inv t" "i \<notin> cid ` set (all_contacts t)"
  shows "get_contact_mut i f t = t"
proof -
  obtain b where b: "find_bin (xor_distance (local_id t) i) (root t) = Some b"
    "i \<in> cid ` set b \<longleftrightarrow> i \<in> cid ` set (all_contacts t)"
    using table_bin [OF assms(1)] by metis
  have absent: "touch i f x = (None, x)" if "i \<notin> cid ` set x" for x
    using that by (simp add: touch_def bin_get_contact_None)
  have "find_bin_mut (xor_distance (local_id t) i) (touch i f) (root t) = (Some None, root t)"
    using b assms(2) by (intro find_bin_mut_same [OF b(1)] absent) simp
  moreover have "scan_leaves_mut (touch i f) (root t) = (None, root t)"
    by (rule scan_absent) (use assms(2) absent in \<open>simp_all add: all_contacts_def\<close>)
  ultimately show ?thesis by (simp add: get_contact_mut_def)
qed

lemma touch_present:
  assumes inv: "table_inv t" and c: "c \<in> set (all_contacts t)" "cid c = i"
    and f: "\<And>c. cid (f c) = cid c" "\<And>c. cip (f c) = cip c"
  obtains z X where "get_contact_mut i f t = t\<lparr>root := z\<rparr>" "zone_ok (local_id t) z"
    "zlevel z = 0" "zindex z = zindex (root t)"
    "mset (all_contacts t) = add_mset c X" "mset (collect_all_contacts z) = add_mset (f c) X"
proof -
  obtain b where b: "find_bin (xor_distance (local_id t) i) (root t) = Some b" "bin_ok b"
    "bin_get_contact i b = find (\<lambda>c. cid c = i) (all_contacts t)"
    using table_bin [OF inv, of i] by metis
  have get: "bin_get_contact i b = Some c"
    using b(3) get_contact_Some [OF inv, of i c] get_contact_find [OF inv, of i] c by simp
  have t: "touch i f b = (Some (), bin_update_contact i f b)" using get by (simp add: touch_def)
  have ck: "ckeys (bin_update_contact i f b) = ckeys b" using f by (intro ckeys_bin_update_contact) simp
  have "bin_ok (bin_update_contact i f b)" using b(2) bin_ok_cong [OF ck] by simp
  moreover have "cid ` set (bin_update_contact i f b) \<subseteq> cid ` set b"
    by (rule ckeys_cids [of _ _ "[]"]) (simp add: ck)
  ultimately obtain z where z: "find_bin_mut (xor_distance (local_id t) i) (touch i f) (root t) = (Some (Some ()), z)"
    "zone_ok (local_id t) z" "zlevel z = 0" "zindex z = zindex (root t)"
    "mset (collect_all_contacts z) + mset b = mset (all_contacts t) + mset (bin_update_contact i f b)"
    by (rule table_update_bin [OF inv b(1), of "touch i f", OF t])
  obtain us vs where "b = us @ c # vs" "bin_update_contact i f b = us @ f c # vs"
    using bin_update_contact_split [OF get, where f = f] .
  then have e: "add_mset c (mset (collect_all_contacts z)) = add_mset (f c) (mset (all_contacts t))"
    using z(5) by simp
  obtain X where X: "mset (all_contacts t) = add_mset c X" using c(1) by (metis multi_member_split set_mset_mset)
  then have "mset (collect_all_contacts z) = add_mset (f c) X" using e by (simp add: add_mset_commute)
  moreover have "get_contact_mut i f t = t\<lparr>root := z\<rparr>" using z(1) by (simp add: get_contact_mut_def)
  ultimately show ?thesis using that z(2-4) X by blast
qed

lemma get_contact_mut_effect:
  assumes inv: "table_inv t"
    and f: "\<And>c. cid (f c) = cid c" "\<And>c. cip (f c) = cip c"
      "\<And>c. entry_ok (local_id t) c \<Longrightarrow> entry_ok (local_id t) (f c)"
  shows "table_inv (get_contact_mut i f t)
    \<and> set (all_contacts (get_contact_mut i f t)) = (\<lambda>c. if cid c = i then f c else c) ` set (all_contacts t)"
proof (cases "i \<in> cid ` set (all_contacts t)")
  case False
  then have "(\<lambda>c. if cid c = i then f c else c) ` set (all_contacts t) = set (all_contacts t)"
    by (force simp: image_iff)
  then show ?thesis using inv touch_absent [OF inv False] by simp
next
  case True
  then obtain c where c: "c \<in> set (all_contacts t)" "cid c = i" by blast
  obtain z X where z: "get_contact_mut i f t = t\<lparr>root := z\<rparr>" "zone_ok (local_id t) z"
    "zlevel z = 0" "zindex z = zindex (root t)" and X: "mset (all_contacts t) = add_mset c X"
    "mset (collect_all_contacts z) = add_mset (f c) X"
    by (rule touch_present [OF inv c f(1,2)])
  obtain xs where xs: "X = mset xs" by (metis ex_mset)
  have "distinct (map cid (c # xs))"
    using distinct_all [OF inv] X(1) xs by (metis mset.simps(2) mset_eq_imp_distinct_iff mset_map)
  then have ne: "cid x \<noteq> i" if "x \<in> set xs" for x
    using that c(2) by (metis distinct.simps(2) image_eqI list.set_map list.simps(9))
  have sets: "set (all_contacts t) = Set.insert c (set xs)" "set (collect_all_contacts z) = Set.insert (f c) (set xs)"
    using X xs by (metis set_mset_add_mset_insert set_mset_mset)+
  then have img: "set (collect_all_contacts z) = (\<lambda>c. if cid c = i then f c else c) ` set (all_contacts t)"
    using ne c(2) by (auto simp: image_iff)
  have "mset (map cip (collect_all_contacts z)) = mset (map cip (all_contacts t))"
    using X f(2) by simp
  then have "accounts (map cip (collect_all_contacts z)) t" "within_limits (map cip (collect_all_contacts z))"
    using inv accounts_mset within_limits_mset unfolding table_inv_def by metis+
  moreover have "\<forall>x \<in> set (collect_all_contacts z). entry_ok (local_id t) x"
    using inv f(3) unfolding img table_inv_def by auto
  ultimately show ?thesis
    using inv z img by (simp add: table_inv_parts)
qed

section \<open>Updating a known contact\<close>

lemma move_limits:
  assumes a: "accounts ips t" "within_limits ips" and x: "mset ips = add_mset old (mset xs)"
    and lim: "count_of (global_ip_count t) new < MAX_CONTACTS_IP"
      "is_lan_ip new \<or> subnet_key old = subnet_key new
       \<or> count_of (global_subnet_count t) (subnet_key new) < MAX_CONTACTS_SUBNET"
  shows "within_limits (new # xs)"
proof -
  have wl: "within_limits (old # xs)" using a(2) x within_limits_mset [of ips "old # xs"] by simp
  have "count (mset ips) new = 0" using lim(1) a(1) by (simp add: accounts_def count_of_counts bin_limits)
  then have "new \<notin> set ips" by (metis count_mset_0_iff)
  then have fresh: "new \<notin> set xs" using x by (metis set_mset_mset set_mset_add_mset_insert insertCI)
  have "is_lan_ip new \<or> count (mset (map subnet_key xs)) (subnet_key new) < MAX_CONTACTS_SUBNET"
    using lim(2)
  proof (elim disjE)
    assume s: "subnet_key old = subnet_key new"
    then show ?thesis using wl is_lan_ip_subnet [OF s] unfolding within_limits_Cons s by blast
  next
    assume "count_of (global_subnet_count t) (subnet_key new) < MAX_CONTACTS_SUBNET"
    then have "count (mset (map subnet_key ips)) (subnet_key new) < MAX_CONTACTS_SUBNET"
      using a(1) by (simp add: accounts_def count_of_counts)
    moreover have "mset (map subnet_key ips) = add_mset (subnet_key old) (mset (map subnet_key xs))"
      using x by (metis image_mset_add_mset mset_map)
    ultimately show ?thesis by (simp split: if_splits)
  qed simp
  then show ?thesis using wl fresh by (simp add: within_limits_Cons)
qed

lemma track_move_inv:
  assumes inv: "table_inv t" and z: "zone_ok (local_id t) z" "zlevel z = 0" "zindex z = zindex (root t)"
    and e: "\<forall>c \<in> set (collect_all_contacts z). entry_ok (local_id t) c"
    and mv: "moved_ok i r (global_ip_count t) (global_subnet_count t) K K'"
    and k: "ckeys (collect_all_contacts z) + K = ckeys (all_contacts t) + K'"
  shows "table_inv (track_move r (t\<lparr>root := z\<rparr>))"
proof -
  let ?ips = "map cip (all_contacts t)" and ?ips' = "map cip (collect_all_contacts z)"
  have a: "accounts ?ips t" "within_limits ?ips" using inv by (simp_all add: table_inv_def)
  have k': "mset ?ips' + image_mset snd K = mset ?ips + image_mset snd K'"
    using k ckeys_projections(2) by (metis image_mset_union)
  show ?thesis
  proof (cases r)
    case None
    then have "mset ?ips' = mset ?ips" using mv k' by (simp add: moved_ok_def)
    then have "accounts ?ips' t" "within_limits ?ips'" using a accounts_mset within_limits_mset by metis+
    then show ?thesis using None inv z e by (simp add: track_move_def table_inv_parts)
  next
    case (Some p)
    obtain old new where p: "p = (old, new)" by (cases p)
    obtain M where M: "old \<noteq> new" "K = add_mset (i, old) M" "K' = add_mset (i, new) M"
      and lim: "count_of (global_ip_count t) new < MAX_CONTACTS_IP"
        "is_lan_ip new \<or> subnet_key old = subnet_key new
         \<or> count_of (global_subnet_count t) (subnet_key new) < MAX_CONTACTS_SUBNET"
      using mv Some p by (auto simp: moved_ok_def)
    have e2: "add_mset old (mset ?ips') = add_mset new (mset ?ips)" using k' M by simp
    then have "old \<in># mset ?ips" using M(1) by (metis insert_noteq_member add_eq_conv_ex)
    then obtain X where X: "mset ?ips = add_mset old X" by (metis multi_member_split)
    then have X': "mset ?ips' = add_mset new X" using e2 by (simp add: add_mset_commute)
    obtain xs where xs: "X = mset xs" by (metis ex_mset)
    note lims = move_limits [OF a X [unfolded xs] lim]
    have "accounts xs (track_ip_remove old t)" using X xs by (intro accounts_remove [OF a(1)]) metis
    then have "accounts (new # xs) (track_ip_add new (track_ip_remove old t))"
      using lims by (intro accounts_add) (simp_all add: within_limits_Cons)
    then have "accounts ?ips' (track_ip_add new (track_ip_remove old t))"
      using X' xs accounts_mset [of ?ips' "new # xs"] by simp
    then have "accounts ?ips' (track_ip_add new (track_ip_remove old (t\<lparr>root := z\<rparr>)))"
      by (simp add: accounts_def track_ip_add_def track_ip_remove_def)
    moreover have "within_limits ?ips'" using lims X' xs within_limits_mset [of ?ips' "new # xs"] by simp
    ultimately show ?thesis using Some p inv z e by (simp add: track_move_def table_inv_parts)
  qed
qed

lemma insert_known:
  fixes now :: int
  assumes inv: "table_inv t" and c: "\<not> insert_refused t c" and known: "cid c \<in> cid ` set (all_contacts t)"
  defines "upd \<equiv> apply_existing_contact_update now (promote_verified c) (external_ip t) (global_ip_count t)
    (global_subnet_count t)"
  shows "\<exists>b r b' z. find_bin (xor_distance (local_id t) (cid c)) (root t) = Some b \<and> upd b = (r, b')
    \<and> bin_get_contact (cid c) b = find (\<lambda>d. cid d = cid c) (all_contacts t)
    \<and> table_insert now c t = (False, track_move r (t\<lparr>root := z\<rparr>))
    \<and> mset (collect_all_contacts z) + mset b = mset (all_contacts t) + mset b'
    \<and> table_inv (track_move r (t\<lparr>root := z\<rparr>))"
proof -
  have pc [simp]: "cid (promote_verified c) = cid c" by (simp add: promote_verified_def)
  obtain b where b: "find_bin (xor_distance (local_id t) (cid c)) (root t) = Some b" "bin_ok b"
    "cid c \<in> cid ` set b" "bin_get_contact (cid c) b = find (\<lambda>d. cid d = cid c) (all_contacts t)"
    "set b \<subseteq> set (all_contacts t)"
    using table_bin [OF inv, of "cid c"] known by metis
  obtain r b' where u: "upd b = (r, b')" by fastforce
  note U = apply_update_effect [OF u [unfolded upd_def] b(2)]
  have ec: "entry_ok (local_id t) (promote_verified c)"
    using c by (auto simp: insert_refused_def entry_ok_def promote_verified_def is_kad2_def is_udp_firewalled_def)
  have "\<forall>d \<in> set b. entry_ok (local_id t) d" using inv b(5) by (auto simp: table_inv_def)
  note E = apply_update_entries [OF u [unfolded upd_def] this ec]
  have ids: "cid ` set b' \<subseteq> cid ` set b"
  proof -
    have "image_mset fst (ckeys b') = image_mset fst (ckeys b)"
      using U by (auto simp: moved_ok_def split: option.splits)
    then have "mset (map cid b') = mset (map cid b)" by (simp only: ckeys_projections(1))
    then show ?thesis by (metis mset_eq_setD list.set_map order_refl)
  qed
  obtain z where z: "find_bin_mut (xor_distance (local_id t) (cid c)) upd (root t) = (Some r, z)"
    "zone_ok (local_id t) z" "zlevel z = 0" "zindex z = zindex (root t)"
    "mset (collect_all_contacts z) + mset b = mset (all_contacts t) + mset b'"
    using U by (auto intro: table_update_bin [OF inv b(1), of upd, OF u _ ids])
  have "set (collect_all_contacts z) \<subseteq> set (all_contacts t) \<union> set b'"
    using z(5) by (metis Un_upper1 set_mset_mset set_mset_union)
  then have "\<forall>d \<in> set (collect_all_contacts z). entry_ok (local_id t) d"
    using E inv by (auto simp: table_inv_def)
  moreover have "ckeys (collect_all_contacts z) + ckeys b = ckeys (all_contacts t) + ckeys b'"
    using z(5) unfolding ckeys_def mset_map by (metis image_mset_union)
  ultimately have "table_inv (track_move r (t\<lparr>root := z\<rparr>))"
    using U z(2-4) by (intro track_move_inv [OF inv]) auto
  moreover have "bin_get_contact (cid c) b \<noteq> None" using b(3) by (simp add: bin_get_contact_None)
  then have "table_insert now c t = (False, track_move r (t\<lparr>root := z\<rparr>))"
    using c b(1) z(1) by (simp add: table_insert_def upd_def Let_def)
  ultimately show ?thesis using b u z(5) by blast
qed

section \<open>Inserting a new contact\<close>

lemma in_root:
  assumes "table_inv t"
  shows "in_zone (local_id t) (root t) i"
proof -
  have "drop_bit 128 w = 0" for w :: "128 word"
    by (rule bit_word_eqI) (auto simp: bit_drop_bit_eq dest: bit_imp_le_length)
  then show ?thesis using assms by (simp add: table_inv_def in_zone_def kad_val_from_u32)
qed

lemma stamp_new_frame [simp]:
  "cid (stamp_new now c) = cid c" "cip (stamp_new now c) = cip c" "verified (stamp_new now c) = verified c"
  "entry_ok l (stamp_new now c) = entry_ok l c"
  by (simp_all add: stamp_new_def Let_def entry_ok_def is_kad2_def is_udp_firewalled_def)

lemma grow_inv:
  assumes "table_inv t" "zone_ok (local_id t) z" "zlevel z = 0" "zindex z = zindex (root t)"
    and e: "entry_ok (local_id t) c" and X: "mset (collect_all_contacts z) = add_mset c (mset xs)"
    and sub: "set xs \<subseteq> set (all_contacts t)"
    and acc: "accounts (map cip xs) t'" "within_limits (map cip xs)"
    and lim: "cip c \<notin> cip ` set xs" "is_lan_ip (cip c)
      \<or> count (mset (map subnet_key (map cip xs))) (subnet_key (cip c)) < MAX_CONTACTS_SUBNET"
    and t': "root t' = z" "local_id t' = local_id t"
  shows "table_inv (track_ip_add (cip c) t')"
proof -
  have "accounts (map cip (c # xs)) (track_ip_add (cip c) t')"
    using accounts_add [OF acc, of "cip c"] lim(1) by simp
  moreover have "within_limits (map cip (c # xs))" using acc(2) lim by (simp add: within_limits_Cons)
  moreover have "mset (map cip (collect_all_contacts z)) = mset (map cip (c # xs))" using X by simp
  ultimately have "accounts (map cip (collect_all_contacts z)) (track_ip_add (cip c) t')"
    "within_limits (map cip (collect_all_contacts z))"
    using accounts_mset within_limits_mset by metis+
  moreover have "set (collect_all_contacts z) = Set.insert c (set xs)"
    using X by (metis set_mset_mset set_mset_add_mset_insert)
  ultimately show ?thesis using assms(1-4) e sub t' by (auto simp: table_inv_parts)
qed

lemma insert_new_effect:
  assumes inv: "table_inv t" and new: "cid c \<notin> cid ` set (all_contacts t)" and e: "entry_ok (local_id t) c"
    and ins: "insert_new now c t = (ok, t')"
  shows "table_inv t' \<and> (if ok then admitted (stamp_new now c) t t' else mset (all_contacts t') = mset (all_contacts t))"
proof -
  let ?c = "stamp_new now c" and ?ips = "map cip (all_contacts t)"
  obtain r z og ev where za: "zone_add now ?c (local_id t) (global_ip_count t) (global_subnet_count t) (root t)
      (next_zone_event_order t) [] = (r, z, og, ev)" by (rule prod_cases4)
  have zok: "zone_ok (local_id t) (root t)" and a: "accounts ?ips t" "within_limits ?ips"
    using inv by (simp_all add: table_inv_def)
  have S: "meta z = meta (root t)" "zone_ok (local_id t) z"
    "add_effect ?c (global_ip_count t) (global_subnet_count t) r (mset (all_contacts t))
       (mset (collect_all_contacts z)) ev"
    using zone_add_spec [OF zok in_root [OF inv], of ?c "global_ip_count t" "global_subnet_count t" "[]" now
        "next_zone_event_order t"] unfolding za add_spec_def by (auto simp: all_contacts_def)
  have z: "zlevel z = 0" "zindex z = zindex (root t)" using S(1) inv by (simp_all add: table_inv_def)
  let ?t = "fold track_ip_remove ev (t\<lparr>root := z, next_zone_event_order := og\<rparr>)"
  have out: "ok = (r = Added)" "t' = (if ok then track_ip_add (cip ?c) ?t else ?t)"
    using ins za by (auto simp: insert_new_def Let_def split: if_splits)
  have ec: "entry_ok (local_id t) ?c" using e by simp
  consider (no) "r \<noteq> Added" "ev = []" "mset (collect_all_contacts z) = mset (all_contacts t)"
    | (slot) "r = Added" "ev = []" "check_global_limits (cip ?c) (global_ip_count t) (global_subnet_count t)"
        "mset (collect_all_contacts z) = add_mset ?c (mset (all_contacts t))"
    | (swap) v where "r = Added" "ev = [cip v]" "verified c" "\<not> verified v" "v \<in> set (all_contacts t)"
        "check_global_limits_replacing (cip ?c) (Some (cip v)) (global_ip_count t) (global_subnet_count t)"
        "add_mset v (mset (collect_all_contacts z)) = add_mset ?c (mset (all_contacts t))"
    using S(3) by (cases "r = Added") (auto simp: add_effect_def)
  then show ?thesis
  proof cases
    case no
    have sets: "set (collect_all_contacts z) = set (all_contacts t)" using no(3) by (rule mset_eq_setD)
    have "table_inv ?t"
      by (rule shrink_inv(1) [OF inv S(2) z]) (use no(2,3) inv sets in \<open>auto simp: table_inv_def\<close>)
    then show ?thesis using out no by (simp add: all_contacts_def)
  next
    case slot
    have "table_inv (track_ip_add (cip ?c) ?t)"
      by (rule grow_inv [OF inv S(2) z ec slot(4)])
        (use slot(2,3) a check_global_limits_iff [OF a(1)] in auto)
    then show ?thesis using out slot by (simp add: admitted_def all_contacts_def)
  next
    case swap
    have "v \<noteq> ?c" using swap(3,4) by auto
    obtain xs where xs: "mset (all_contacts t) = add_mset v (mset xs)"
      using swap(5) by (metis ex_mset multi_member_split set_mset_mset)
    then have X: "mset (collect_all_contacts z) = add_mset ?c (mset xs)"
      using swap(7) by (simp add: add_mset_commute)
    have i: "mset ?ips = add_mset (cip v) (mset (map cip xs))" using xs by simp
    have acc: "accounts (map cip xs) ?t"
      using accounts_remove [OF _ i, of "t\<lparr>root := z, next_zone_event_order := og\<rparr>"] a(1) swap(2) by simp
    have wl: "within_limits (map cip xs)"
      by (rule within_limits_subset [OF a(2), of _ "[cip v]"]) (use i in simp)
    have sub: "set xs \<subseteq> set (all_contacts t)" using xs by (metis set_mset_mset set_mset_add_mset_insert subset_insertI)
    have lim: "cip ?c \<notin> cip ` set xs" "is_lan_ip (cip ?c)
      \<or> count (mset (map subnet_key (map cip xs))) (subnet_key (cip ?c)) < MAX_CONTACTS_SUBNET"
      using check_replacing_iff [OF a(1) i a(2), of "cip ?c"] swap(6) by simp_all
    have "table_inv (track_ip_add (cip ?c) ?t)"
      by (rule grow_inv [OF inv S(2) z ec X sub acc wl lim]) simp_all
    then show ?thesis using out swap by (auto simp: admitted_def all_contacts_def)
  qed
qed

lemma table_insert_new:
  assumes inv: "table_inv t" and c: "\<not> insert_refused t c" "cid c \<notin> cid ` set (all_contacts t)"
  shows "table_insert now c t = insert_new now (promote_verified c) t"
proof -
  let ?c = "promote_verified c"
  let ?upd = "apply_existing_contact_update now ?c (external_ip t) (global_ip_count t) (global_subnet_count t)"
  have pc [simp]: "cid ?c = cid c" by (simp add: promote_verified_def)
  obtain b where b: "find_bin (xor_distance (local_id t) (cid c)) (root t) = Some b"
    "cid c \<in> cid ` set b \<longleftrightarrow> cid c \<in> cid ` set (all_contacts t)"
    using table_bin [OF inv, of "cid c"] by metis
  have none: "bin_get_contact (cid c) b = None" using b(2) c(2) by (simp add: bin_get_contact_None)
  have "scan_leaves_mut (\<lambda>b. if bin_get_contact (cid c) b \<noteq> None
      then (let (r, b') = ?upd b in (Some r, b')) else (None, b)) (root t) = (None, root t)"
    by (rule scan_absent [of "cid c"]) (use c(2) in \<open>simp_all add: all_contacts_def bin_get_contact_None\<close>)
  then show ?thesis using c(1) b(1) none by (simp add: table_insert_def Let_def)
qed

lemma table_insert_effect:
  assumes inv: "table_inv t"
  shows "table_inv (snd (table_insert now c t))"
    and "fst (table_insert now c t) \<Longrightarrow> \<not> insert_refused t c \<and> cid c \<notin> cid ` set (all_contacts t)
      \<and> admitted (stamp_new now (promote_verified c)) t (snd (table_insert now c t))"
proof -
  have "table_inv (snd (table_insert now c t)) \<and> (fst (table_insert now c t) \<longrightarrow>
      \<not> insert_refused t c \<and> cid c \<notin> cid ` set (all_contacts t)
      \<and> admitted (stamp_new now (promote_verified c)) t (snd (table_insert now c t)))"
  proof (cases "insert_refused t c")
    case True
    then show ?thesis using inv by (simp add: table_insert_def)
  next
    case ok: False
    show ?thesis
    proof (cases "cid c \<in> cid ` set (all_contacts t)")
      case True
      then show ?thesis using insert_known [OF inv ok True, of now] by auto
    next
      case new: False
      let ?c = "promote_verified c"
      have pc: "cid ?c = cid c" by (simp add: promote_verified_def)
      have ec: "entry_ok (local_id t) ?c"
        using ok by (auto simp: insert_refused_def entry_ok_def promote_verified_def is_kad2_def is_udp_firewalled_def)
      have "table_insert now c t = insert_new now ?c t" using ok new by (rule table_insert_new [OF inv])
      moreover obtain r t' where "insert_new now ?c t = (r, t')" by fastforce
      ultimately show ?thesis
        using insert_new_effect [OF inv _ ec, of now r t'] new pc ok by simp
    qed
  qed
  then show "table_inv (snd (table_insert now c t))"
    "fst (table_insert now c t) \<Longrightarrow> \<not> insert_refused t c \<and> cid c \<notin> cid ` set (all_contacts t)
      \<and> admitted (stamp_new now (promote_verified c)) t (snd (table_insert now c t))" by blast+
qed

end
