(* ===== verification/Routing_Props.thy ===== *)
theory Routing_Props
  imports Routing_Insert
begin

text \<open>
  The reachable routing tables: every operation of \<^verbatim>\<open>RoutingTable\<close> keeps \<open>table_inv\<close>,
  so the invariant holds after any sequence of calls (the table is an instance of
  \<open>guarded_system\<close>), and the table provides the contract of the policy sweep (an instance
  of \<open>policy_evictable\<close>). The properties of the table follow.
\<close>

section \<open>Reachable tables\<close>

definition reachable_table :: "routing_table \<Rightarrow> bool" where
  "reachable_table t \<longleftrightarrow> (\<exists>s. table_start s \<and> table_step\<^sup>*\<^sup>* s t)"

definition sample_newcomer :: kad_contact where
  "sample_newcomer = sample_contact\<lparr>version := 8, kad_options := 0, expires_at := 500, contact_type := 4,
     last_seen := 1\<rparr>"

definition sample_table :: routing_table where
  "sample_table = snd (table_insert 100 sample_newcomer (new_table 0 (from_u32 9) True))"

definition keyed_table :: routing_table where
  "keyed_table = get_contact_mut (cid sample_newcomer) (\<lambda>c. c\<lparr>udp_key := Some \<lparr>key = 7, key_ip = 1\<rparr>\<rparr>)
     sample_table"

definition full_leaf :: routing_zone where
  "full_leaf = set_bin
     (map (\<lambda>n. sample_newcomer\<lparr>cid := from_u32 (word_of_nat n), cip := push_bit 8 (word_of_nat n)\<rparr>) [1..<11])
     (new_leaf 0 0 (from_u32 0) 0)"

lemma new_table_inv: "table_inv (new_table now l bp)"
  by (simp add: table_inv_parts new_table_def new_leaf_def accounts_def within_limits_def kad_val_from_u32)

lemma image_pairs_filter: "(\<lambda>c. (f c, g c)) ` {c \<in> A. f c \<noteq> i} = {r \<in> (\<lambda>c. (f c, g c)) ` A. fst r \<noteq> i}"
proof (rule set_eqI)
  fix r show "r \<in> (\<lambda>c. (f c, g c)) ` {c \<in> A. f c \<noteq> i} \<longleftrightarrow> r \<in> {r \<in> (\<lambda>c. (f c, g c)) ` A. fst r \<noteq> i}"
    unfolding mem_Collect_eq image_iff bex_simps by (metis fst_conv)
qed

interpretation rt_policy: policy_evictable ip_gate resident_contacts evict_contact table_inv
proof
  fix t i assume inv: "table_inv t"
  show "table_inv (snd (evict_contact i t))" "ip_gate (snd (evict_contact i t)) = ip_gate t"
    using table_remove_effect [OF inv] by (simp_all add: evict_contact_def)
  show "set (resident_contacts (snd (evict_contact i t))) = {r \<in> set (resident_contacts t). fst r \<noteq> i}"
    unfolding evict_contact_def resident_contacts_def set_map table_remove_effect(4) [OF inv]
    by (rule image_pairs_filter)
  show "fst (evict_contact i t) \<longleftrightarrow> i \<in> fst ` set (resident_contacts t)"
    using table_remove_effect(3) [OF inv] by (simp add: evict_contact_def resident_contacts_def image_image)
  show "distinct (map fst (resident_contacts t))"
    using distinct_all [OF inv] by (simp add: resident_contacts_def comp_def)
qed

lemma mark_verified_inv: "table_inv t \<Longrightarrow> table_inv (mark_verified now i t)"
  unfolding mark_verified_def
  by (rule get_contact_mut_effect [THEN conjunct1])
     (simp_all add: entry_ok_def is_kad2_def is_udp_firewalled_def)

lemma frame_inv [simp]:
  "table_inv (t\<lparr>big_timer_global_deadline := d\<rparr>) = table_inv t"
  "table_inv (t\<lparr>in_use_contacts := u\<rparr>) = table_inv t"
  "table_inv (t\<lparr>external_ip := e\<rparr>) = table_inv t"
  "table_inv (t\<lparr>ip_gate := g\<rparr>) = table_inv t"
  by (simp_all add: table_inv_parts)

lemma evict_inv: "table_inv t \<Longrightarrow> table_inv (evict_filtered_contacts t)"
  unfolding evict_filtered_contacts_def by (rule rt_policy.sweep_exact(1))

lemma table_step_inv: "table_step t t' \<Longrightarrow> table_inv t \<Longrightarrow> table_inv t'"
proof (induction rule: table_step.induct)
  case (step_insert t now c)
  then show ?case by (rule table_insert_effect(1))
next
  case (step_insert_if_new t now c)
  then show ?case using table_insert_effect(1) by (simp add: insert_if_new_def)
next
  case (step_remove t i)
  then show ?case by (rule table_remove_effect(1))
next
  case (step_mark_verified_from t now i ip)
  then show ?case using mark_verified_inv by (auto simp: mark_verified_from_def split: option.splits)
next
  case (step_store_key t i k)
  then show ?case
    by (rule get_contact_mut_effect [THEN conjunct1])
       (simp_all add: entry_ok_def is_kad2_def is_udp_firewalled_def)
next
  case (step_remove_stale t now age)
  then show ?case unfolding remove_stale_def zone_remove_stale_def by (rule removed_then_consolidate_inv(1))
next
  case (step_remove_dead t now)
  then show ?case unfolding remove_dead_contacts_def zone_remove_dead_def by (rule removed_then_consolidate_inv(1))
next
  case (step_block_private t bp)
  then show ?case using evict_inv by (auto simp: set_block_private_ips_def Let_def case_prod_beta)
qed (simp_all add: mark_verified_inv consolidate_inv(1) probe_inv big_timer_inv(1) evict_inv
      reset_big_timer_global_def set_external_ip_def set_ip_filter_def mark_contacts_in_use_def
      release_contacts_in_use_def)

interpretation rt: guarded_system table_start table_step table_inv
  by unfold_locales (auto simp: table_start_def new_table_inv intro: table_step_inv)

lemma reachable_inv_table: "reachable_table t \<Longrightarrow> table_inv t"
  unfolding reachable_table_def using rt.reachable_inv by blast

lemma reachable_step: "reachable_table t \<Longrightarrow> table_step t t' \<Longrightarrow> reachable_table t'"
  unfolding reachable_table_def by (metis rtranclp.rtrancl_into_rtrancl)

lemma reachable_new: "reachable_table (new_table now l bp)"
  unfolding reachable_table_def table_start_def by blast

lemma sample_table_reachable: "reachable_table sample_table"
  unfolding sample_table_def by (rule reachable_step [OF reachable_new step_insert])

lemma same_contact:
  "table_inv t \<Longrightarrow> c \<in> set (all_contacts t) \<Longrightarrow> d \<in> set (all_contacts t) \<Longrightarrow> cid c = cid d \<Longrightarrow> c = d"
  using distinct_all by (metis distinct_map inj_onD)

lemma sample_not_refused: "\<not> insert_refused (new_table 0 (from_u32 9) True) sample_newcomer"
proof -
  have "kad_val (from_u32 5) \<noteq> kad_val (from_u32 9)" "kad_val (from_u32 5) \<noteq> kad_val zero"
    by (simp_all add: kad_val_from_u32)
  then have "from_u32 5 \<noteq> from_u32 9" "from_u32 5 \<noteq> zero" by metis+
  moreover have "is_kad2 sample_newcomer"
    by (simp add: is_kad2_def sample_newcomer_def sample_contact_def contact_consts word_le_nat_alt)
  moreover have "admits (new_gate True) 0x51000001 = Allowed"
    by (simp add: admits_def new_gate_def is_valid_contact_ip_def is_special_use_v4_def is_bogus_v4_def
       is_lan_or_cgnat_v4_def address_defs octet_def)
  ultimately show ?thesis
    by (simp add: insert_refused_def sample_newcomer_def sample_contact_def new_table_def)
qed

lemma sample_table_insert:
  "table_insert 100 sample_newcomer (new_table 0 (from_u32 9) True) = (True, sample_table)"
  "all_contacts sample_table = [sample_newcomer]" "external_ip sample_table = None"
  "sample_table = track_ip_add (cip sample_newcomer) ((new_table 0 (from_u32 9) True)
     \<lparr>root := set_bin [sample_newcomer] (root (new_table 0 (from_u32 9) True))\<rparr>)"
proof -
  let ?t = "new_table 0 (from_u32 9) True"
  have c: "promote_verified sample_newcomer = sample_newcomer" "stamp_new 100 sample_newcomer = sample_newcomer"
    by (simp_all add: promote_verified_def stamp_new_def sample_newcomer_def sample_contact_def)
  have "table_insert 100 sample_newcomer ?t = insert_new 100 sample_newcomer ?t"
    using table_insert_new [OF new_table_inv sample_not_refused, of 100] c
    by (simp add: new_table_def new_leaf_def all_contacts_def)
  also have "\<dots> = (True, track_ip_add (cip sample_newcomer)
      (?t\<lparr>root := set_bin [sample_newcomer] (root ?t)\<rparr>))"
    by (simp add: insert_new_def c new_table_def new_leaf_def zone_add.simps [of 100 sample_newcomer]
        bin_get_contact_def bin_remaining_def check_global_limits_def check_global_limits_replacing_def
        count_of_def bin_limits bin_add_contact_def Let_def)
  finally have e: "table_insert 100 sample_newcomer ?t = (True, track_ip_add (cip sample_newcomer)
      (?t\<lparr>root := set_bin [sample_newcomer] (root ?t)\<rparr>))" .
  show "table_insert 100 sample_newcomer ?t = (True, sample_table)" by (simp add: e sample_table_def)
  show "all_contacts sample_table = [sample_newcomer]"
    unfolding all_contacts_def sample_table_def e by (simp add: set_bin_def new_table_def new_leaf_def)
  show "sample_table = track_ip_add (cip sample_newcomer) (?t\<lparr>root := set_bin [sample_newcomer] (root ?t)\<rparr>)"
    by (simp add: sample_table_def e)
  show "external_ip sample_table = None" by (simp add: sample_table_def e) (simp add: new_table_def)
qed

lemma get_contact_mut_frame:
  "external_ip (get_contact_mut i f t) = external_ip t" "in_use_contacts (get_contact_mut i f t) = in_use_contacts t"
  by (simp_all add: get_contact_mut_def split: prod.splits option.splits)

lemmas sample_table_value = sample_table_insert(4)

lemma accounting_parts:
  assumes inv: "table_inv t"
  shows "count_of (global_ip_count t) ip = count (mset (map cip (all_contacts t))) ip"
    and "count_of (global_subnet_count t) s = count (mset (map (\<lambda>c. subnet_key (cip c)) (all_contacts t))) s"
    and "count (mset (map cip (all_contacts t))) ip \<le> MAX_CONTACTS_IP"
    and "\<not> is_lan_ip ip \<Longrightarrow>
      count (mset (map (\<lambda>c. subnet_key (cip c)) (all_contacts t))) (subnet_key ip) \<le> MAX_CONTACTS_SUBNET"
    and "distinct (map cid (all_contacts t))"
    and "c \<in> set (all_contacts t) \<Longrightarrow> entry_ok (local_id t) c"
proof -
  let ?ips = "map cip (all_contacts t)"
  have a: "accounts ?ips t" "within_limits ?ips" using inv by (simp_all add: table_inv_def)
  have m: "map (\<lambda>c. subnet_key (cip c)) (all_contacts t) = map subnet_key ?ips" by simp
  show "count_of (global_ip_count t) ip = count (mset ?ips) ip"
    using a(1) by (simp add: accounts_def count_of_counts)
  show "count_of (global_subnet_count t) s = count (mset (map (\<lambda>c. subnet_key (cip c)) (all_contacts t))) s"
    unfolding m using a(1) by (simp only: accounts_def count_of_counts)
  show "count (mset ?ips) ip \<le> MAX_CONTACTS_IP"
    using a(2) distinct_count_atmost_1 [of ?ips] by (auto simp: within_limits_def bin_limits)
  show "distinct (map cid (all_contacts t))" by (rule distinct_all [OF inv])
  show "c \<in> set (all_contacts t) \<Longrightarrow> entry_ok (local_id t) c" using inv by (simp add: table_inv_def)
  assume lan: "\<not> is_lan_ip ip"
  show "count (mset (map (\<lambda>c. subnet_key (cip c)) (all_contacts t))) (subnet_key ip) \<le> MAX_CONTACTS_SUBNET"
  proof (cases "subnet_key ip \<in> set (map subnet_key ?ips)")
    case True
    then obtain x where x: "x \<in> set ?ips" "subnet_key x = subnet_key ip" by (metis imageE list.set_map)
    then show ?thesis unfolding m using a(2) lan is_lan_ip_subnet [OF x(2)] unfolding within_limits_def by metis
  next
    case False
    then show ?thesis unfolding m by (metis count_mset_0_iff zero_le)
  qed
qed

section \<open>Properties\<close>

text \<open>
  C2: in every table that a sequence of operations can produce, the leaf reached by the
  XOR distance of an identifier is the one that holds its contact, so the fast path of a
  lookup finds exactly what a scan of all leaves would find; the fallback scans never
  succeed where the fast path fails.
\<close>

theorem fast_path_complete:
  assumes "reachable_table t"
  shows "\<exists>b. find_bin (xor_distance (local_id t) i) (root t) = Some b
    \<and> bin_get_contact i b = find (\<lambda>c. cid c = i) (all_contacts t)
    \<and> get_contact i t = bin_get_contact i b"
proof -
  have inv: "table_inv t" using assms by (rule reachable_inv_table)
  obtain b where "find_bin (xor_distance (local_id t) i) (root t) = Some b"
    "bin_get_contact i b = find (\<lambda>c. cid c = i) (all_contacts t)"
    using table_bin [OF inv, of i] by metis
  then show ?thesis using get_contact_find [OF inv, of i] by auto
qed

theorem fast_path_complete_witness:
  "reachable_table sample_table \<and> get_contact (cid sample_newcomer) sample_table = Some sample_newcomer"
  using fast_path_complete [OF sample_table_reachable, of "cid sample_newcomer"] sample_table_reachable
  by (auto simp: sample_table_insert(2))

text \<open>
  C1: in every reachable table the two counters are exact, no address is used by two
  contacts, no public /24 has more than ten contacts, no identifier occurs twice, and every
  contact is one that insertion may accept (a KAD2 contact with a usable port, neither
  UDP-firewalled nor the zero or our own identifier).
\<close>

theorem reachable_table_accounting:
  assumes "reachable_table t"
  shows "(\<forall>ip. count_of (global_ip_count t) ip = count (mset (map cip (all_contacts t))) ip
        \<and> count (mset (map cip (all_contacts t))) ip \<le> MAX_CONTACTS_IP)
    \<and> (\<forall>s. count_of (global_subnet_count t) s
        = count (mset (map (\<lambda>c. subnet_key (cip c)) (all_contacts t))) s)
    \<and> (\<forall>ip. \<not> is_lan_ip ip \<longrightarrow>
        count (mset (map (\<lambda>c. subnet_key (cip c)) (all_contacts t))) (subnet_key ip) \<le> MAX_CONTACTS_SUBNET)
    \<and> distinct (map cid (all_contacts t))
    \<and> (\<forall>c \<in> set (all_contacts t). entry_ok (local_id t) c)"
  using accounting_parts [OF reachable_inv_table [OF assms]] by blast

theorem reachable_table_accounting_witness:
  "reachable_table sample_table \<and> all_contacts sample_table = [sample_newcomer]
   \<and> count_of (global_ip_count sample_table) (cip sample_newcomer) = 1"
  using reachable_table_accounting [OF sample_table_reachable] sample_table_reachable
  by (simp add: sample_table_insert(2))

text \<open>
  C3: the closest-contact query of a reachable table returns the eligible contacts (live
  enough and verified) sorted by XOR distance to the target, cut at the requested count,
  although the tree walk visits the far subtree only when the near one leaves room.
\<close>

theorem find_closest_exact:
  assumes "reachable_table t"
  shows "find_closest_verified_by_type t target n max_type
    = take n (by_distance target
        (filter (\<lambda>c. contact_type c \<le> max_type \<and> verified c) (all_contacts t)))"
proof -
  have ok: "zone_ok (local_id t) (root t)"
    using reachable_inv_table [OF assms] by (simp add: table_inv_def)
  have snd: "map snd (take n (map (closest_entry target) xs)) = take n xs" for xs
    by (simp add: take_map comp_def closest_entry_def)
  have el: "eligible max_type True = (\<lambda>c. contact_type c \<le> max_type \<and> verified c)"
    by (rule ext) (simp add: eligible_def)
  show ?thesis
    using zone_closest [OF ok, of "[]" n target max_type True]
    by (simp add: find_closest_verified_by_type_def all_contacts_def el snd)
qed

theorem find_closest_exact_witness:
  "reachable_table sample_table
   \<and> find_closest_verified_by_type (mark_verified 200 (cid sample_newcomer) sample_table) (from_u32 1) 5 4
     = by_distance (from_u32 1)
         (filter (\<lambda>c. contact_type c \<le> 4 \<and> verified c)
           (all_contacts (mark_verified 200 (cid sample_newcomer) sample_table)))"
proof -
  let ?t = "mark_verified 200 (cid sample_newcomer) sample_table"
  have r: "reachable_table ?t" by (rule reachable_step [OF sample_table_reachable step_mark_verified])
  have "set (all_contacts ?t) = {update_type 200 (sample_newcomer\<lparr>verified := True\<rparr>)}"
    unfolding mark_verified_def
    using get_contact_mut_effect [OF reachable_inv_table [OF sample_table_reachable],
        of "\<lambda>c. update_type 200 (c\<lparr>verified := True\<rparr>)" "cid sample_newcomer"]
    by (simp add: sample_table_insert(2) entry_ok_def is_kad2_def is_udp_firewalled_def)
  then have "length (all_contacts ?t) \<le> 5"
    using distinct_all [OF reachable_inv_table [OF r]] distinct_card [of "all_contacts ?t"]
    by (simp add: distinct_map)
  then have "length (filter (\<lambda>c. contact_type c \<le> 4 \<and> verified c) (all_contacts ?t)) \<le> 5"
    using length_filter_le order_trans by blast
  then show ?thesis
    using find_closest_exact [OF r, of "from_u32 1" 5 4] sample_table_reachable by simp
qed

text \<open>
  C4: what an insertion can do to a reachable table. It reports success only for a contact
  that passes every admission test and whose identifier is new, and then the table gains
  exactly that contact, either in a free slot or in the place of an unverified one that a
  verified newcomer displaces.
\<close>

theorem insert_success_exact:
  assumes "reachable_table t" "table_insert now c t = (True, t')"
  shows "\<not> insert_refused t c \<and> cid c \<notin> cid ` set (all_contacts t)
    \<and> (let c' = stamp_new now (promote_verified c) in
         mset (all_contacts t') = add_mset c' (mset (all_contacts t))
         \<or> (\<exists>v \<in> set (all_contacts t). verified c' \<and> \<not> verified v
              \<and> add_mset v (mset (all_contacts t')) = add_mset c' (mset (all_contacts t))))"
  using table_insert_effect(2) [OF reachable_inv_table [OF assms(1)], of now c] assms(2)
  by (simp add: admitted_def Let_def)

theorem insert_success_exact_witness:
  "\<exists>t t'. reachable_table t \<and> table_insert 100 sample_newcomer t = (True, t')
     \<and> cid sample_newcomer \<notin> cid ` set (all_contacts t)"
  using insert_success_exact [OF reachable_new sample_table_insert(1)] reachable_new sample_table_insert(1)
  by blast



text \<open>
  C30: removing an identifier from a reachable table removes exactly its contact, frees its
  address, and reports whether there was one; a list of contacts heard from another node
  never touches a contact the table already has.
\<close>

theorem remove_exact:
  assumes "reachable_table t"
  shows "set (all_contacts (snd (table_remove i t))) = {c \<in> set (all_contacts t). cid c \<noteq> i}
    \<and> (fst (table_remove i t) \<longleftrightarrow> i \<in> cid ` set (all_contacts t))
    \<and> (\<forall>c \<in> set (all_contacts t). cid c = i \<longrightarrow> \<not> has_contact_ip (snd (table_remove i t)) (cip c))
    \<and> (\<forall>now c. cid c \<in> cid ` set (all_contacts t) \<longrightarrow> insert_if_new now c t = (False, t))"
proof -
  have inv: "table_inv t" using assms by (rule reachable_inv_table)
  note R = table_remove_effect [OF inv, of i]
  let ?t = "snd (table_remove i t)"
  have "\<not> has_contact_ip ?t (cip c)" if c: "c \<in> set (all_contacts t)" "cid c = i" for c
  proof -
    have "mset (all_contacts t) = add_mset c (mset (all_contacts ?t))"
      using table_remove_present(3) [OF inv c(1)] c(2) by simp
    then have m: "mset (map cip (all_contacts t)) = add_mset (cip c) (mset (map cip (all_contacts ?t)))"
      by simp
    have "count (mset (map cip (all_contacts t))) (cip c) \<le> 1"
      using accounting_parts(3) [OF inv, of "cip c"] by (simp add: bin_limits)
    then have "count (mset (map cip (all_contacts ?t))) (cip c) = 0" unfolding m by simp
    then show ?thesis using accounting_parts(1) [OF R(1), of "cip c"] by (simp add: has_contact_ip_def)
  qed
  moreover have "insert_if_new now c t = (False, t)" if "cid c \<in> cid ` set (all_contacts t)" for now c
    using that get_contact_None [OF inv, of "cid c"] by (auto simp: insert_if_new_def)
  ultimately show ?thesis using R(3,4) by blast
qed

theorem remove_exact_witness:
  "reachable_table sample_table \<and> fst (table_remove (cid sample_newcomer) sample_table)
   \<and> sample_newcomer \<notin> set (all_contacts (snd (table_remove (cid sample_newcomer) sample_table)))
   \<and> \<not> has_contact_ip (snd (table_remove (cid sample_newcomer) sample_table)) (cip sample_newcomer)"
  using remove_exact [OF sample_table_reachable, of "cid sample_newcomer"] sample_table_reachable
  by (simp add: sample_table_insert(2))

text \<open>
  C29: the policy sweep over a reachable table drops exactly the contacts whose address the
  gate definitely blocks; turning the private-address block on leaves no contact with an
  address the block refuses.
\<close>

theorem policy_sweep_exact:
  assumes "reachable_table t"
  shows "ckey ` set (all_contacts (evict_filtered_contacts t))
      = {k \<in> ckey ` set (all_contacts t). \<not> is_definitely_blocked (ip_gate t) (snd k)}
    \<and> (\<not> block_private_ips (ip_gate t) \<longrightarrow>
        (\<forall>c \<in> set (all_contacts (set_block_private_ips True t)). is_valid_contact_ip (cip c) True))"
proof -
  have keys: "ckey ` set (all_contacts (evict_filtered_contacts s))
      = {k \<in> ckey ` set (all_contacts s). \<not> is_definitely_blocked (ip_gate s) (snd k)}"
    if inv: "table_inv s" for s
  proof -
    let ?J = "\<lambda>k :: kad_id \<times> ipv4. (fst k, Some (snd k))"
    have r: "set (resident_contacts u) = ?J ` ckey ` set (all_contacts u)" for u
      by (simp add: resident_contacts_def image_image)
    have "?J ` ckey ` set (all_contacts (evict_filtered_contacts s))
        = ?J ` {k \<in> ckey ` set (all_contacts s). \<not> is_definitely_blocked (ip_gate s) (snd k)}"
      using rt_policy.sweep_exact(3) [OF inv] unfolding r evict_filtered_contacts_def [symmetric]
      by (auto simp: doomed_def)
    moreover have "inj ?J" by (auto simp: inj_def)
    ultimately show ?thesis by (metis (no_types, lifting) inj_image_eq_iff)
  qed
  have inv: "table_inv t" using assms by (rule reachable_inv_table)
  have "is_valid_contact_ip (cip c) True"
    if off: "\<not> block_private_ips (ip_gate t)" and c: "c \<in> set (all_contacts (set_block_private_ips True t))" for c
  proof -
    let ?s = "t\<lparr>ip_gate := (ip_gate t)\<lparr>block_private_ips := True\<rparr>\<rparr>"
    have "set_block_private_ips True t = evict_filtered_contacts ?s"
      using off by (simp add: set_block_private_ips_def gate_set_block_private_def Let_def)
    then have "ckey c \<in> ckey ` set (all_contacts (evict_filtered_contacts ?s))" using c by simp
    then have "\<not> is_definitely_blocked (ip_gate ?s) (cip c)" using keys [of ?s] inv by auto
    then show ?thesis by (simp add: is_definitely_blocked_def split: if_splits)
  qed
  then show ?thesis using keys [OF inv] by blast
qed

theorem policy_sweep_exact_witness:
  "reachable_table sample_table
   \<and> ckey ` set (all_contacts (evict_filtered_contacts sample_table))
     = {k \<in> {ckey sample_newcomer}. \<not> is_definitely_blocked (ip_gate sample_table) (snd k)}"
  using policy_sweep_exact [OF sample_table_reachable] sample_table_reachable
  by (simp add: sample_table_insert(2))

lemma lookup_target_in_zone:
  assumes "zone_ok l z"
  shows "in_zone l z (random_lookup_target rnd l z)"
proof -
  have lv: "zlevel z \<le> 127" "drop_bit (zlevel z) (kad_val (zindex z)) = 0"
    using assms by (cases "(l, z)" rule: zone_ok.cases; simp)+
  define k where "k = 128 - zlevel z"
  let ?p = "shift_left (zindex z) k"
  let ?r = "random_with_prefix rnd ?p (zlevel z)"
  have "bit (drop_bit k (kad_val ?r)) n = bit (kad_val (zindex z)) n" if "n < 128" for n
  proof (cases "n < zlevel z")
    case True
    then have "k + n < 128" using lv(1) by (simp add: k_def)
    then have "bit (kad_val ?r) (k + n) = bit (kad_val ?p) (k + n)"
      using lv(1) bit_random_with_prefix [of "zlevel z" "k + n" rnd ?p] unfolding k_def [symmetric] by simp
    also have "\<dots> = bit (kad_val (zindex z)) n" using \<open>k + n < 128\<close> by (simp add: bit_push_bit_iff)
    finally show ?thesis by (simp add: bit_drop_bit_eq)
  next
    case False
    then have "\<not> bit (kad_val (zindex z)) n" using small_index_bit [OF lv(2), of n] by simp
    moreover have "\<not> k + n < LENGTH(128)" using False lv(1) by (simp add: k_def)
    then have "\<not> bit (kad_val ?r) (k + n)" by (meson bit_imp_le_length)
    ultimately show ?thesis by (simp add: bit_drop_bit_eq)
  qed
  then have "drop_bit k (kad_val ?r) = kad_val (zindex z)" by (intro bit_word_eqI) simp
  moreover have "kad_val (xor_distance l (random_lookup_target rnd l z)) = kad_val ?r"
    by (rule bit_word_eqI) (auto simp: random_lookup_target_def Let_def bit_simps k_def)
  ultimately show ?thesis by (simp add: in_zone_def k_def)
qed



text \<open>
  C32: the small timer only ever drops contacts that are dead, past their expiry and not in
  use by a search; every other contact of a reachable table is still there afterwards.
\<close>

theorem probing_drops_only_expired:
  assumes "reachable_table t" "c \<in> set (all_contacts t)" "\<not> expired_dead now (in_use_contacts t) c"
  shows "cid c \<in> cid ` set (all_contacts (snd (get_contacts_to_probe now t)))"
proof -
  have inv: "table_inv t" using assms(1) by (rule reachable_inv_table)
  obtain z p ips where e: "on_small_timer now (in_use_contacts t) (root t) = (z, p, ips)" by (rule prod_cases3)
  have ok: "zone_ok (local_id t) (root t)" using inv by (simp add: table_inv_def)
  obtain D where D: "ckeys (all_contacts t) = ckeys (collect_all_contacts z) + ckeys D"
    "set D \<subseteq> {c \<in> set (all_contacts t). expired_dead now (in_use_contacts t) c}"
    using on_small_timer_effect [OF ok e] unfolding all_contacts_def by blast
  have "ckey c \<in># ckeys (collect_all_contacts z) + ckeys D"
    unfolding D(1) [symmetric] set_ckeys using assms(2) by (rule imageI)
  then have "ckey c \<in> ckey ` set (collect_all_contacts z) \<or> ckey c \<in> ckey ` set D"
    by (simp add: set_ckeys)
  moreover have "ckey c \<notin> ckey ` set D"
  proof
    assume "ckey c \<in> ckey ` set D"
    then obtain d where d: "d \<in> set D" "cid d = cid c" by auto
    then have e: "d \<in> set (all_contacts t)" "expired_dead now (in_use_contacts t) d" using D(2) by blast+
    then have "d = c" using same_contact [OF inv] assms(2) d(2) by blast
    then show False using e(2) assms(3) by simp
  qed
  ultimately show ?thesis by (auto simp: get_contacts_to_probe_def e all_contacts_def)
qed

theorem probing_drops_only_expired_witness:
  "reachable_table sample_table \<and> sample_newcomer \<in> set (all_contacts sample_table)
   \<and> \<not> expired_dead 400 (in_use_contacts sample_table) sample_newcomer
   \<and> cid sample_newcomer \<in> cid ` set (all_contacts (snd (get_contacts_to_probe 400 sample_table)))"
proof -
  have m: "sample_newcomer \<in> set (all_contacts sample_table)" by (simp add: sample_table_insert(2))
  have n: "\<not> expired_dead 400 (in_use_contacts sample_table) sample_newcomer"
    by (simp add: expired_dead_def sample_newcomer_def sample_contact_def)
  show ?thesis using sample_table_reachable m n probing_drops_only_expired [OF sample_table_reachable m n] by blast
qed

text \<open>
  C33: the hourly stale sweep takes no notice of the in-use marks. A dead contact that is
  stale or expired leaves a reachable table whether or not a search holds it.
\<close>

theorem stale_sweep_ignores_in_use:
  assumes "reachable_table t" "c \<in> set (all_contacts t)" "is_dead c"
    and "is_stale now (last_seen c) age \<or> is_expired now c"
  shows "cid c \<notin> cid ` set (all_contacts (snd (remove_stale now age (mark_contacts_in_use is t))))"
proof -
  let ?t = "mark_contacts_in_use is t"
  have inv: "table_inv t" using assms(1) by (rule reachable_inv_table)
  then have inv': "table_inv ?t" by (simp add: mark_contacts_in_use_def)
  have cs: "all_contacts ?t = all_contacts t" by (simp add: mark_contacts_in_use_def all_contacts_def)
  have sub: "set (all_contacts (snd (remove_stale now age ?t))) \<subseteq> {c \<in> set (all_contacts t). \<not> goes_stale now age c}"
    unfolding remove_stale_def zone_remove_stale_def
    using removed_then_consolidate_inv(2) [OF inv', of now "goes_stale now age"] cs by simp
  show ?thesis
  proof
    assume "cid c \<in> cid ` set (all_contacts (snd (remove_stale now age ?t)))"
    then obtain d where d: "d \<in> set (all_contacts t)" "\<not> goes_stale now age d" "cid d = cid c"
      using sub by auto
    then have "d = c" using same_contact [OF inv] assms(2) by blast
    then show False using d(2) assms(3,4) by (simp add: goes_stale_def)
  qed
qed

theorem stale_sweep_ignores_in_use_witness:
  "reachable_table sample_table \<and> sample_newcomer \<in> set (all_contacts sample_table)
   \<and> 0 < count_of (in_use_contacts (mark_contacts_in_use [cid sample_newcomer] sample_table)) (cid sample_newcomer)
   \<and> cid sample_newcomer \<notin> cid ` set (all_contacts
        (snd (remove_stale 600 7200 (mark_contacts_in_use [cid sample_newcomer] sample_table))))"
proof -
  have m: "sample_newcomer \<in> set (all_contacts sample_table)" by (simp add: sample_table_insert(2))
  have d: "is_dead sample_newcomer" "is_stale 600 (last_seen sample_newcomer) 7200 \<or> is_expired 600 sample_newcomer"
    by (simp_all add: is_dead_def is_expired_def sample_newcomer_def sample_contact_def contact_consts)
  have u: "in_use_contacts sample_table = Map.empty"
    unfolding sample_table_value by (simp add: new_table_def)
  show ?thesis
    using sample_table_reachable m u
      stale_sweep_ignores_in_use [OF sample_table_reachable m d, of "[cid sample_newcomer]"]
    by (simp add: mark_contacts_in_use_def use_inc_def count_of_def)
qed

lemma full_leaf_ok: "zone_ok (from_u32 0) full_leaf" "can_split full_leaf"
proof -
  let ?c = "\<lambda>n. sample_newcomer\<lparr>cid := from_u32 (word_of_nat n), cip := push_bit 8 (word_of_nat n)\<rparr>"
  have k: "unat (kad_val (from_u32 (word_of_nat n))) = n" if "n < 11" for n
    using that by (simp add: kad_val_from_u32 unsigned_ucast_eq unat_of_nat take_bit_nat_eq_self_iff)
  have o: "octet (push_bit 8 (word_of_nat n)) 2 = word_of_nat n" for n
    by (rule bit_word_eqI) (simp add: octet_def bit_simps)
  have w: "(word_of_nat a :: u8) = word_of_nat b \<longleftrightarrow> a = b" if "a < 11" "b < 11" for a b
  proof -
    have "unat (word_of_nat n :: u8) = n" if "n < 11" for n
      using that by (simp add: unat_of_nat take_bit_nat_eq_self_iff)
    then show ?thesis using that by metis
  qed
  have ids: "from_u32 (word_of_nat a) = from_u32 (word_of_nat b) \<longleftrightarrow> a = b" if "a < 11" "b < 11" for a b
    using k that by metis
  have nets: "subnet_key (push_bit 8 (word_of_nat a)) = subnet_key (push_bit 8 (word_of_nat b)) \<longrightarrow> a = b"
    if "a < 11" "b < 11" for a b using subnet_key_octets o w that by metis
  have "bin_ok (map ?c [m..<11])" if "1 \<le> m" "m \<le> 11" for m
    using that(2,1)
  proof (induction rule: inc_induct)
    case (step m)
    have "cid (?c m) \<notin> cid ` set (map ?c [Suc m..<11])"
      using ids step.hyps by (auto simp: image_iff)
    moreover have "same_subnets (subnet_key (cip (?c m))) (map ?c [Suc m..<11]) = 0"
    proof -
      have "subnet_key (push_bit 8 (word_of_nat x)) \<noteq> subnet_key (push_bit 8 (word_of_nat m))"
        if "Suc m \<le> x" "x < 11" for x using nets [of x m] that by linarith
      then show ?thesis by (simp add: same_subnets_def filter_empty_conv)
    qed
    ultimately show ?case
      using step by (simp add: upt_conv_Cons bin_ok_Cons bin_limits)
  qed simp
  then have "bin_ok (map ?c [1..<11])" by simp
  moreover have "in_zone l (set_bin b (new_leaf 0 0 (from_u32 0) 0)) i" for l b i
  proof -
    have "drop_bit 128 w = 0" for w :: "128 word"
      by (rule bit_word_eqI) (auto simp: bit_drop_bit_eq dest: bit_imp_le_length)
    then show ?thesis by (simp add: in_zone_def set_bin_def new_leaf_def kad_val_from_u32)
  qed
  ultimately show "zone_ok (from_u32 0) full_leaf" "can_split full_leaf"
    by (simp_all add: full_leaf_def set_bin_def new_leaf_def kad_val_from_u32 can_split_def zone_consts bin_limits)
qed

text \<open>
  Splitting a full bin of a well-formed leaf keeps every contact. The two children
  together hold the contacts of the old bin, the tree stays well-formed, and no address is
  reported as dropped.
\<close>

theorem split_keeps_contacts:
  assumes "zone_ok l z" "can_split z" "split now l z og dropped = (z', og', dropped')"
  shows "zone_ok l z' \<and> mset (collect_all_contacts z') = mset (collect_all_contacts z) \<and> dropped' = dropped"
proof -
  obtain b where b: "bin z = Some b" "zlevel z < 127"
    using assms(2) by (auto simp: can_split_def split: if_splits option.splits)
  then have z: "z = RoutingZone None (Some b) (meta z)" using zone_ok_leaf [OF assms(1)] by blast
  show ?thesis
    using split_effect [of l b "meta z" now og dropped z' og' dropped'] assms z b(2)
    by (metis collect_all_contacts.simps(1))
qed

theorem split_keeps_contacts_witness:
  "\<exists>z' og' dropped'. zone_ok (from_u32 0) full_leaf \<and> can_split full_leaf
     \<and> split 0 (from_u32 0) full_leaf 1 [] = (z', og', dropped')
     \<and> mset (collect_all_contacts z') = mset (collect_all_contacts full_leaf)"
proof -
  obtain z' og' dropped' where s: "split 0 (from_u32 0) full_leaf 1 [] = (z', og', dropped')"
    by (rule prod_cases3)
  show ?thesis using s full_leaf_ok split_keeps_contacts [OF full_leaf_ok s] by blast
qed

end
