(* ===== verification/Flood_Protection.thy ===== *)
theory Flood_Protection
  imports Ember_Prelude "HOL-Library.AList"
begin

text \<open>
  Rate limits and request tracking of the UDP socket,
  \<^verbatim>\<open>src-tauri/src/network/kad/protection.rs\<close>. A \<^verbatim>\<open>HashMap\<close> whose size is read is an
  association list with distinct keys, a \<^verbatim>\<open>VecDeque\<close> a list with its front first. An
  \<^verbatim>\<open>Instant\<close> is a number of nanoseconds, and \<open>now\<close> is the time of the call, which reads the clock once. Counters are
  \<^verbatim>\<open>u32\<close>: \<^verbatim>\<open>+= 1\<close> wraps (\<open>inc32\<close>), \<^verbatim>\<open>saturating_add\<close> does not.
\<close>

unbundle bit_operations_syntax

section \<open>Constants and counters\<close>

datatype ip_addr = V4 u32 | V6 u128

definition OPCODE_WINDOW_SECS :: nat where "OPCODE_WINDOW_SECS = 15"
definition DEFAULT_OPCODE_LIMIT :: nat where "DEFAULT_OPCODE_LIMIT = 5"
definition TRACKER_EXPIRY_SECS :: nat where "TRACKER_EXPIRY_SECS = 180"
definition MAX_OUTGOING_PER_IP_PER_SEC :: nat where "MAX_OUTGOING_PER_IP_PER_SEC = 30"
definition SEARCH_RES_BUDGET_PER_REQUEST :: nat where "SEARCH_RES_BUDGET_PER_REQUEST = 64"
definition MAX_PACKETS_PER_SEC_UNKNOWN :: nat where "MAX_PACKETS_PER_SEC_UNKNOWN = 20"
definition MAX_PACKETS_PER_SEC_KNOWN :: nat where "MAX_PACKETS_PER_SEC_KNOWN = 40"
definition MAX_EMBER_PACKETS_PER_SEC_UNKNOWN :: nat where "MAX_EMBER_PACKETS_PER_SEC_UNKNOWN = 20"
definition MAX_EMBER_PACKETS_PER_SEC_KNOWN :: nat where "MAX_EMBER_PACKETS_PER_SEC_KNOWN = 40"
definition SEARCH_BURST_PER_REQUEST :: nat where
  "SEARCH_BURST_PER_REQUEST = SEARCH_RES_BUDGET_PER_REQUEST"
definition MAX_IP_ENTRIES :: nat where "MAX_IP_ENTRIES = 10000"
definition MAX_OPCODE_ENTRIES :: nat where "MAX_OPCODE_ENTRIES = 50000"
definition EVICTION_PROBES :: nat where "EVICTION_PROBES = 8"
definition FALLBACK_SHARDS :: nat where "FALLBACK_SHARDS = 64"
definition FALLBACK_SOURCES_PER_SHARD :: nat where "FALLBACK_SOURCES_PER_SHARD = 4"
definition MAX_COMPRESSED_PER_SEC :: nat where "MAX_COMPRESSED_PER_SEC = 10"
definition MAX_COMPRESSED_BYTES_PER_SEC :: nat where "MAX_COMPRESSED_BYTES_PER_SEC = 64 * 1024"
definition MAX_COMPRESSED_ENTRIES :: nat where "MAX_COMPRESSED_ENTRIES = 10000"
definition MAX_GLOBAL_COMPRESSED_PER_SEC :: nat where "MAX_GLOBAL_COMPRESSED_PER_SEC = 1000"
definition MAX_GLOBAL_COMPRESSED_BYTES_PER_SEC :: nat where
  "MAX_GLOBAL_COMPRESSED_BYTES_PER_SEC = 1024 * 1024"

lemmas flood_consts =
  OPCODE_WINDOW_SECS_def DEFAULT_OPCODE_LIMIT_def TRACKER_EXPIRY_SECS_def
  MAX_OUTGOING_PER_IP_PER_SEC_def SEARCH_RES_BUDGET_PER_REQUEST_def
  MAX_PACKETS_PER_SEC_UNKNOWN_def MAX_PACKETS_PER_SEC_KNOWN_def
  MAX_EMBER_PACKETS_PER_SEC_UNKNOWN_def MAX_EMBER_PACKETS_PER_SEC_KNOWN_def
  SEARCH_BURST_PER_REQUEST_def MAX_IP_ENTRIES_def MAX_OPCODE_ENTRIES_def EVICTION_PROBES_def
  FALLBACK_SHARDS_def FALLBACK_SOURCES_PER_SHARD_def MAX_COMPRESSED_PER_SEC_def
  MAX_COMPRESSED_BYTES_PER_SEC_def MAX_COMPRESSED_ENTRIES_def MAX_GLOBAL_COMPRESSED_PER_SEC_def
  MAX_GLOBAL_COMPRESSED_BYTES_PER_SEC_def

definition inc32 :: "nat \<Rightarrow> nat" where
  "inc32 n = (n + 1) mod 2 ^ 32"

definition sat_add32 :: "nat \<Rightarrow> nat \<Rightarrow> nat" where
  "sat_add32 a b = min (a + b) u32_max"

definition sat_add64 :: "nat \<Rightarrow> nat \<Rightarrow> nat" where
  "sat_add64 a b = min (a + b) (2 ^ 64 - 1)"

text \<open>\<^verbatim>\<open>now.saturating_duration_since(t).as_secs()\<close>\<close>

definition secs_since :: "int \<Rightarrow> int \<Rightarrow> nat" where
  "secs_since now t = nat (now - t) div 1000000000"

section \<open>Eviction\<close>

fun evict_loop ::
  "nat \<Rightarrow> ('v \<Rightarrow> bool) \<Rightarrow> ('k \<times> 'v) list \<Rightarrow> 'k list \<Rightarrow> bool \<times> ('k \<times> 'v) list \<times> 'k list" where
  "evict_loop 0 is_idle m order = (False, m, order)"
| "evict_loop (Suc n) is_idle m order =
     (case order of
        [] \<Rightarrow> (False, m, [])
      | key # rest \<Rightarrow>
          (case map_of m key of
             Some v \<Rightarrow>
               if is_idle v then (True, AList.delete key m, rest)
               else evict_loop n is_idle m (rest @ [key])
           | None \<Rightarrow> evict_loop n is_idle m rest))"

definition evict_idle ::
  "('k \<times> 'v) list \<Rightarrow> 'k list \<Rightarrow> ('v \<Rightarrow> bool) \<Rightarrow> bool \<times> ('k \<times> 'v) list \<times> 'k list" where
  "evict_idle m order is_idle = evict_loop EVICTION_PROBES is_idle m order"

section \<open>Fallback shards\<close>

type_synonym window = "nat \<times> int"

definition be_octets :: "nat \<Rightarrow> nat \<Rightarrow> bytes" where
  "be_octets n v = rev (le_bytes n v)"

fun ip_octets :: "ip_addr \<Rightarrow> bytes" where
  "ip_octets (V4 a) = replicate 10 0 @ [0xFF, 0xFF] @ be_octets 4 (unat a)"
| "ip_octets (V6 a) = be_octets 16 (unat a)"

definition fallback_shard :: "ip_addr \<Rightarrow> nat" where
  "fallback_shard ip =
     unat (fold (\<lambda>b acc. (acc XOR ucast b) * 0x00000100000001B3) (ip_octets ip)
             (0xcbf29ce484222325 :: u64)) mod FALLBACK_SHARDS"

definition fallback_new :: "int \<Rightarrow> window list" where
  "fallback_new now = replicate FALLBACK_SHARDS (0, now)"

definition over_budget :: "window list \<Rightarrow> ip_addr \<Rightarrow> int \<Rightarrow> nat \<Rightarrow> nat \<Rightarrow> bool \<times> window list" where
  "over_budget ws ip now window_secs limit =
     (let i = fallback_shard ip; slot = ws ! i
      in if int window_secs * 1000000000 \<le> max 0 (now - snd slot)
         then (False, ws[i := (1, now)])
         else let n = sat_inc32 (fst slot)
              in (limit < n, ws[i := (n, snd slot)]))"

section \<open>Opcodes\<close>

definition opcode_limit :: "u8 \<Rightarrow> nat" where
  "opcode_limit opcode =
     (if opcode = 0x01 then 2
      else if opcode = 0x11 then 3
      else if opcode = 0x21 then 10
      else if opcode = 0x33 then 5
      else if opcode = 0x34 then 5
      else if opcode = 0x35 then 5
      else if opcode = 0x43 then 8
      else if opcode = 0x44 then 8
      else if opcode = 0x45 then 8
      else if opcode = 0x50 then 3
      else if opcode = 0x51 then 5
      else if opcode = 0x52 then 3
      else if opcode = 0x53 then 3
      else if opcode = 0x60 then 3
      else DEFAULT_OPCODE_LIMIT)"

definition is_request_opcode :: "u8 \<Rightarrow> bool" where
  "is_request_opcode opcode \<longleftrightarrow>
     opcode \<in> {0x01, 0x11, 0x21, 0x33, 0x34, 0x35, 0x43, 0x44, 0x45, 0x50, 0x51, 0x52, 0x53, 0x60}"

definition effective_limit :: "bool \<Rightarrow> u8 \<Rightarrow> nat" where
  "effective_limit known_peer opcode =
     (if known_peer then opcode_limit opcode * 2 else opcode_limit opcode)"

section \<open>State\<close>

record flood_protection =
  ip_counters :: "(ip_addr \<times> window) list"
  ember_ip_counters :: "(ip_addr \<times> window) list"
  opcode_counters :: "((ip_addr \<times> u8) \<times> window) list"
  outgoing_requests :: "(ip_addr \<times> u8) \<rightharpoonup> nat"
  search_response_budgets :: "(ip_addr \<times> u8) \<rightharpoonup> nat"
  search_bursts :: "ip_addr \<rightharpoonup> nat \<times> nat"
  request_times :: "(ip_addr \<times> u8) \<rightharpoonup> int"
  outgoing_counters :: "(ip_addr \<times> window) list"
  recent_ips :: "ip_addr \<rightharpoonup> int"
  compressed_counters :: "(ip_addr \<times> nat \<times> nat \<times> int) list"
  global_compressed :: "nat \<times> nat \<times> int"
  ip_order :: "ip_addr list"
  ember_ip_order :: "ip_addr list"
  opcode_order :: "(ip_addr \<times> u8) list"
  outgoing_order :: "ip_addr list"
  compressed_order :: "ip_addr list"
  ip_fallback :: "window list"
  ember_ip_fallback :: "window list"
  opcode_fallback :: "window list"

definition flood_new :: "int \<Rightarrow> flood_protection" where
  "flood_new now = \<lparr>ip_counters = [], ember_ip_counters = [], opcode_counters = [],
     outgoing_requests = Map.empty, search_response_budgets = Map.empty,
     search_bursts = Map.empty, request_times = Map.empty, outgoing_counters = [],
     recent_ips = Map.empty, compressed_counters = [], global_compressed = (0, 0, now),
     ip_order = [], ember_ip_order = [], opcode_order = [], outgoing_order = [],
     compressed_order = [], ip_fallback = fallback_new now, ember_ip_fallback = fallback_new now,
     opcode_fallback = fallback_new now\<rparr>"

section \<open>Incoming limits\<close>

text \<open>
  Charging one packet to a window entry: \<^verbatim>\<open>entry(k).or_insert((0, now))\<close>, then either a new
  window or one more. The result is the new count and whether the window was renewed.
\<close>

definition charge :: "nat \<Rightarrow> int \<Rightarrow> window \<Rightarrow> bool \<times> window" where
  "charge secs now w =
     (if secs \<le> secs_since now (snd w) then (True, (1, now)) else (False, (inc32 (fst w), snd w)))"

definition entry_or :: "('k \<times> 'v) list \<Rightarrow> 'k \<Rightarrow> 'v \<Rightarrow> 'v" where
  "entry_or m k d = (case map_of m k of Some v \<Rightarrow> v | None \<Rightarrow> d)"

definition over_per_ip_budget ::
  "(ip_addr \<times> window) list \<Rightarrow> ip_addr list \<Rightarrow> window list \<Rightarrow> ip_addr \<Rightarrow> nat \<Rightarrow> bool \<Rightarrow> int \<Rightarrow>
   bool \<times> (ip_addr \<times> window) list \<times> ip_addr list \<times> window list" where
  "over_per_ip_budget counters order fallback ip max_packets related now =
     (let known_key = (map_of counters ip \<noteq> None);
          (evicted, counters', order') =
            (if \<not> known_key \<and> MAX_IP_ENTRIES \<le> length counters
             then evict_idle counters order (\<lambda>w. 1 \<le> secs_since now (snd w))
             else (True, counters, order))
      in if \<not> evicted then
           if \<not> related then (True, counters', order', fallback)
           else (case over_budget fallback ip now 1
                        (min (max_packets * FALLBACK_SOURCES_PER_SHARD) u32_max) of
                   (over, fb) \<Rightarrow> (over, counters', order', fb))
         else
           let order'' = (if known_key then order' else order' @ [ip]);
               (renewed, w) = charge 1 now (entry_or counters' ip (0, now))
           in (\<not> renewed \<and> max_packets < fst w, AList.update ip w counters', order'', fallback))"

definition has_recent_ip :: "flood_protection \<Rightarrow> ip_addr \<Rightarrow> int \<Rightarrow> bool" where
  "has_recent_ip s ip now =
     (case recent_ips s ip of
        Some t \<Rightarrow> secs_since now t < TRACKER_EXPIRY_SECS
      | None \<Rightarrow> False)"

definition has_relationship :: "flood_protection \<Rightarrow> ip_addr \<Rightarrow> bool \<Rightarrow> int \<Rightarrow> bool" where
  "has_relationship s ip known_peer now \<longleftrightarrow> known_peer \<or> has_recent_ip s ip now"

definition check_ember_rate_limit ::
  "int \<Rightarrow> ip_addr \<Rightarrow> bool \<Rightarrow> flood_protection \<Rightarrow> bool \<times> flood_protection" where
  "check_ember_rate_limit now ip known_peer s =
     (let max_packets = (if known_peer then MAX_EMBER_PACKETS_PER_SEC_KNOWN
                         else MAX_EMBER_PACKETS_PER_SEC_UNKNOWN)
      in case over_per_ip_budget (ember_ip_counters s) (ember_ip_order s) (ember_ip_fallback s) ip
                max_packets (has_relationship s ip known_peer now) now of
           (over, counters, order, fb) \<Rightarrow>
             (over, s\<lparr>ember_ip_counters := counters, ember_ip_order := order,
                ember_ip_fallback := fb\<rparr>))"

definition awaiting_search_results :: "flood_protection \<Rightarrow> ip_addr \<Rightarrow> bool" where
  "awaiting_search_results s ip \<longleftrightarrow>
     (\<exists>opcode \<in> {0x33, 0x34, 0x35}.
        case search_response_budgets s (ip, opcode) of Some b \<Rightarrow> 0 < b | None \<Rightarrow> False)"

definition answers_outstanding_request :: "flood_protection \<Rightarrow> ip_addr \<Rightarrow> u8 \<Rightarrow> bool" where
  "answers_outstanding_request s ip opcode =
     (if opcode = 0x09 then outgoing_requests s (ip, 0x01) \<noteq> None
      else if opcode = 0x29 then outgoing_requests s (ip, 0x21) \<noteq> None
      else if opcode = 0x3B then awaiting_search_results s ip
      else False)"

definition take_search_burst ::
  "ip_addr \<Rightarrow> bool \<Rightarrow> flood_protection \<Rightarrow> bool \<times> flood_protection" where
  "take_search_burst ip packed s =
     (if \<not> awaiting_search_results s ip then (False, s)
      else case search_bursts s ip of
             None \<Rightarrow> (False, s)
           | Some (plain, pack) \<Rightarrow>
               let left = (if packed then pack else plain)
               in if left = 0 then (False, s)
                  else (True, s\<lparr>search_bursts := (search_bursts s)(ip \<mapsto>
                         (if packed then (plain, pack - 1) else (plain - 1, pack)))\<rparr>))"

definition charge_compressed :: "int \<Rightarrow> nat \<Rightarrow> nat \<times> nat \<times> int \<Rightarrow> nat \<times> nat \<times> int" where
  "charge_compressed now wire_bytes e =
     (case e of (n, b, t) \<Rightarrow>
        if 1 \<le> secs_since now t then (1, wire_bytes, now)
        else (sat_inc32 n, sat_add64 b wire_bytes, t))"

text \<open>The slot of the source in the per-source table, made if there is room or an idle row.\<close>

definition compressed_slot ::
  "int \<Rightarrow> ip_addr \<Rightarrow> flood_protection \<Rightarrow> bool \<times> flood_protection" where
  "compressed_slot now ip s =
     (if map_of (compressed_counters s) ip \<noteq> None then (True, s)
      else if length (compressed_counters s) < MAX_COMPRESSED_ENTRIES
      then (True, s\<lparr>compressed_order := compressed_order s @ [ip]\<rparr>)
      else case evict_idle (compressed_counters s) (compressed_order s)
                  (\<lambda>(_, _, t). 1 \<le> secs_since now t) of
             (evicted, counters, order) \<Rightarrow>
               (evicted, s\<lparr>compressed_counters := counters,
                  compressed_order := (if evicted then order @ [ip] else order)\<rparr>))"

definition charge_global ::
  "int \<Rightarrow> nat \<Rightarrow> bool \<Rightarrow> flood_protection \<Rightarrow> bool \<times> flood_protection" where
  "charge_global now wire_bytes solicited s =
     (let g = charge_compressed now wire_bytes (global_compressed s);
          s = s\<lparr>global_compressed := g\<rparr>
      in if fst g \<le> MAX_GLOBAL_COMPRESSED_PER_SEC
            \<and> fst (snd g) \<le> MAX_GLOBAL_COMPRESSED_BYTES_PER_SEC
         then (False, s)
         else (\<not> solicited, s))"

definition over_compressed_budget ::
  "int \<Rightarrow> ip_addr \<Rightarrow> u8 \<Rightarrow> nat \<Rightarrow> flood_protection \<Rightarrow> bool \<times> flood_protection" where
  "over_compressed_budget now ip opcode wire_bytes s =
     (let solicited = answers_outstanding_request s ip opcode;
          (has_slot, s) = compressed_slot now ip s
      in if has_slot then
           let e = charge_compressed now wire_bytes (entry_or (compressed_counters s) ip (0, 0, now));
               s = s\<lparr>compressed_counters := AList.update ip e (compressed_counters s)\<rparr>;
               over_source = (MAX_COMPRESSED_PER_SEC < fst e
                                \<or> MAX_COMPRESSED_BYTES_PER_SEC < fst (snd e));
               (burst, s) = (if over_source \<and> opcode = 0x3B then take_search_burst ip True s
                             else (False, s))
           in if over_source \<and> \<not> burst then (True, s)
              else charge_global now wire_bytes solicited s
         else charge_global now wire_bytes solicited s)"

definition check_opcode_limit ::
  "int \<Rightarrow> ip_addr \<Rightarrow> bool \<Rightarrow> u8 \<Rightarrow> flood_protection \<Rightarrow> bool \<times> flood_protection" where
  "check_opcode_limit now ip known_peer opcode s =
     (if \<not> is_request_opcode opcode then (False, s)
      else
        let key = (ip, opcode);
            known_key = (map_of (opcode_counters s) key \<noteq> None);
            (evicted, counters, order) =
              (if \<not> known_key \<and> MAX_OPCODE_ENTRIES \<le> length (opcode_counters s)
               then evict_idle (opcode_counters s) (opcode_order s)
                      (\<lambda>w. OPCODE_WINDOW_SECS \<le> secs_since now (snd w))
               else (True, opcode_counters s, opcode_order s));
            s = s\<lparr>opcode_counters := counters, opcode_order := order\<rparr>
        in if \<not> evicted then
             if \<not> has_relationship s ip known_peer now then (True, s)
             else (case over_budget (opcode_fallback s) ip now OPCODE_WINDOW_SECS
                          (min (effective_limit known_peer opcode * FALLBACK_SOURCES_PER_SHARD) u32_max) of
                     (over, fb) \<Rightarrow> (over, s\<lparr>opcode_fallback := fb\<rparr>))
           else
             let s = (if known_key then s else s\<lparr>opcode_order := opcode_order s @ [key]\<rparr>);
                 (renewed, w) = charge OPCODE_WINDOW_SECS now
                                  (entry_or (opcode_counters s) key (0, now));
                 s = s\<lparr>opcode_counters := AList.update key w (opcode_counters s)\<rparr>
             in (\<not> renewed \<and> effective_limit known_peer opcode < fst w, s))"

definition recheck_opcode_limit_post_decrypt ::
  "int \<Rightarrow> ip_addr \<Rightarrow> bool \<Rightarrow> u8 \<Rightarrow> flood_protection \<Rightarrow> bool \<times> flood_protection" where
  "recheck_opcode_limit_post_decrypt now ip known_peer real_opcode s =
     check_opcode_limit now ip known_peer real_opcode s"

definition check_rate_limit_with_opcode ::
  "int \<Rightarrow> ip_addr \<Rightarrow> bool \<Rightarrow> u8 \<Rightarrow> flood_protection \<Rightarrow> bool \<times> flood_protection" where
  "check_rate_limit_with_opcode now ip known_peer opcode s =
     (case check_opcode_limit now ip known_peer opcode s of
        (True, s) \<Rightarrow> (True, s)
      | (False, s) \<Rightarrow>
          let max_packets = (if known_peer then MAX_PACKETS_PER_SEC_KNOWN
                             else MAX_PACKETS_PER_SEC_UNKNOWN);
              (over, counters, order, fb) =
                over_per_ip_budget (ip_counters s) (ip_order s) (ip_fallback s) ip max_packets
                  (has_relationship s ip known_peer now) now;
              s = s\<lparr>ip_counters := counters, ip_order := order, ip_fallback := fb\<rparr>
          in if over \<and> (opcode = 0x3B \<or> opcode = 0xFF)
             then (case take_search_burst ip False s of (burst, s) \<Rightarrow> (\<not> burst, s))
             else (over, s))"

definition is_dns_port :: "u16 \<Rightarrow> bool" where
  "is_dns_port port \<longleftrightarrow> port = 53"

section \<open>Outgoing requests\<close>

definition check_outgoing_rate ::
  "int \<Rightarrow> ip_addr \<Rightarrow> flood_protection \<Rightarrow> bool \<times> flood_protection" where
  "check_outgoing_rate now ip s =
     (let known_key = (map_of (outgoing_counters s) ip \<noteq> None);
          (evicted, counters, order) =
            (if \<not> known_key \<and> MAX_IP_ENTRIES \<le> length (outgoing_counters s)
             then evict_idle (outgoing_counters s) (outgoing_order s)
                    (\<lambda>w. 1 \<le> secs_since now (snd w))
             else (True, outgoing_counters s, outgoing_order s));
          s = s\<lparr>outgoing_counters := counters, outgoing_order := order\<rparr>
      in if \<not> evicted then (True, s)
         else
           let s = (if known_key then s else s\<lparr>outgoing_order := outgoing_order s @ [ip]\<rparr>);
               (renewed, w) = charge 1 now (entry_or (outgoing_counters s) ip (0, now));
               s = s\<lparr>outgoing_counters := AList.update ip w (outgoing_counters s)\<rparr>
           in (\<not> renewed \<and> MAX_OUTGOING_PER_IP_PER_SEC < fst w, s))"

definition track_request :: "int \<Rightarrow> ip_addr \<Rightarrow> u8 \<Rightarrow> flood_protection \<Rightarrow> flood_protection" where
  "track_request now ip opcode s =
     (let key = (ip, opcode);
          s = s\<lparr>outgoing_requests := (outgoing_requests s)(key \<mapsto>
                  sat_inc32 (count_of (outgoing_requests s) key))\<rparr>;
          s = (if 0x33 \<le> opcode \<and> opcode \<le> 0x35
               then let (a, b) = (case search_bursts s ip of Some ab \<Rightarrow> ab | None \<Rightarrow> (0, 0))
                    in s\<lparr>search_response_budgets := (search_response_budgets s)(key \<mapsto>
                           sat_add32 (count_of (search_response_budgets s) key)
                             SEARCH_RES_BUDGET_PER_REQUEST),
                         search_bursts := (search_bursts s)(ip \<mapsto>
                           (sat_add32 a SEARCH_BURST_PER_REQUEST,
                            sat_add32 b SEARCH_BURST_PER_REQUEST))\<rparr>
               else s)
      in s\<lparr>request_times := (request_times s)(key \<mapsto> now),
           recent_ips := (recent_ips s)(ip \<mapsto> now)\<rparr>)"

definition forget_request :: "ip_addr \<times> u8 \<Rightarrow> flood_protection \<Rightarrow> flood_protection" where
  "forget_request key s = s\<lparr>outgoing_requests := (outgoing_requests s)(key := None),
     search_response_budgets := (search_response_budgets s)(key := None),
     request_times := (request_times s)(key := None)\<rparr>"

definition consume_outgoing :: "ip_addr \<times> u8 \<Rightarrow> flood_protection \<Rightarrow> bool \<times> flood_protection" where
  "consume_outgoing key s =
     (case outgoing_requests s key of
        None \<Rightarrow> (False, s)
      | Some n \<Rightarrow>
          if 0 < n then
            if n - 1 = 0 then (True, forget_request key s)
            else (True, s\<lparr>outgoing_requests := (outgoing_requests s)(key \<mapsto> n - 1)\<rparr>)
          else (False, s))"

definition request_for :: "u8 \<Rightarrow> u8 option" where
  "request_for response_opcode =
     (if response_opcode = 0x09 then Some 0x01
      else if response_opcode = 0x19 then Some 0x11
      else if response_opcode = 0x22 then Some 0x19
      else if response_opcode = 0x29 then Some 0x21
      else if response_opcode = 0x3B then Some 0x33
      else if response_opcode = 0x4B then Some 0x43
      else if response_opcode = 0x4C then Some 0x4B
      else if response_opcode = 0x5A then Some 0x51
      else if response_opcode = 0x61 then Some 0x60
      else if response_opcode = 0x58 then Some 0x50
      else None)"

text \<open>The loop over the three search opcodes, and the search for the oldest publish.\<close>

fun take_search_budget :: "ip_addr \<Rightarrow> u8 list \<Rightarrow> flood_protection \<Rightarrow> bool \<times> flood_protection" where
  "take_search_budget ip [] s = (False, s)"
| "take_search_budget ip (cand # cands) s =
     (case search_response_budgets s (ip, cand) of
        Some b \<Rightarrow>
          if 0 < b then
            if b - 1 = 0 then (True, forget_request (ip, cand) s)
            else (True, s\<lparr>search_response_budgets :=
                    (search_response_budgets s)((ip, cand) \<mapsto> b - 1)\<rparr>)
          else take_search_budget ip cands s
      | None \<Rightarrow> take_search_budget ip cands s)"

fun oldest_publish :: "ip_addr \<Rightarrow> u8 list \<Rightarrow> flood_protection \<Rightarrow> (u8 \<times> int) option \<Rightarrow> (u8 \<times> int) option" where
  "oldest_publish ip [] s best = best"
| "oldest_publish ip (cand # cands) s best =
     oldest_publish ip cands s
       (case request_times s (ip, cand) of
          None \<Rightarrow> best
        | Some t \<Rightarrow>
            (case best of
               None \<Rightarrow> Some (cand, t)
             | Some (_, ot) \<Rightarrow> if t < ot then Some (cand, t) else best))"

definition validate_response ::
  "ip_addr \<Rightarrow> u8 \<Rightarrow> flood_protection \<Rightarrow> bool \<times> flood_protection" where
  "validate_response ip response_opcode s =
     (case request_for response_opcode of
        None \<Rightarrow> (False, s)
      | Some req_op \<Rightarrow>
          if response_opcode = 0x3B then take_search_budget ip [req_op, 0x34, 0x35] s
          else
            let (ok, s) =
                  (if response_opcode = 0x4B then
                     (case oldest_publish ip [req_op, 0x44, 0x45] s None of
                        Some (op, _) \<Rightarrow> consume_outgoing (ip, op) s
                      | None \<Rightarrow> (False, s))
                   else consume_outgoing (ip, req_op) s)
            in if ok then (True, s)
               else if response_opcode = 0x58 then consume_outgoing (ip, 0x53) s
               else (False, s))"

section \<open>Cleanup\<close>

definition retain_rows :: "('v \<Rightarrow> bool) \<Rightarrow> ('k \<times> 'v) list \<Rightarrow> ('k \<times> 'v) list" where
  "retain_rows p m = filter (\<lambda>(k, v). p v) m"

definition retain_order :: "('k \<times> 'v) list \<Rightarrow> 'k list \<Rightarrow> 'k list" where
  "retain_order m order = filter (\<lambda>k. map_of m k \<noteq> None) order"

definition stale_request :: "int \<Rightarrow> flood_protection \<Rightarrow> ip_addr \<times> u8 \<Rightarrow> bool" where
  "stale_request now s key =
     (case request_times s key of
        Some t \<Rightarrow> TRACKER_EXPIRY_SECS < secs_since now t
      | None \<Rightarrow> False)"

definition cleanup :: "int \<Rightarrow> flood_protection \<Rightarrow> flood_protection" where
  "cleanup now s =
     (let ips = retain_rows (\<lambda>w. secs_since now (snd w) < 60) (ip_counters s);
          embers = retain_rows (\<lambda>w. secs_since now (snd w) < 60) (ember_ip_counters s);
          ops = retain_rows (\<lambda>w. secs_since now (snd w) < OPCODE_WINDOW_SECS * 2) (opcode_counters s);
          outs = retain_rows (\<lambda>w. secs_since now (snd w) < 60) (outgoing_counters s);
          packs = retain_rows (\<lambda>(_, _, t). secs_since now t < 60) (compressed_counters s);
          stale = stale_request now s;
          budgets = (\<lambda>k. if stale k then None else search_response_budgets s k)
      in s\<lparr>ip_counters := ips, ember_ip_counters := embers, opcode_counters := ops,
           outgoing_counters := outs, compressed_counters := packs,
           outgoing_requests := (\<lambda>k. if stale k then None else outgoing_requests s k),
           search_response_budgets := budgets,
           request_times := (\<lambda>k. if stale k then None else request_times s k),
           search_bursts := (\<lambda>ip. if \<exists>op \<in> {0x33, 0x34, 0x35}. budgets (ip, op) \<noteq> None
                                  then search_bursts s ip else None),
           recent_ips := (\<lambda>ip. case recent_ips s ip of
                Some t \<Rightarrow> if secs_since now t < TRACKER_EXPIRY_SECS then Some t else None
              | None \<Rightarrow> None),
           ip_order := retain_order ips (ip_order s),
           ember_ip_order := retain_order embers (ember_ip_order s),
           opcode_order := retain_order ops (opcode_order s),
           outgoing_order := retain_order outs (outgoing_order s),
           compressed_order := retain_order packs (compressed_order s)\<rparr>)"

section \<open>Runs\<close>

text \<open>One call from the event loop, with its time. A call without a result yields \<open>False\<close>.\<close>

datatype flood_call =
    EmberRate ip_addr bool
  | Compressed ip_addr u8 nat
  | Recheck ip_addr bool u8
  | RateLimit ip_addr bool u8
  | OutgoingRate ip_addr
  | Track ip_addr u8
  | Validate ip_addr u8
  | Cleanup

fun flood_step :: "int \<Rightarrow> flood_call \<Rightarrow> flood_protection \<Rightarrow> bool \<times> flood_protection" where
  "flood_step now (EmberRate ip known) s = check_ember_rate_limit now ip known s"
| "flood_step now (Compressed ip op n) s = over_compressed_budget now ip op n s"
| "flood_step now (Recheck ip known op) s = recheck_opcode_limit_post_decrypt now ip known op s"
| "flood_step now (RateLimit ip known op) s = check_rate_limit_with_opcode now ip known op s"
| "flood_step now (OutgoingRate ip) s = check_outgoing_rate now ip s"
| "flood_step now (Track ip op) s = (False, track_request now ip op s)"
| "flood_step now (Validate ip op) s = validate_response ip op s"
| "flood_step now Cleanup s = (False, cleanup now s)"

fun flood_run :: "(int \<times> flood_call) list \<Rightarrow> flood_protection \<Rightarrow> bool list \<times> flood_protection" where
  "flood_run [] s = ([], s)"
| "flood_run ((now, c) # cs) s =
     (let (r, s) = flood_step now c s; (rs, s) = flood_run cs s in (r # rs, s))"

end
