(* ===== verification/Kad_Obfuscation.thy ===== *)
theory Kad_Obfuscation
  imports Kad_Contact
begin

text \<open>
  Datagram obfuscation, \<^verbatim>\<open>src-tauri/src/network/kad/obfuscation.rs\<close>: the RC4 cipher, the KAD
  packet format with its verify keys, and the client-to-client format. The digest function
  of the \<^verbatim>\<open>md5\<close> crate is the argument \<open>md5\<close>; the results hold for every function.
\<close>

unbundle bit_operations_syntax

section \<open>Constants\<close>

definition MAGICVALUE_UDP_SYNC_CLIENT :: u32 where "MAGICVALUE_UDP_SYNC_CLIENT = 0x395F2EC1"
definition MAGICVALUE_UDP :: u8 where "MAGICVALUE_UDP = 91"

definition VALID_INNER_HEADERS :: bytes where
  "VALID_INNER_HEADERS = [0xE3, 0xC5, 0xE5, 0xE4, 0xA3, 0xB2, 0xD4]"

definition EMULE_PLAINTEXT_UDP_HEADERS :: bytes where
  "EMULE_PLAINTEXT_UDP_HEADERS = [0xC5, 0xE5, 0xE4, 0xA3, 0xB2, 0xD4]"

section \<open>RC4\<close>

record rc4_state =
  rc4_s :: bytes
  rc4_i :: u8
  rc4_j :: u8

definition list_swap :: "'a list \<Rightarrow> nat \<Rightarrow> nat \<Rightarrow> 'a list" where
  "list_swap xs a b = xs[a := xs ! b, b := xs ! a]"

text \<open>The key schedule: one pass of the loop, and all 256 of them.\<close>

definition schedule_step :: "bytes \<Rightarrow> nat \<Rightarrow> u8 \<times> bytes \<Rightarrow> u8 \<times> bytes" where
  "schedule_step k i js =
     (let j = fst js + snd js ! i + k ! (i mod length k)
      in (j, list_swap (snd js) i (unat j)))"

definition rc4_new :: "bytes \<Rightarrow> rc4_state" where
  "rc4_new k =
     (let s = map word_of_nat [0..<256]
      in if k = [] then \<lparr>rc4_s = s, rc4_i = 0, rc4_j = 0\<rparr>
         else \<lparr>rc4_s = snd (fold (schedule_step k) [0..<256] (0, s)), rc4_i = 0, rc4_j = 0\<rparr>)"

definition rc4_step :: "rc4_state \<Rightarrow> rc4_state" where
  "rc4_step st =
     (let i = rc4_i st + 1;
          j = rc4_j st + rc4_s st ! unat i
      in \<lparr>rc4_s = list_swap (rc4_s st) (unat i) (unat j), rc4_i = i, rc4_j = j\<rparr>)"

definition rc4_byte :: "rc4_state \<Rightarrow> u8" where
  "rc4_byte st =
     (let idx = rc4_s st ! unat (rc4_i st) + rc4_s st ! unat (rc4_j st)
      in rc4_s st ! unat idx)"

fun rc4_process :: "bytes \<Rightarrow> rc4_state \<Rightarrow> bytes \<times> rc4_state" where
  "rc4_process [] st = ([], st)"
| "rc4_process (x # xs) st =
     (let st = rc4_step st; (ys, st') = rc4_process xs st
      in ((x XOR rc4_byte st) # ys, st'))"

primrec rc4_skip :: "nat \<Rightarrow> rc4_state \<Rightarrow> rc4_state" where
  "rc4_skip 0 st = st"
| "rc4_skip (Suc n) st = rc4_skip n (rc4_step st)"

section \<open>Decryption\<close>

record decrypted_kad_packet =
  payload :: bytes
  sender_verify_key :: "u32 option"
  valid_receiver_key :: bool

text \<open>\<^verbatim>\<open>data[a..b]\<close> and \<^verbatim>\<open>u32::from_le_bytes\<close>\<close>

definition slice :: "bytes \<Rightarrow> nat \<Rightarrow> nat \<Rightarrow> bytes" where
  "slice xs a b = take (b - a) (drop a xs)"

definition u32_le :: "bytes \<Rightarrow> u32" where
  "u32_le bs = word_of_nat (le_val bs)"

definition try_decrypt_with_key :: "bytes \<Rightarrow> bytes \<Rightarrow> u32 \<Rightarrow> decrypted_kad_packet option" where
  "try_decrypt_with_key data rc4_key expected_receiver_key =
     (let (magic, rc4) = rc4_process (slice data 3 7) (rc4_new rc4_key)
      in if u32_le magic \<noteq> MAGICVALUE_UDP_SYNC_CLIENT then None
      else
        let (pad, rc4) = rc4_process (slice data 7 8) rc4;
            pad_len = unat (pad ! 0 AND 0x0F)
        in if 0 < pad_len \<and> length data < 8 + pad_len then None
        else
          let rc4 = rc4_skip pad_len rc4;
              offset = 8 + pad_len
          in if length data < offset + 8 then None
          else
            let (receiver_key, rc4) = rc4_process (slice data offset (offset + 4)) rc4;
                (sender_key, rc4) = rc4_process (slice data (offset + 4) (offset + 8)) rc4;
                offset = offset + 8
            in if length data - offset = 0 then None
            else
              let (decrypted, rc4) = rc4_process (drop offset data) rc4
              in if decrypted ! 0 \<notin> set VALID_INNER_HEADERS then None
              else Some \<lparr>payload = decrypted,
                     sender_verify_key = (if u32_le sender_key \<noteq> 0 then Some (u32_le sender_key) else None),
                     valid_receiver_key = (expected_receiver_key \<noteq> 0
                       \<and> u32_le receiver_key = expected_receiver_key)\<rparr>)"

text \<open>The three keys; \<open>md5\<close> is the digest function of the \<^verbatim>\<open>md5\<close> crate.\<close>

definition node_id_key :: "(bytes \<Rightarrow> bytes) \<Rightarrow> kad_id \<Rightarrow> u16 \<Rightarrow> bytes" where
  "node_id_key md5 i random_key_part = md5 (kad_bytes i @ le16 random_key_part)"

definition user_hash_key :: "(bytes \<Rightarrow> bytes) \<Rightarrow> bytes \<Rightarrow> bytes \<Rightarrow> u16 \<Rightarrow> bytes" where
  "user_hash_key md5 user_hash ip random_key_part =
     md5 (user_hash @ ip @ [MAGICVALUE_UDP] @ le16 random_key_part)"

definition verify_key_key :: "(bytes \<Rightarrow> bytes) \<Rightarrow> u32 \<Rightarrow> u16 \<Rightarrow> bytes" where
  "verify_key_key md5 k random_key_part = md5 (le32 k @ le16 random_key_part)"

definition or_else :: "'a option \<Rightarrow> 'a option \<Rightarrow> 'a option" where
  "or_else a b = (case a of Some x \<Rightarrow> Some x | None \<Rightarrow> b)"

definition try_decrypt_kad_packet ::
  "(bytes \<Rightarrow> bytes) \<Rightarrow> bytes \<Rightarrow> kad_id \<Rightarrow> bytes \<Rightarrow> u32 \<Rightarrow> u32 \<Rightarrow> decrypted_kad_packet option" where
  "try_decrypt_kad_packet md5 data local_kad_id user_hash receiver_verify_key sender_ip =
     (if length data < 16 then None
      else
        let random_key_part = word_of_nat (le_val [data ! 1, data ! 2]) :: u16;
            marker = data ! 0 AND 0x03;
            try_with = (\<lambda>k. try_decrypt_with_key data k receiver_verify_key);
            by_user = try_with (user_hash_key md5 user_hash (le32 sender_ip) random_key_part);
            by_verify = (if receiver_verify_key \<noteq> 0
                         then try_with (verify_key_key md5 receiver_verify_key random_key_part)
                         else None);
            by_node = try_with (node_id_key md5 local_kad_id random_key_part)
        in or_else (if marker = 1 then by_user
                    else if marker = 2 \<and> receiver_verify_key \<noteq> 0 then by_verify
                    else None)
             (or_else by_node (or_else by_user by_verify)))"

definition try_decrypt_client_ed2k_packet ::
  "(bytes \<Rightarrow> bytes) \<Rightarrow> bytes \<Rightarrow> bytes \<Rightarrow> bytes \<Rightarrow> bytes option" where
  "try_decrypt_client_ed2k_packet md5 data our_user_hash sender_ip =
     (if length data < 10 \<or> data ! 0 AND 0x01 = 0 \<or> data ! 0 \<in> set EMULE_PLAINTEXT_UDP_HEADERS
      then None
      else
        let rc4 = rc4_new (md5 (our_user_hash @ sender_ip @ [MAGICVALUE_UDP] @ slice data 1 3));
            (magic, rc4) = rc4_process (slice data 3 7) rc4
        in if u32_le magic \<noteq> MAGICVALUE_UDP_SYNC_CLIENT then None
        else
          let (pad, rc4) = rc4_process (slice data 7 8) rc4;
              pad_len = unat (pad ! 0 AND 0x0F);
              body_start = 8 + pad_len
          in if length data < body_start + 2 then None
          else
            let (plain, rc4) = rc4_process (drop body_start data) (rc4_skip pad_len rc4)
            in if plain ! 0 \<in> set VALID_INNER_HEADERS then Some plain else None)"

section \<open>Encryption\<close>

text \<open>
  The draws of the random generator are arguments: \<open>r_key\<close> and \<open>r_pad\<close> for the first two
  words, \<open>fill\<close> for the padding bytes, \<open>draws\<close> for the attempts at the first byte.
\<close>

definition semi_random :: "(u32 \<Rightarrow> u8) \<Rightarrow> (u8 \<Rightarrow> bool) \<Rightarrow> u8 \<Rightarrow> (nat \<Rightarrow> u32) \<Rightarrow> u8" where
  "semi_random shape ok fallback draws =
     (case find ok (map (\<lambda>n. shape (draws n)) [0..<256]) of Some b \<Rightarrow> b | None \<Rightarrow> fallback)"

definition encrypt_kad_packet ::
  "(bytes \<Rightarrow> bytes) \<Rightarrow> u32 \<Rightarrow> u32 \<Rightarrow> (nat \<Rightarrow> u8) \<Rightarrow> (nat \<Rightarrow> u32) \<Rightarrow>
   bytes \<Rightarrow> kad_id \<Rightarrow> u32 \<Rightarrow> u32 \<Rightarrow> bytes" where
  "encrypt_kad_packet md5 r_key r_pad fill draws packet target_kad_id sender_key receiver_key =
     (let random_key_part = ucast (r_key AND 0xFFFF) :: u16;
          pad_len = unat (ucast (r_pad AND 0x0F) :: u8);
          use_verify_key = (target_kad_id = zero \<and> receiver_key \<noteq> 0);
          (md5_hash, marker_bits) =
            (if use_verify_key then (verify_key_key md5 receiver_key random_key_part, 0x02)
             else (node_id_key md5 target_kad_id random_key_part, 0x00));
          plaintext = le32 MAGICVALUE_UDP_SYNC_CLIENT @ [word_of_nat pad_len]
            @ map fill [0..<pad_len] @ le32 receiver_key @ le32 sender_key @ packet;
          encrypted = fst (rc4_process plaintext (rc4_new md5_hash));
          first = semi_random (\<lambda>r. (ucast (r AND 0xFF) AND 0xFC) OR marker_bits)
            (\<lambda>b. b \<notin> set VALID_INNER_HEADERS \<and> b \<noteq> 0) (0x4C OR marker_bits) draws
      in [first] @ le16 random_key_part @ encrypted)"

definition encrypt_client_ed2k_packet ::
  "(bytes \<Rightarrow> bytes) \<Rightarrow> u32 \<Rightarrow> (nat \<Rightarrow> u32) \<Rightarrow> bytes \<Rightarrow> bytes \<Rightarrow> bytes \<Rightarrow> bytes" where
  "encrypt_client_ed2k_packet md5 r_key draws packet target_user_hash our_public_ip =
     (let random_key_part = ucast (r_key AND 0xFFFF) :: u16;
          md5_hash = user_hash_key md5 target_user_hash our_public_ip random_key_part;
          plaintext = le32 MAGICVALUE_UDP_SYNC_CLIENT @ [0] @ packet;
          encrypted = fst (rc4_process plaintext (rc4_new md5_hash));
          first = semi_random (\<lambda>r. ucast (r AND 0xFF) OR 0x01)
            (\<lambda>b. b \<notin> set VALID_INNER_HEADERS) 0x4D draws
      in [first] @ le16 random_key_part @ encrypted)"

section \<open>The cipher\<close>

lemma rc4_skip_add: "rc4_skip (m + n) st = rc4_skip n (rc4_skip m st)"
  by (induction m arbitrary: st) simp_all

lemma rc4_process_state [simp]: "snd (rc4_process xs st) = rc4_skip (length xs) st"
  by (induction xs arbitrary: st) (simp_all add: Let_def split_beta)

lemma length_rc4_process [simp]: "length (fst (rc4_process xs st)) = length xs"
  by (induction xs arbitrary: st) (simp_all add: Let_def split_beta)

lemma fst_rc4_process_Cons [simp]:
  "fst (rc4_process (x # xs) st) = (x XOR rc4_byte (rc4_step st)) # fst (rc4_process xs (rc4_step st))"
  by (simp add: Let_def split: prod.splits)

declare rc4_process.simps(2) [simp del]

lemma rc4_process_append:
  "fst (rc4_process (xs @ ys) st) = fst (rc4_process xs st) @ fst (rc4_process ys (rc4_skip (length xs) st))"
  by (induction xs arbitrary: st) simp_all

lemma rc4_process_twice [simp]: "fst (rc4_process (fst (rc4_process xs st)) st) = xs"
  by (induction xs arbitrary: st) (simp_all add: xor.assoc)

lemma rc4_decrypt: "rc4_process (fst (rc4_process xs st)) st = (xs, rc4_skip (length xs) st)"
  by (rule prod_eqI) simp_all

text \<open>The state stays a permutation of all 256 byte values.\<close>

definition rc4_ok :: "rc4_state \<Rightarrow> bool" where
  "rc4_ok st \<longleftrightarrow> mset (rc4_s st) = mset (map word_of_nat [0..<256])"

lemma mset_list_swap: "a < length xs \<Longrightarrow> b < length xs \<Longrightarrow> mset (list_swap xs a b) = mset xs"
  unfolding list_swap_def by (rule mset_swap)

lemma rc4_ok_length: "mset s = mset (map word_of_nat [0..<256]) \<Longrightarrow> length s = 256"
  by (drule mset_eq_length) simp

lemma unat_byte: "unat (b :: u8) < 256"
  using unsigned_less [of b] by simp

lemma rc4_step_ok: "rc4_ok st \<Longrightarrow> rc4_ok (rc4_step st)"
  unfolding rc4_ok_def rc4_step_def Let_def
  using rc4_ok_length [of "rc4_s st"] by (simp add: mset_list_swap unat_byte)

lemma schedule_ok:
  "set is \<subseteq> {0..<256} \<Longrightarrow> mset (snd js) = mset (map word_of_nat [0..<256]) \<Longrightarrow>
   mset (snd (fold (schedule_step k) is js)) = mset (map word_of_nat [0..<256])"
proof (induction "is" arbitrary: js)
  case (Cons i "is")
  have "length (snd js) = 256" using Cons.prems(2) by (rule rc4_ok_length)
  then have "mset (snd (schedule_step k i js)) = mset (map word_of_nat [0..<256])"
    using Cons.prems by (simp add: schedule_step_def Let_def mset_list_swap unat_byte)
  then show ?case using Cons by simp
qed simp

lemma rc4_new_ok: "rc4_ok (rc4_new k)"
  unfolding rc4_ok_def rc4_new_def Let_def using schedule_ok [of "[0..<256]" "(0, map word_of_nat [0..<256])" k]
  by simp

section \<open>Round trips\<close>

lemma u32_le_le32 [simp]: "u32_le (le32 w) = w"
  by (simp add: u32_le_def le_round_trip)

lemma length_le_keys [simp]: "length (le32 w) = 4" "length (le16 v) = 2"
  by (simp_all add: length_le_simps)

lemma unat_low_nibble: "p < 16 \<Longrightarrow> unat ((word_of_nat p :: u8) AND 0x0F) = p"
proof -
  assume p: "p < 16"
  have "(word_of_nat p :: u8) AND 0x0F = take_bit 4 (word_of_nat p)"
    by (simp add: take_bit_eq_mask mask_eq_exp_minus_1)
  also have "unat \<dots> = take_bit 4 (unat (word_of_nat p :: u8))" by (rule unsigned_take_bit_eq)
  also have "\<dots> = p" using p by (simp add: unat_of_nat take_bit_eq_mod)
  finally show ?thesis .
qed

lemma unat_pad_draw: "unat (ucast (r AND 0x0F) :: u8) < 16" for r :: u32
proof -
  have "r AND 0x0F = take_bit 4 r" by (simp add: take_bit_eq_mask mask_eq_exp_minus_1)
  then have "unat (r AND 0x0F) = take_bit 4 (unat r)" by (simp add: unsigned_take_bit_eq)
  then have "unat (r AND 0x0F) < 16" using take_bit_nat_less_exp [of 4 "unat r"] by simp
  then show ?thesis using le_less_trans [OF unat_ucast_le] by blast
qed

lemma try_decrypt_written:
  assumes "length pad = p" "p < 16" "pkt \<noteq> []" "pkt ! 0 \<in> set VALID_INNER_HEADERS" "length hd3 = 3"
  shows "try_decrypt_with_key (hd3 @ fst (rc4_process (le32 MAGICVALUE_UDP_SYNC_CLIENT @ [word_of_nat p]
      @ pad @ le32 receiver_key @ le32 sender_key @ pkt) (rc4_new k))) k vk =
    Some \<lparr>payload = pkt, sender_verify_key = (if sender_key \<noteq> 0 then Some sender_key else None),
      valid_receiver_key = (vk \<noteq> 0 \<and> receiver_key = vk)\<rparr>"
proof -
  define s0 where "s0 = rc4_new k"
  define e where "e = (\<lambda>xs n. fst (rc4_process xs (rc4_skip n s0)))"
  define data where "data = hd3 @ e (le32 MAGICVALUE_UDP_SYNC_CLIENT) 0 @ e [word_of_nat p] 4 @ e pad 5
    @ e (le32 receiver_key) (5 + p) @ e (le32 sender_key) (9 + p) @ e pkt (13 + p)"
  have len: "length (e xs n) = length xs" for xs n by (simp add: e_def)
  have dec: "rc4_process (e xs n) (rc4_skip n s0) = (xs, rc4_skip (n + length xs) s0)" for xs n
    by (simp add: e_def rc4_decrypt rc4_skip_add)
  have data: "hd3 @ fst (rc4_process (le32 MAGICVALUE_UDP_SYNC_CLIENT @ [word_of_nat p]
      @ pad @ le32 receiver_key @ le32 sender_key @ pkt) (rc4_new k)) = data"
    unfolding data_def e_def s0_def [symmetric] rc4_process_append rc4_skip_add [symmetric]
    using assms(1) by (simp add: ac_simps)
  have byte: "unat ((word_of_nat p :: u8) AND 0x0F) = p"
    using assms(2) by (rule unat_low_nibble)
  have parts: "slice data 3 7 = e (le32 MAGICVALUE_UDP_SYNC_CLIENT) 0" "slice data 7 8 = e [word_of_nat p] 4"
    "slice data (8 + p) (8 + p + 4) = e (le32 receiver_key) (5 + p)"
    "slice data (8 + p + 4) (8 + p + 8) = e (le32 sender_key) (9 + p)"
    "drop (8 + p + 8) data = e pkt (13 + p)"
    using assms(1,5) by (simp_all add: data_def slice_def len)
  have n: "length data = 16 + p + length pkt" using assms(1,5) by (simp add: data_def len)
  have pos: "0 < length pkt" using assms(3) by simp
  have d0: "rc4_process (slice data 3 7) (rc4_new k) = (le32 MAGICVALUE_UDP_SYNC_CLIENT, rc4_skip 4 s0)"
    using dec [of "le32 MAGICVALUE_UDP_SYNC_CLIENT" 0] by (simp add: parts s0_def)
  have d1: "rc4_process (slice data 7 8) (rc4_skip 4 s0) = ([word_of_nat p], rc4_skip 5 s0)"
    using dec [of "[word_of_nat p]" 4] by (simp only: parts) simp
  have d2: "rc4_process (slice data (8 + p) (8 + p + 4)) (rc4_skip (5 + p) s0) = (le32 receiver_key, rc4_skip (9 + p) s0)"
    using dec [of "le32 receiver_key" "5 + p"] unfolding parts by (simp add: ac_simps)
  have d3: "rc4_process (slice data (8 + p + 4) (8 + p + 8)) (rc4_skip (9 + p) s0) = (le32 sender_key, rc4_skip (13 + p) s0)"
    using dec [of "le32 sender_key" "9 + p"] unfolding parts by (simp add: ac_simps)
  have d4: "fst (rc4_process (drop (8 + p + 8) data) (rc4_skip (13 + p) s0)) = pkt"
    using dec [of pkt "13 + p"] unfolding parts by simp
  have sk: "rc4_skip p (rc4_skip 5 s0) = rc4_skip (5 + p) s0" by (simp add: rc4_skip_add)
  show ?thesis
    unfolding data try_decrypt_with_key_def d0 Let_def prod.case u32_le_le32 d1 nth_Cons_0 byte sk d2 d3
    using n pos assms(4) d4 by (simp add: split_beta)
qed

lemma semi_random_cases:
  "ok fallback \<Longrightarrow> \<exists>r. semi_random shape ok fallback draws = shape r \<and> ok (shape r) \<or>
     semi_random shape ok fallback draws = fallback"
  unfolding semi_random_def by (auto split: option.splits dest!: find_Some_iff [THEN iffD1])

lemma kad_first_byte:
  assumes "m = 0 \<or> m = 2"
    and "f = semi_random (\<lambda>r. (ucast (r AND 0xFF) AND 0xFC) OR m)
      (\<lambda>b. b \<notin> set VALID_INNER_HEADERS \<and> b \<noteq> 0) (0x4C OR m) draws"
  shows "f AND 0x03 = m" "f \<notin> set VALID_INNER_HEADERS"
proof -
  have low: "((x AND 0xFC) OR m) AND 0x03 = m" for x :: u8
    using assms(1) by (auto simp: bit.conj_disj_distrib2 and.assoc)
  have fb: "(0x4C OR m) AND 0x03 = m" "0x4C OR m \<notin> set VALID_INNER_HEADERS" "0x4C OR m \<noteq> 0"
    using assms(1) by (auto simp: VALID_INNER_HEADERS_def)
  show "f AND 0x03 = m" "f \<notin> set VALID_INNER_HEADERS"
    using semi_random_cases [of "\<lambda>b. b \<notin> set VALID_INNER_HEADERS \<and> b \<noteq> 0" "0x4C OR m"
        "\<lambda>r. (ucast (r AND 0xFF) AND 0xFC) OR m" draws] fb low assms(2) by auto
qed

lemma ed2k_first_byte:
  assumes "f = semi_random (\<lambda>r. ucast (r AND 0xFF) OR 0x01) (\<lambda>b. b \<notin> set VALID_INNER_HEADERS) 0x4D draws"
  shows "f AND 0x01 = 1" "f \<notin> set VALID_INNER_HEADERS"
proof -
  have low: "(x OR 0x01) AND 0x01 = 1" for x :: u8
    by (simp add: bit.conj_disj_distrib2 and.assoc)
  show "f AND 0x01 = 1" "f \<notin> set VALID_INNER_HEADERS"
    using semi_random_cases [of "\<lambda>b. b \<notin> set VALID_INNER_HEADERS" "0x4D"
        "\<lambda>r. ucast (r AND 0xFF) OR 0x01" draws] low assms
    by (auto simp: VALID_INNER_HEADERS_def)
qed

lemma encrypt_kad_shape:
  fixes r_key r_pad receiver_key :: u32 and target :: kad_id and md5 :: "bytes \<Rightarrow> bytes"
  defines "rk \<equiv> ucast (r_key AND 0xFFFF) :: u16" and "p \<equiv> unat (ucast (r_pad AND 0x0F) :: u8)"
  defines "by_verify \<equiv> target = zero \<and> receiver_key \<noteq> 0"
  defines "k \<equiv> if by_verify then verify_key_key md5 receiver_key rk else node_id_key md5 target rk"
  obtains f where "encrypt_kad_packet md5 r_key r_pad fill draws pkt target sender_key receiver_key =
      ([f] @ le16 rk) @ fst (rc4_process (le32 MAGICVALUE_UDP_SYNC_CLIENT @ [word_of_nat p]
        @ map fill [0..<p] @ le32 receiver_key @ le32 sender_key @ pkt) (rc4_new k))"
    "f AND 0x03 = (if by_verify then 2 else 0)" "f \<notin> set VALID_INNER_HEADERS"
proof -
  let ?m = "if by_verify then 0x02 else 0 :: u8"
  define f where "f = semi_random (\<lambda>r. (ucast (r AND 0xFF) AND 0xFC) OR ?m)
      (\<lambda>b. b \<notin> set VALID_INNER_HEADERS \<and> b \<noteq> 0) (0x4C OR ?m) draws"
  have "?m = 0 \<or> ?m = 2" by simp
  note f = kad_first_byte [OF this f_def]
  show thesis
  proof (rule that [of f])
    show "encrypt_kad_packet md5 r_key r_pad fill draws pkt target sender_key receiver_key =
      ([f] @ le16 rk) @ fst (rc4_process (le32 MAGICVALUE_UDP_SYNC_CLIENT @ [word_of_nat p]
        @ map fill [0..<p] @ le32 receiver_key @ le32 sender_key @ pkt) (rc4_new k))"
      unfolding encrypt_kad_packet_def Let_def f_def rk_def p_def k_def by_verify_def by simp
  qed (use f in auto)
qed

lemma le16_two: obtains a b where "le16 v = [a, b]"
proof -
  have "length (le16 v) = 2" by simp
  then show thesis using that by (cases "le16 v"; cases "tl (le16 v)") auto
qed

lemma decrypt_encrypted:
  fixes sender_key receiver_key :: u32
  assumes "pkt \<noteq> []" "pkt ! 0 \<in> set VALID_INNER_HEADERS"
    and "if target = zero \<and> receiver_key \<noteq> 0 then vk = receiver_key else local_id = target"
    and "data = encrypt_kad_packet md5 r_key r_pad fill draws pkt target sender_key receiver_key"
  shows "try_decrypt_kad_packet md5 data local_id user_hash vk sender_ip =
      Some \<lparr>payload = pkt, sender_verify_key = (if sender_key \<noteq> 0 then Some sender_key else None),
        valid_receiver_key = (vk \<noteq> 0 \<and> receiver_key = vk)\<rparr>"
    and "data \<noteq> []" "hd data \<notin> set VALID_INNER_HEADERS" "hd data AND 0x01 = 0"
proof -
  define rk where "rk = (ucast (r_key AND 0xFFFF) :: u16)"
  define p where "p = unat (ucast (r_pad AND 0x0F) :: u8)"
  define by_verify where "by_verify \<longleftrightarrow> target = zero \<and> receiver_key \<noteq> 0"
  define k where "k = (if by_verify then verify_key_key md5 receiver_key rk else node_id_key md5 target rk)"
  obtain f where d: "data = ([f] @ le16 rk) @ fst (rc4_process (le32 MAGICVALUE_UDP_SYNC_CLIENT
        @ [word_of_nat p] @ map fill [0..<p] @ le32 receiver_key @ le32 sender_key @ pkt) (rc4_new k))"
    and f: "f AND 0x03 = (if by_verify then 2 else 0)" "f \<notin> set VALID_INNER_HEADERS"
    unfolding assms(4) rk_def p_def by_verify_def k_def by (rule encrypt_kad_shape)
  have "p < 16"
    unfolding p_def by (rule unat_pad_draw)
  then have w: "try_decrypt_with_key data k vk =
      Some \<lparr>payload = pkt, sender_verify_key = (if sender_key \<noteq> 0 then Some sender_key else None),
        valid_receiver_key = (vk \<noteq> 0 \<and> receiver_key = vk)\<rparr>"
    unfolding d by (intro try_decrypt_written [OF _ _ assms(1,2)]) simp_all
  obtain a b where ab: "le16 rk = [a, b]" by (rule le16_two)
  have rk: "data ! 0 = f" "word_of_nat (le_val [data ! 1, data ! 2]) = rk" "\<not> length data < 16"
    using le_round_trip(1) [of rk] by (simp_all add: d ab)
  have key: "k = (if by_verify then verify_key_key md5 vk rk else node_id_key md5 local_id rk)"
    "by_verify \<Longrightarrow> vk \<noteq> 0"
    using assms(3) unfolding k_def by_verify_def by auto
  show "try_decrypt_kad_packet md5 data local_id user_hash vk sender_ip =
      Some \<lparr>payload = pkt, sender_verify_key = (if sender_key \<noteq> 0 then Some sender_key else None),
        valid_receiver_key = (vk \<noteq> 0 \<and> receiver_key = vk)\<rparr>"
    using w key f(1) rk(3) unfolding try_decrypt_kad_packet_def Let_def rk(1,2)
    by (cases by_verify) (simp_all add: or_else_def)
  show "data \<noteq> []" "hd data \<notin> set VALID_INNER_HEADERS" using d f by simp_all
  have "f AND 0x01 = (f AND 0x03) AND 0x01" by (simp add: and.assoc)
  also have "\<dots> = 0" unfolding f(1) by simp
  finally show "hd data AND 0x01 = 0" using d by simp
qed

lemma decrypt_client_written:
  assumes "2 \<le> length pkt" "pkt ! 0 \<in> set VALID_INNER_HEADERS"
  shows "try_decrypt_client_ed2k_packet md5
      (encrypt_client_ed2k_packet md5 r_key draws pkt user_hash ip) user_hash ip = Some pkt"
proof -
  define rk where "rk = (ucast (r_key AND 0xFFFF) :: u16)"
  define s0 where "s0 = rc4_new (user_hash_key md5 user_hash ip rk)"
  define f where "f = semi_random (\<lambda>r. ucast (r AND 0xFF) OR 0x01) (\<lambda>b. b \<notin> set VALID_INNER_HEADERS) 0x4D draws"
  define e where "e = (\<lambda>xs n. fst (rc4_process xs (rc4_skip n s0)))"
  define data where "data = [f] @ le16 rk @ e (le32 MAGICVALUE_UDP_SYNC_CLIENT) 0 @ e [0] 4 @ e pkt 5"
  have len: "length (e xs n) = length xs" for xs n by (simp add: e_def)
  have dec: "rc4_process (e xs n) (rc4_skip n s0) = (xs, rc4_skip (n + length xs) s0)" for xs n
    by (simp add: e_def rc4_decrypt rc4_skip_add)
  have data: "encrypt_client_ed2k_packet md5 r_key draws pkt user_hash ip = data"
    unfolding encrypt_client_ed2k_packet_def Let_def data_def e_def s0_def rk_def f_def
      rc4_process_append rc4_skip_add [symmetric] by simp
  have parts: "slice data 1 3 = le16 rk" "slice data 3 7 = e (le32 MAGICVALUE_UDP_SYNC_CLIENT) 0"
    "slice data 7 8 = e [0] 4" "drop 8 data = e pkt 5" "data ! 0 = f" "length data = 8 + length pkt"
    by (simp_all add: data_def slice_def len)
  have key: "rc4_new (md5 (user_hash @ ip @ [MAGICVALUE_UDP] @ slice data 1 3)) = s0"
    unfolding s0_def user_hash_key_def parts by simp
  have d0: "rc4_process (slice data 3 7) s0 = (le32 MAGICVALUE_UDP_SYNC_CLIENT, rc4_skip 4 s0)"
    using dec [of "le32 MAGICVALUE_UDP_SYNC_CLIENT" 0] by (simp add: parts)
  have d1: "rc4_process (slice data 7 8) (rc4_skip 4 s0) = ([0], rc4_skip 5 s0)"
    using dec [of "[0]" 4] by (simp only: parts) simp
  have d2: "fst (rc4_process (drop 8 data) (rc4_skip 5 s0)) = pkt"
    using dec [of pkt 5] by (simp add: parts)
  note f = ed2k_first_byte [OF f_def]
  have "f \<notin> set EMULE_PLAINTEXT_UDP_HEADERS"
    using f(2) by (auto simp: VALID_INNER_HEADERS_def EMULE_PLAINTEXT_UDP_HEADERS_def)
  then show ?thesis
    unfolding data try_decrypt_client_ed2k_packet_def Let_def key d0 prod.case u32_le_le32 d1 parts(5,6)
    using f(1) assms d2 by (simp add: split_beta)
qed

section \<open>Properties\<close>

text \<open>
  C17: obfuscated packets survive the round trip. A KAD packet encrypted for a node, under its
  identifier or under the verify key it handed out, is decrypted by that node on the first
  key its marker names: the payload, the sender's key and the verdict on the receiver key
  come out as the sender put them in, whatever the random draws and the digest function. Its
  first byte is even and no protocol header, so that it is taken neither for a plain packet
  nor for one of the client-to-client format.
\<close>

theorem obfuscation_round_trip:
  fixes sender_key receiver_key :: u32
  assumes "pkt \<noteq> []" "pkt ! 0 \<in> set VALID_INNER_HEADERS"
    and "if target = zero \<and> receiver_key \<noteq> 0 then vk = receiver_key else local_id = target"
  shows "let data = encrypt_kad_packet md5 r_key r_pad fill draws pkt target sender_key receiver_key in
      try_decrypt_kad_packet md5 data local_id user_hash vk sender_ip =
        Some \<lparr>payload = pkt, sender_verify_key = (if sender_key \<noteq> 0 then Some sender_key else None),
          valid_receiver_key = (vk \<noteq> 0 \<and> receiver_key = vk)\<rparr>
      \<and> hd data \<notin> set VALID_INNER_HEADERS \<and> hd data AND 0x01 = 0"
  using decrypt_encrypted [OF assms refl] by (simp add: Let_def)

theorem obfuscation_round_trip_witness:
  "try_decrypt_kad_packet (\<lambda>b. b @ [3]) (encrypt_kad_packet (\<lambda>b. b @ [3]) 0x12345 7 word_of_nat (\<lambda>_. 0x40)
      [0xE4, 0x60] zero 21 99) (from_u32 5) (replicate 16 1) 99 0x01020304
    = Some \<lparr>payload = [0xE4, 0x60], sender_verify_key = Some 21, valid_receiver_key = True\<rparr>"
  using obfuscation_round_trip [of "[0xE4, 0x60]" zero 99 99 "from_u32 5"]
  by (simp add: VALID_INNER_HEADERS_def Let_def)

text \<open>
  The client-to-client format. A packet obfuscated for a user hash and our public address
  is recovered by the client with that hash that sees it come from that address.
\<close>

theorem client_obfuscation_round_trip:
  assumes "2 \<le> length pkt" "pkt ! 0 \<in> set VALID_INNER_HEADERS"
  shows "try_decrypt_client_ed2k_packet md5
      (encrypt_client_ed2k_packet md5 r_key draws pkt user_hash ip) user_hash ip = Some pkt"
  by (rule decrypt_client_written [OF assms])

theorem client_obfuscation_round_trip_witness:
  "try_decrypt_client_ed2k_packet (\<lambda>b. b @ [3])
      (encrypt_client_ed2k_packet (\<lambda>b. b @ [3]) 17 word_of_nat [0xC5, 0x90, 1] (replicate 16 2) [1, 2, 3, 4])
      (replicate 16 2) [1, 2, 3, 4] = Some [0xC5, 0x90, 1]"
  using client_obfuscation_round_trip [of "[0xC5, 0x90, 1]" "\<lambda>b. b @ [3]" 17 word_of_nat "replicate 16 2" "[1, 2, 3, 4]"]
  by (simp add: VALID_INNER_HEADERS_def)

end
