(* ===== verification/Udp_Receive.thy ===== *)
theory Udp_Receive
  imports Kad_Message Routing_Table Flood_Protection Kad_Obfuscation
begin

text \<open>
  The receive path of KAD datagrams: the part of \<^verbatim>\<open>handle_udp_packet_inner\<close> in
  \<^verbatim>\<open>src-tauri/src/network/udp.rs\<close> between the test that KAD is connected and the dispatch on
  the decoded message. It composes the IP filter, the routing table, the flood protection,
  the packet decoder and the deobfuscation.
\<close>

unbundle bit_operations_syntax

section \<open>State\<close>

text \<open>
  The fields of \<^verbatim>\<open>NetworkState\<close> that the receive path reads or writes. The five diagnostic
  counters saturate at 64 bits.
\<close>

record net_state =
  kad_connected :: bool
  ip_filter_state :: ip_filter
  banned_ips :: "ipv4 set"
  routing :: routing_table
  flood :: flood_protection
  udp_key_seed :: u32
  my_kad_id :: kad_id
  my_user_hash :: bytes
  my_external_ip :: "ipv4 option"
  last_kad_contact :: "int option"
  publish_res_plain_seen :: nat
  publish_res_obf_decoded :: nat
  obf_decoded_total :: nat
  publish_res_wire :: nat
  publish_res_unmatched :: nat

section \<open>Gates before decoding\<close>

text \<open>IPv4-mapped IPv6 addresses (\<^verbatim>\<open>::ffff:a.b.c.d\<close>) are treated as IPv4.\<close>

fun canonical_ip :: "ip_addr \<Rightarrow> ip_addr" where
  "canonical_ip (V6 a) = (if drop_bit 32 a = 0xFFFF then V4 (ucast a) else V6 a)"
| "canonical_ip (V4 a) = V4 a"

definition first_byte :: "bytes \<Rightarrow> u8" where
  "first_byte data = (if data = [] then 0 else hd data)"

definition plain_header :: "bytes \<Rightarrow> bool" where
  "plain_header data \<longleftrightarrow> first_byte data = 0xE4 \<or> first_byte data = 0xE5"

definition count_plain_publish_res :: "bytes \<Rightarrow> net_state \<Rightarrow> net_state" where
  "count_plain_publish_res data s =
     (if 2 \<le> length data \<and> data ! 0 = 0xE4 \<and> data ! 1 = 0x4B
      then s\<lparr>publish_res_plain_seen := sat_add64 (publish_res_plain_seen s) 1\<rparr> else s)"

fun address_gate :: "ip_addr \<Rightarrow> net_state \<Rightarrow> bool \<times> net_state" where
  "address_gate (V4 a) s =
     (case is_blocked_readonly_for_kad a (ip_filter_state s) of
        (blocked, f) \<Rightarrow>
          (\<not> blocked \<and> a \<notin> banned_ips s, s\<lparr>ip_filter_state := f\<rparr>))"
| "address_gate (V6 a) s = (True, s)"

fun known_sender :: "int \<Rightarrow> ip_addr \<Rightarrow> net_state \<Rightarrow> bool" where
  "known_sender inow (V4 a) s \<longleftrightarrow>
     has_contact_ip (routing s) a \<or> has_recent_ip (flood s) (V4 a) inow"
| "known_sender inow (V6 a) s \<longleftrightarrow> has_recent_ip (flood s) (V6 a) inow"

definition opcode_hint :: "bytes \<Rightarrow> u8" where
  "opcode_hint data =
     (if plain_header data then if 1 < length data then data ! 1 else 0xFF else 0xFF)"

text \<open>The decompression budget, charged for packets with the packed header only.\<close>

definition charge_packed ::
  "int \<Rightarrow> ip_addr \<Rightarrow> u8 \<Rightarrow> bytes \<Rightarrow> net_state \<Rightarrow> bool \<times> net_state" where
  "charge_packed inow ip opcode data s =
     (if data \<noteq> [] \<and> hd data = OP_KADEMLIAPACKEDPROT
      then case over_compressed_budget inow ip opcode (length data) (flood s) of
             (over, fl) \<Rightarrow> (over, s\<lparr>flood := fl\<rparr>)
      else (False, s))"

section \<open>Decoding\<close>

type_synonym received_msg = "kad_message \<times> kad_udp_key option \<times> bool"

fun ip_u32 :: "ip_addr \<Rightarrow> u32" where
  "ip_u32 (V4 a) = a"
| "ip_u32 (V6 a) = 0"

fun receiver_vk :: "(bytes \<Rightarrow> bytes) \<Rightarrow> ip_addr \<Rightarrow> net_state \<Rightarrow> u32" where
  "receiver_vk md5 (V4 a) s = verify_key_for md5 (udp_key_seed s) a"
| "receiver_vk md5 (V6 a) s = 0"

fun is_publish_res :: "kad_message \<Rightarrow> bool" where
  "is_publish_res (PublishRes _ _ _) = True"
| "is_publish_res _ = False"

definition count_obfuscated :: "kad_message \<Rightarrow> net_state \<Rightarrow> net_state" where
  "count_obfuscated m s =
     (let s = s\<lparr>obf_decoded_total := sat_add64 (obf_decoded_total s) 1\<rparr>
      in if is_publish_res m
         then s\<lparr>publish_res_obf_decoded := sat_add64 (publish_res_obf_decoded s) 1\<rparr> else s)"

definition decode_obfuscated ::
  "(bytes \<Rightarrow> bytes) \<Rightarrow> inflater \<Rightarrow> inflater \<Rightarrow> int \<Rightarrow> int \<Rightarrow> ip_addr \<Rightarrow> bool \<Rightarrow> bytes \<Rightarrow> net_state \<Rightarrow>
   received_msg option \<times> net_state" where
  "decode_obfuscated md5 zlib raw inow unow ip known data s =
     (case try_decrypt_kad_packet md5 data (my_kad_id s) (my_user_hash s) (receiver_vk md5 ip s) (ip_u32 ip) of
        None \<Rightarrow> (None, s)
      | Some d \<Rightarrow>
          let sender_key = map_option (\<lambda>k. received k (case my_external_ip s of None \<Rightarrow> 0 | Some e \<Rightarrow> e))
                (sender_verify_key d);
              (over, s) = charge_packed inow ip
                (if 1 < length (payload d) then payload d ! 1 else 0) (payload d) s
          in if over then (None, s)
             else case decode_packet zlib raw unow (payload d) of
                Inl _ \<Rightarrow> (None, s)
              | Inr m \<Rightarrow>
                  (case request_wire_opcode m of
                     None \<Rightarrow> (Some (m, sender_key, valid_receiver_key d), count_obfuscated m s)
                   | Some real_opcode \<Rightarrow>
                       (case recheck_opcode_limit_post_decrypt inow ip known real_opcode (flood s) of
                          (over, fl) \<Rightarrow>
                            let s = s\<lparr>flood := fl\<rparr>
                            in if over then (None, s)
                               else (Some (m, sender_key, valid_receiver_key d), count_obfuscated m s))))"

definition decode_datagram ::
  "(bytes \<Rightarrow> bytes) \<Rightarrow> inflater \<Rightarrow> inflater \<Rightarrow> int \<Rightarrow> int \<Rightarrow> ip_addr \<Rightarrow> bool \<Rightarrow> bytes \<Rightarrow> net_state \<Rightarrow>
   received_msg option \<times> net_state" where
  "decode_datagram md5 zlib raw inow unow ip known data s =
     (case decode_packet zlib raw unow data of
        Inr m \<Rightarrow> (Some (m, None, False), s)
      | Inl _ \<Rightarrow> decode_obfuscated md5 zlib raw inow unow ip known data s)"

section \<open>Responses\<close>

fun response_opcode :: "kad_message \<Rightarrow> u8 option" where
  "response_opcode (BootstrapRes _ _ _ _) = Some 0x09"
| "response_opcode (HelloRes _ _ _ _) = Some 0x19"
| "response_opcode (HelloResAck _ _) = Some 0x22"
| "response_opcode (KadRes _ _) = Some 0x29"
| "response_opcode (SearchRes _ _ _) = Some 0x3B"
| "response_opcode (PublishRes _ _ _) = Some 0x4B"
| "response_opcode (FindBuddyRes _ _ _ _) = Some 0x5A"
| "response_opcode (Pong _) = Some 0x61"
| "response_opcode (FirewalledRes _) = Some 0x58"
| "response_opcode _ = None"

definition admit_response ::
  "ip_addr \<Rightarrow> received_msg \<Rightarrow> net_state \<Rightarrow> received_msg option \<times> net_state" where
  "admit_response ip rm s =
     (let m = fst rm;
          s = (if is_publish_res m then s\<lparr>publish_res_wire := sat_add64 (publish_res_wire s) 1\<rparr> else s)
      in case response_opcode m of
           None \<Rightarrow> (Some rm, s)
         | Some opcode \<Rightarrow>
             (case validate_response ip opcode (flood s) of
                (True, fl) \<Rightarrow> (Some rm, s\<lparr>flood := fl\<rparr>)
              | (False, fl) \<Rightarrow>
                  let s = s\<lparr>flood := fl\<rparr>
                  in (None, if opcode = 0x4B
                            then s\<lparr>publish_res_unmatched := sat_add64 (publish_res_unmatched s) 1\<rparr>
                            else s)))"

section \<open>One datagram\<close>

text \<open>
  The KAD part of \<^verbatim>\<open>handle_udp_packet_inner\<close> up to the dispatch on the message. The result is
  the canonical sender and the message with its UDP key, or nothing when the datagram is
  dropped. \<open>inow\<close> is the monotonic clock of the rate limits, \<open>unow\<close> the wall clock.
\<close>

definition receive_kad ::
  "(bytes \<Rightarrow> bytes) \<Rightarrow> inflater \<Rightarrow> inflater \<Rightarrow> int \<Rightarrow> int \<Rightarrow> ip_addr \<Rightarrow> u16 \<Rightarrow> bytes \<Rightarrow> net_state \<Rightarrow>
   received_msg option \<times> net_state" where
  "receive_kad md5 zlib raw inow unow from port data s =
     (if \<not> kad_connected s then (None, s)
      else
        let ip = canonical_ip from;
            (pass, s) = address_gate ip (count_plain_publish_res data s)
        in if \<not> pass then (None, s)
           else if is_dns_port port \<and> plain_header data then (None, s)
           else
             let known = known_sender inow ip s;
                 (over, fl) = check_rate_limit_with_opcode inow ip known (opcode_hint data) (flood s);
                 s = s\<lparr>flood := fl\<rparr>
             in if over then (None, s)
                else
                  let (over, s) = charge_packed inow ip (opcode_hint data) data s
                  in if over then (None, s)
                     else case decode_datagram md5 zlib raw inow unow ip known data s of
                            (None, s) \<Rightarrow> (None, s)
                          | (Some rm, s) \<Rightarrow> admit_response ip rm (s\<lparr>last_kad_contact := Some unow\<rparr>))"

end
