(* ===== verification/Flood_Laws.thy ===== *)
theory Flood_Laws
  imports Flood_Protection
begin

text \<open>
  Lemmas on the flood protection: the counter tables with their eviction order, the frame of
  each operation, the invariant of the state, and the accounting of tracked requests.
\<close>

unbundle bit_operations_syntax


section \<open>Counter tables\<close>

text \<open>A table and its probe order: distinct keys, the order lists exactly the keys, bounded size.\<close>

definition table_ok :: "('k \<times> 'v) list \<Rightarrow> 'k list \<Rightarrow> nat \<Rightarrow> bool" where
  "table_ok m order cap \<longleftrightarrow> distinct (map fst m) \<and> distinct order \<and> set order = fst ` set m
     \<and> length m \<le> cap"

lemma table_ok_nil [simp]: "table_ok [] [] cap"
  by (simp add: table_ok_def)

lemma map_of_key: "map_of m k \<noteq> None \<longleftrightarrow> k \<in> fst ` set m"
  by (simp add: map_of_eq_None_iff)

lemma length_delete: "map_of m k \<noteq> None \<Longrightarrow> length (AList.delete k m) < length m"
  unfolding AList.delete_eq map_of_key
  by (auto simp: length_filter_less case_prod_unfold)

lemma evict_loop_effect:
  assumes "evict_loop n idle m order = (ev, m', order')" "table_ok m order cap"
  shows "table_ok m' order' cap \<and> (ev \<longrightarrow> length m' < length m) \<and> (\<not> ev \<longrightarrow> m' = m)
    \<and> (\<forall>k v. map_of m k = Some v \<and> \<not> idle v \<longrightarrow> map_of m' k = Some v)
    \<and> (\<forall>k. map_of m k = None \<longrightarrow> map_of m' k = None)"
  using assms
proof (induction n idle m order rule: evict_loop.induct)
  case (2 n idle m order)
  show ?case
  proof (cases order)
    case Nil
    then show ?thesis using "2.prems" by (simp add: table_ok_def)
  next
    case (Cons key rest)
    then obtain v where v: "map_of m key = Some v"
      using "2.prems"(2) map_of_key [of m key] by (auto simp: table_ok_def)
    show ?thesis
    proof (cases "idle v")
      case True
      then have e: "ev" "m' = AList.delete key m" "order' = rest" using "2.prems"(1) Cons v by simp_all
      have "length (AList.delete key m) < length m" by (rule length_delete) (simp add: v)
      moreover have "fst ` set (AList.delete key m) = fst ` set m - {key}"
        using arg_cong [OF delete_keys, of set key m] by simp
      moreover have "distinct (map fst (AList.delete key m))"
        using "2.prems"(2) by (simp add: table_ok_def distinct_delete)
      ultimately have "table_ok m' order' cap"
        using e "2.prems"(2) Cons by (auto simp: table_ok_def)
      then show ?thesis
        using e True v \<open>length (AList.delete key m) < length m\<close> by (auto simp: delete_conv')
    next
      case False
      have "table_ok m (rest @ [key]) cap" using "2.prems"(2) Cons by (auto simp: table_ok_def)
      then show ?thesis using "2.IH"(2) [OF Cons v False] "2.prems"(1) Cons v False by simp
    qed
  qed
qed simp

lemma make_room:
  assumes "table_ok m order cap"
    and "(if map_of m k = None \<and> cap \<le> length m then evict_idle m order idle else (True, m, order))
      = (ev, m', order')"
  shows "table_ok m' order' cap" "ev \<Longrightarrow> map_of m k = None \<Longrightarrow> length m' < cap"
    "\<And>k v. map_of m k = Some v \<Longrightarrow> \<not> idle v \<Longrightarrow> map_of m' k = Some v"
    "map_of m' k = None \<longleftrightarrow> map_of m k = None" "map_of m k \<noteq> None \<Longrightarrow> ev \<and> m' = m \<and> order' = order"
proof -
  show "table_ok m' order' cap" "ev \<Longrightarrow> map_of m k = None \<Longrightarrow> length m' < cap"
    "\<And>k v. map_of m k = Some v \<Longrightarrow> \<not> idle v \<Longrightarrow> map_of m' k = Some v"
    using evict_loop_effect [of EVICTION_PROBES idle m order ev m' order' cap] assms
    by (auto simp: evict_idle_def table_ok_def split: if_splits)
  have none: "map_of m k = None \<Longrightarrow> map_of m' k = None"
    using evict_loop_effect [of EVICTION_PROBES idle m order ev m' order' cap] assms
    by (auto simp: evict_idle_def split: if_splits)
  show some: "map_of m k \<noteq> None \<Longrightarrow> ev \<and> m' = m \<and> order' = order" using assms(2) by auto
  show "map_of m' k = None \<longleftrightarrow> map_of m k = None" using none some by blast
qed

lemma put_row:
  assumes "table_ok m order cap" "map_of m k = None \<Longrightarrow> length m < cap"
  shows "table_ok (AList.update k w m) (if map_of m k = None then order @ [k] else order) cap"
proof -
  have keys: "fst ` set (AList.update k w m) = insert k (fst ` set m)"
    by (induction m) auto
  have len: "length (AList.update k w m) = length m + (if map_of m k = None then 1 else 0)"
    by (induction m) auto
  have new: "map_of m k = None \<longleftrightarrow> k \<notin> fst ` set m" by (rule map_of_eq_None_iff)
  show ?thesis
    using assms keys len new by (auto simp: table_ok_def distinct_update insert_absorb)
qed

lemma retain_table:
  assumes "table_ok m order cap"
  shows "table_ok (retain_rows p m) (retain_order (retain_rows p m) order) cap"
proof -
  have "distinct (map fst (retain_rows p m))" "length (retain_rows p m) \<le> cap"
    using assms le_trans [OF length_filter_le]
    by (auto simp: table_ok_def retain_rows_def distinct_map_filter)
  moreover have "set (retain_order (retain_rows p m) order) = fst ` set (retain_rows p m)"
    using assms by (auto simp: table_ok_def retain_order_def retain_rows_def map_of_eq_None_iff)
  ultimately show ?thesis using assms by (simp add: table_ok_def retain_order_def)
qed

lemma map_of_retain:
  "distinct (map fst m) \<Longrightarrow> map_of m k = Some v \<Longrightarrow> p v \<Longrightarrow> map_of (retain_rows p m) k = Some v"
  by (induction m) (auto simp: retain_rows_def)

section \<open>Invariant\<close>

definition tables_ok :: "flood_protection \<Rightarrow> bool" where
  "tables_ok s \<longleftrightarrow> table_ok (ip_counters s) (ip_order s) MAX_IP_ENTRIES
     \<and> table_ok (ember_ip_counters s) (ember_ip_order s) MAX_IP_ENTRIES
     \<and> table_ok (opcode_counters s) (opcode_order s) MAX_OPCODE_ENTRIES
     \<and> table_ok (outgoing_counters s) (outgoing_order s) MAX_IP_ENTRIES
     \<and> table_ok (compressed_counters s) (compressed_order s) MAX_COMPRESSED_ENTRIES"

text \<open>
  The maps that track our own requests: a request is outstanding exactly when it has a send
  time, counts and budgets are positive, and budgets belong to outstanding searches.
\<close>

definition requests_ok :: "flood_protection \<Rightarrow> bool" where
  "requests_ok s \<longleftrightarrow> (\<forall>k. outgoing_requests s k = None \<longleftrightarrow> request_times s k = None)
     \<and> (\<forall>k n. outgoing_requests s k = Some n \<longrightarrow> 0 < n)
     \<and> (\<forall>k b. search_response_budgets s k = Some b \<longrightarrow>
          0 < b \<and> snd k \<in> {0x33, 0x34, 0x35} \<and> outgoing_requests s k \<noteq> None)"

definition flood_inv :: "flood_protection \<Rightarrow> bool" where
  "flood_inv s \<longleftrightarrow> tables_ok s \<and> requests_ok s"

lemma flood_inv_new: "flood_inv (flood_new now)"
  by (simp add: flood_inv_def tables_ok_def requests_ok_def flood_new_def)

lemma over_per_ip_budget_table:
  assumes "table_ok m order MAX_IP_ENTRIES"
    and "over_per_ip_budget m order fb ip mx rel now = (over, m', order', fb')"
  shows "table_ok m' order' MAX_IP_ENTRIES"
proof -
  obtain ev m1 o1 where e: "(if map_of m ip = None \<and> MAX_IP_ENTRIES \<le> length m
      then evict_idle m order (\<lambda>w. 1 \<le> secs_since now (snd w)) else (True, m, order)) = (ev, m1, o1)"
    by (metis prod_cases3)
  note room = make_room [OF assms(1) e]
  have same: "map_of m1 ip = None \<longleftrightarrow> map_of m ip = None" by (rule room(4))
  have put: "table_ok (AList.update ip w m1) (if map_of m1 ip = None then o1 @ [ip] else o1) MAX_IP_ENTRIES"
    if ev for w
    using put_row [OF room(1), of ip w] room(2) [OF that] same by simp
  show ?thesis
  proof (cases ev)
    case False
    then have "m' = m1 \<and> order' = o1"
      using assms(2) e unfolding over_per_ip_budget_def Let_def
      by (auto split: if_splits prod.splits)
    then show ?thesis using room(1) by simp
  next
    case True
    obtain rn w where w: "charge 1 now (entry_or m1 ip (0, now)) = (rn, w)" by (meson surj_pair)
    have "m' = AList.update ip w m1" "order' = (if map_of m1 ip = None then o1 @ [ip] else o1)"
      using assms(2) e True w same unfolding over_per_ip_budget_def Let_def
      by (auto split: if_splits prod.splits)
    then show ?thesis using put [OF True] by simp
  qed
qed

lemma check_opcode_cases:
  assumes "table_ok (opcode_counters s) (opcode_order s) MAX_OPCODE_ENTRIES"
    and "check_opcode_limit now ip known op s = (r, s')"
  shows "table_ok (opcode_counters s') (opcode_order s') MAX_OPCODE_ENTRIES
    \<and> (\<exists>m order fb. s' = s\<lparr>opcode_counters := m, opcode_order := order, opcode_fallback := fb\<rparr>)
    \<and> (\<forall>k v. k \<noteq> (ip, op) \<and> map_of (opcode_counters s) k = Some v
          \<and> secs_since now (snd v) < OPCODE_WINDOW_SECS \<longrightarrow> map_of (opcode_counters s') k = Some v)
    \<and> (\<forall>n t. map_of (opcode_counters s) (ip, op) = Some (n, t) \<and> is_request_opcode op
          \<and> secs_since now t < OPCODE_WINDOW_SECS \<longrightarrow>
          map_of (opcode_counters s') (ip, op) = Some (inc32 n, t)
          \<and> (r \<longleftrightarrow> effective_limit known op < inc32 n))"
proof (cases "is_request_opcode op")
  case False
  then have "s' = s" using assms(2) by (simp add: check_opcode_limit_def)
  then show ?thesis using assms(1) False by (auto intro!: exI [of _ "opcode_counters s"]
        exI [of _ "opcode_order s"] exI [of _ "opcode_fallback s"])
next
  case True
  let ?k = "(ip, op)" and ?m = "opcode_counters s"
  obtain ev m1 o1 where e: "(if map_of ?m ?k = None \<and> MAX_OPCODE_ENTRIES \<le> length ?m
      then evict_idle ?m (opcode_order s) (\<lambda>w. OPCODE_WINDOW_SECS \<le> secs_since now (snd w))
      else (True, ?m, opcode_order s)) = (ev, m1, o1)"
    by (metis prod_cases3)
  note room = make_room [OF assms(1) e]
  have same: "map_of m1 ?k = None \<longleftrightarrow> map_of ?m ?k = None" by (rule room(4))
  show ?thesis
  proof (cases ev)
    case False
    then have abs: "map_of ?m ?k = None" using room(5) by blast
    have "\<exists>fb. s' = s\<lparr>opcode_counters := m1, opcode_order := o1, opcode_fallback := fb\<rparr>"
      using assms(2) True e False unfolding check_opcode_limit_def Let_def
      by (auto split: if_splits prod.splits intro: exI [of _ "opcode_fallback s"])
    then show ?thesis using room(1,3) abs by auto
  next
    case ev: True
    obtain rn w where w: "charge OPCODE_WINDOW_SECS now (entry_or m1 ?k (0, now)) = (rn, w)"
      by (meson surj_pair)
    have s': "s' = s\<lparr>opcode_counters := AList.update ?k w m1,
        opcode_order := (if map_of m1 ?k = None then o1 @ [?k] else o1)\<rparr>"
      and r: "r \<longleftrightarrow> \<not> rn \<and> effective_limit known op < fst w"
      using assms(2) True e ev w same unfolding check_opcode_limit_def Let_def
      by (auto split: if_splits prod.splits)
    have tab: "table_ok (opcode_counters s') (opcode_order s') MAX_OPCODE_ENTRIES"
      unfolding s' using put_row [OF room(1), of ?k w] room(2) [OF ev] same by simp
    have frame: "\<exists>m order fb. s' = s\<lparr>opcode_counters := m, opcode_order := order, opcode_fallback := fb\<rparr>"
      unfolding s' by (intro exI [of _ "AList.update ?k w m1"] exI exI [of _ "opcode_fallback s"]) simp
    have other: "map_of (opcode_counters s') k = Some v"
      if "k \<noteq> ?k" "map_of ?m k = Some v" "secs_since now (snd v) < OPCODE_WINDOW_SECS" for k v
      unfolding s' using room(3) [of k v] that by (simp add: update_conv')
    have own: "map_of (opcode_counters s') ?k = Some (inc32 n, t) \<and> (r \<longleftrightarrow> effective_limit known op < inc32 n)"
      if "map_of ?m ?k = Some (n, t)" "secs_since now t < OPCODE_WINDOW_SECS" for n t
    proof -
      have "map_of m1 ?k = Some (n, t)" using room(5) that by simp
      then have "rn = False \<and> w = (inc32 n, t)" using w that(2) by (auto simp: charge_def entry_or_def)
      then show ?thesis using s' r by (simp add: update_conv')
    qed
    show ?thesis using tab frame other own by blast
  qed
qed

lemma outgoing_rate_table:
  assumes "table_ok (outgoing_counters s) (outgoing_order s) MAX_IP_ENTRIES"
    and "check_outgoing_rate now ip s = (r, s')"
  shows "table_ok (outgoing_counters s') (outgoing_order s') MAX_IP_ENTRIES
    \<and> (\<exists>m order. s' = s\<lparr>outgoing_counters := m, outgoing_order := order\<rparr>)"
proof -
  let ?m = "outgoing_counters s"
  obtain ev m1 o1 where e: "(if map_of ?m ip = None \<and> MAX_IP_ENTRIES \<le> length ?m
      then evict_idle ?m (outgoing_order s) (\<lambda>w. 1 \<le> secs_since now (snd w))
      else (True, ?m, outgoing_order s)) = (ev, m1, o1)"
    by (metis prod_cases3)
  note room = make_room [OF assms(1) e]
  show ?thesis
  proof (cases ev)
    case False
    then have "s' = s\<lparr>outgoing_counters := m1, outgoing_order := o1\<rparr>"
      using assms(2) e unfolding check_outgoing_rate_def Let_def by (auto split: if_splits prod.splits)
    then show ?thesis using room(1) by auto
  next
    case True
    obtain rn w where w: "charge 1 now (entry_or m1 ip (0, now)) = (rn, w)" by (meson surj_pair)
    have s': "s' = s\<lparr>outgoing_counters := AList.update ip w m1,
        outgoing_order := (if map_of m1 ip = None then o1 @ [ip] else o1)\<rparr>"
      using assms(2) e True w room(4) unfolding check_outgoing_rate_def Let_def
      by (auto split: if_splits prod.splits)
    have "table_ok (outgoing_counters s') (outgoing_order s') MAX_IP_ENTRIES"
      unfolding s' using put_row [OF room(1), of ip w] room(2) [OF True] room(4) by simp
    then show ?thesis unfolding s' by auto
  qed
qed

lemma take_burst_frame:
  "take_search_burst ip packed s = (b, s') \<Longrightarrow> s' = s\<lparr>search_bursts := search_bursts s'\<rparr>"
  by (auto simp: take_search_burst_def Let_def split: if_splits option.splits)

lemma compressed_slot_table:
  assumes "table_ok (compressed_counters s) (compressed_order s) MAX_COMPRESSED_ENTRIES"
    and "compressed_slot now ip s = (slot, s')"
  shows "(\<exists>m order. s' = s\<lparr>compressed_counters := m, compressed_order := order\<rparr>)
    \<and> (if slot then table_ok (AList.update ip e (compressed_counters s')) (compressed_order s') MAX_COMPRESSED_ENTRIES
       else table_ok (compressed_counters s') (compressed_order s') MAX_COMPRESSED_ENTRIES)"
proof -
  let ?m = "compressed_counters s"
  obtain ev m1 o1 where e: "(if map_of ?m ip = None \<and> MAX_COMPRESSED_ENTRIES \<le> length ?m
      then evict_idle ?m (compressed_order s) (\<lambda>(_, _, t). 1 \<le> secs_since now t)
      else (True, ?m, compressed_order s)) = (ev, m1, o1)"
    by (metis prod_cases3)
  note room = make_room [OF assms(1) e]
  have s': "slot = ev" "s' = s\<lparr>compressed_counters := m1,
      compressed_order := (if ev \<and> map_of m1 ip = None then o1 @ [ip] else o1)\<rparr>"
    using assms(2) e room(4) unfolding compressed_slot_def by (auto split: if_splits prod.splits)
  show ?thesis
  proof (cases ev)
    case True
    have "table_ok (AList.update ip e m1) (if map_of m1 ip = None then o1 @ [ip] else o1) MAX_COMPRESSED_ENTRIES"
      using put_row [OF room(1), of ip e] room(2) [OF True] room(4) by simp
    then show ?thesis using s' True by auto
  next
    case False
    then show ?thesis using s' room(1) by auto
  qed
qed

lemma charge_global_frame:
  "charge_global now n sol s = (r, s') \<Longrightarrow>
     s' = s\<lparr>global_compressed := global_compressed s'\<rparr> \<and> (r \<longrightarrow> \<not> sol)"
  by (auto simp: charge_global_def Let_def split: if_splits)

text \<open>
  The three ways through \<open>over_compressed_budget\<close>: no slot, refused as over the source
  budget, or charged to the aggregate.
\<close>

lemma compressed_cases:
  assumes "over_compressed_budget now ip op n s = (r, s')"
  obtains (no_slot) s1 where "compressed_slot now ip s = (False, s1)"
      "charge_global now n (answers_outstanding_request s ip op) s1 = (r, s')"
  | (slot) s1 e s2 s3 where "compressed_slot now ip s = (True, s1)"
      "e = charge_compressed now n (entry_or (compressed_counters s1) ip (0, 0, now))"
      "s2 = s1\<lparr>compressed_counters := AList.update ip e (compressed_counters s1)\<rparr>"
      "s3 = s2\<lparr>search_bursts := search_bursts s3\<rparr>"
      "r \<and> s' = s3 \<and> (MAX_COMPRESSED_PER_SEC < fst e \<or> MAX_COMPRESSED_BYTES_PER_SEC < fst (snd e))
       \<or> charge_global now n (answers_outstanding_request s ip op) s3 = (r, s')"
proof -
  obtain has s1 where sl: "compressed_slot now ip s = (has, s1)" by (meson surj_pair)
  define e where "e = charge_compressed now n (entry_or (compressed_counters s1) ip (0, 0, now))"
  define s2 where "s2 = s1\<lparr>compressed_counters := AList.update ip e (compressed_counters s1)\<rparr>"
  define over where "over \<longleftrightarrow> MAX_COMPRESSED_PER_SEC < fst e \<or> MAX_COMPRESSED_BYTES_PER_SEC < fst (snd e)"
  obtain b s3 where b: "(if over \<and> op = 0x3B then take_search_burst ip True s2 else (False, s2)) = (b, s3)"
    by (meson surj_pair)
  have f: "s3 = s2\<lparr>search_bursts := search_bursts s3\<rparr>"
    using b take_burst_frame by (auto split: if_splits)
  show thesis
  proof (cases has)
    case False
    then show thesis using no_slot sl assms by (simp add: over_compressed_budget_def)
  next
    case True
    have "over_compressed_budget now ip op n s =
        (case (if over \<and> op = 0x3B then take_search_burst ip True s2 else (False, s2)) of (burst, s') \<Rightarrow>
           if over \<and> \<not> burst then (True, s')
           else charge_global now n (answers_outstanding_request s ip op) s')"
      unfolding over_compressed_budget_def Let_def e_def s2_def over_def using sl True by simp
    then have "(if over \<and> \<not> b then (True, s3)
        else charge_global now n (answers_outstanding_request s ip op) s3) = (r, s')"
      unfolding b using assms by simp
    then show thesis using slot [OF _ e_def s2_def f] sl True over_def by (auto split: if_splits)
  qed
qed

lemma compressed_table:
  assumes "table_ok (compressed_counters s) (compressed_order s) MAX_COMPRESSED_ENTRIES"
    and "over_compressed_budget now ip op n s = (r, s')"
  shows "table_ok (compressed_counters s') (compressed_order s') MAX_COMPRESSED_ENTRIES
    \<and> s' = s\<lparr>compressed_counters := compressed_counters s', compressed_order := compressed_order s',
          search_bursts := search_bursts s', global_compressed := global_compressed s'\<rparr>"
  using assms(2)
proof (cases rule: compressed_cases)
  case (no_slot s1)
  note t = compressed_slot_table [OF assms(1) no_slot(1)]
  note g = charge_global_frame [OF no_slot(2)]
  show ?thesis using t g by (cases s; cases s1; cases s') auto
next
  case (slot s1 e s2 s3)
  note t = compressed_slot_table [OF assms(1) slot(1), of e]
  have "s' = s3\<lparr>global_compressed := global_compressed s'\<rparr>"
    using slot(5) charge_global_frame by (auto simp del: split_paired_Ex)
  then show ?thesis using t slot(3,4) by (cases s; cases s1; cases s2; cases s3; cases s') auto
qed

lemma ember_rate_table:
  assumes "table_ok (ember_ip_counters s) (ember_ip_order s) MAX_IP_ENTRIES"
    and "check_ember_rate_limit now ip known s = (r, s')"
  shows "table_ok (ember_ip_counters s') (ember_ip_order s') MAX_IP_ENTRIES
    \<and> s' = s\<lparr>ember_ip_counters := ember_ip_counters s', ember_ip_order := ember_ip_order s',
          ember_ip_fallback := ember_ip_fallback s'\<rparr>"
  using assms over_per_ip_budget_table [OF assms(1)]
  by (auto simp: check_ember_rate_limit_def Let_def split: prod.splits)

lemma rate_limit_cases:
  assumes "table_ok (ip_counters s) (ip_order s) MAX_IP_ENTRIES"
    and "check_rate_limit_with_opcode now ip known op s = (r, s')"
  obtains r1 s1 where "check_opcode_limit now ip known op s = (r1, s1)" "r1 \<Longrightarrow> r"
    "s' = s1\<lparr>ip_counters := ip_counters s', ip_order := ip_order s',
       ip_fallback := ip_fallback s', search_bursts := search_bursts s'\<rparr>"
    "table_ok (ip_counters s1) (ip_order s1) MAX_IP_ENTRIES \<Longrightarrow>
     table_ok (ip_counters s') (ip_order s') MAX_IP_ENTRIES"
proof -
  obtain r1 s1 where c: "check_opcode_limit now ip known op s = (r1, s1)" by (meson surj_pair)
  show thesis
  proof (cases r1)
    case True
    then show thesis using that [OF c] assms c by (simp add: check_rate_limit_with_opcode_def)
  next
    case False
    let ?mx = "if known then MAX_PACKETS_PER_SEC_KNOWN else MAX_PACKETS_PER_SEC_UNKNOWN"
    obtain over m order fb where o: "over_per_ip_budget (ip_counters s1) (ip_order s1) (ip_fallback s1) ip
        ?mx (has_relationship s1 ip known now) now = (over, m, order, fb)"
      by (metis prod_cases4)
    define s2 where "s2 = s1\<lparr>ip_counters := m, ip_order := order, ip_fallback := fb\<rparr>"
    have r: "(r, s') = (if over \<and> (op = 0x3B \<or> op = 0xFF)
        then (case take_search_burst ip False s2 of (b, s) \<Rightarrow> (\<not> b, s)) else (over, s2))"
      unfolding assms(2) [symmetric] using c False o
      by (cases over) (auto simp: check_rate_limit_with_opcode_def s2_def Let_def)
    have f: "s' = s2\<lparr>search_bursts := search_bursts s'\<rparr>"
      using r take_burst_frame by (auto split: if_splits prod.splits)
    show thesis
    proof (rule that [OF c])
      show "r1 \<Longrightarrow> r" using False by simp
      show "s' = s1\<lparr>ip_counters := ip_counters s', ip_order := ip_order s',
          ip_fallback := ip_fallback s', search_bursts := search_bursts s'\<rparr>"
        using f unfolding s2_def by (cases s1; cases s') simp
      have "ip_counters s' = m" "ip_order s' = order" by (subst f, simp add: s2_def)+
      then show "table_ok (ip_counters s1) (ip_order s1) MAX_IP_ENTRIES \<Longrightarrow>
          table_ok (ip_counters s') (ip_order s') MAX_IP_ENTRIES"
        using over_per_ip_budget_table o by blast
    qed
  qed
qed

lemma requests_ok_forget: "requests_ok s \<Longrightarrow> requests_ok (forget_request key s)"
  unfolding requests_ok_def forget_request_def
  by (simp del: split_paired_All split_paired_Ex)

lemma requests_okI:
  assumes "\<And>k. outgoing_requests s k = None \<longleftrightarrow> request_times s k = None"
    and "\<And>k n. outgoing_requests s k = Some n \<Longrightarrow> 0 < n"
    and "\<And>k b. search_response_budgets s k = Some b \<Longrightarrow>
      0 < b \<and> snd k \<in> {0x33, 0x34, 0x35} \<and> outgoing_requests s k \<noteq> None"
  shows "requests_ok s"
  unfolding requests_ok_def using assms by blast

lemma requests_okD:
  assumes "requests_ok s"
  shows "outgoing_requests s k = None \<longleftrightarrow> request_times s k = None"
    and "outgoing_requests s k = Some n \<Longrightarrow> 0 < n"
    and "search_response_budgets s k = Some b \<Longrightarrow> 0 < b"
    and "search_response_budgets s k = Some b \<Longrightarrow> snd k \<in> {0x33, 0x34, 0x35}"
    and "search_response_budgets s k = Some b \<Longrightarrow> outgoing_requests s k \<noteq> None"
  using assms unfolding requests_ok_def by blast+

lemma requests_ok_count:
  assumes "requests_ok s" "outgoing_requests s key \<noteq> None" "0 < n"
  shows "requests_ok (s\<lparr>outgoing_requests := (outgoing_requests s)(key \<mapsto> n)\<rparr>)"
proof (rule requests_okI, goal_cases)
  case (1 k)
  then show ?case using requests_okD(1) [OF assms(1), of k] assms(2) by (cases "k = key") simp_all
next
  case (2 k n)
  then show ?case using requests_okD(2) [OF assms(1), of k n] assms(3) by (cases "k = key") simp_all
next
  case (3 k b)
  then have "search_response_budgets s k = Some b" by simp
  note b = requests_okD(3-5) [OF assms(1) this]
  then show ?case by (cases "k = key") auto
qed

lemma requests_ok_budget:
  assumes "requests_ok s" "search_response_budgets s key \<noteq> None" "0 < n"
  shows "requests_ok (s\<lparr>search_response_budgets := (search_response_budgets s)(key \<mapsto> n)\<rparr>)"
proof (rule requests_okI, goal_cases)
  case (3 k b)
  obtain b' where "search_response_budgets s key = Some b'" using assms(2) by blast
  note d = requests_okD(4,5) [OF assms(1) this]
  show ?case
  proof (cases "k = key")
    case True
    then show ?thesis using d 3 assms(3) by simp
  next
    case False
    then have "search_response_budgets s k = Some b" using 3 by simp
    then show ?thesis using requests_okD(3-5) [OF assms(1)] by simp
  qed
qed (use requests_okD(1,2) [OF assms(1)] in simp_all)

lemma consume_outgoing_effect:
  assumes "consume_outgoing key s = (r, s')"
  shows "s' = s\<lparr>outgoing_requests := outgoing_requests s',
      search_response_budgets := search_response_budgets s', request_times := request_times s'\<rparr>"
    and "count_of (outgoing_requests s') key = count_of (outgoing_requests s) key - (if r then 1 else 0)"
    and "r \<Longrightarrow> 0 < count_of (outgoing_requests s) key"
    and "k \<noteq> key \<Longrightarrow> outgoing_requests s' k = outgoing_requests s k"
    and "count_of (search_response_budgets s') k \<le> count_of (search_response_budgets s) k"
    and "requests_ok s \<Longrightarrow> requests_ok s'"
  using assms requests_ok_forget [of s key] requests_ok_count [of s key]
  by (auto simp: consume_outgoing_def forget_request_def count_of_def
      split: option.splits if_splits)

lemma budget_step:
  assumes "search_response_budgets s (ip, cand) = Some b" "requests_ok s"
    and "(if b - 1 = 0 then forget_request (ip, cand) s
      else s\<lparr>search_response_budgets := (search_response_budgets s)((ip, cand) \<mapsto> b - 1)\<rparr>) = s'"
  shows "s' = s\<lparr>outgoing_requests := outgoing_requests s',
      search_response_budgets := search_response_budgets s', request_times := request_times s'\<rparr>"
    and "count_of (outgoing_requests s') k \<le> count_of (outgoing_requests s) k"
    and "count_of (search_response_budgets s') k \<le> count_of (search_response_budgets s) k"
    and "count_of (search_response_budgets s') (ip, cand) < count_of (search_response_budgets s) (ip, cand)"
    and "requests_ok s'"
proof -
  have b: "0 < b" using assms(1,2) unfolding requests_ok_def by blast
  show "requests_ok s'"
    using assms b requests_ok_forget requests_ok_budget [of s "(ip, cand)" "b - 1"]
    by (auto split: if_splits)
  show "s' = s\<lparr>outgoing_requests := outgoing_requests s',
      search_response_budgets := search_response_budgets s', request_times := request_times s'\<rparr>"
    "count_of (outgoing_requests s') k \<le> count_of (outgoing_requests s) k"
    "count_of (search_response_budgets s') k \<le> count_of (search_response_budgets s) k"
    "count_of (search_response_budgets s') (ip, cand) < count_of (search_response_budgets s) (ip, cand)"
    using assms(1,3) b by (auto simp: forget_request_def count_of_def split: if_splits)
qed

lemma search_budget_effect:
  assumes "take_search_budget ip cands s = (r, s')" "requests_ok s"
  shows "s' = s\<lparr>outgoing_requests := outgoing_requests s',
      search_response_budgets := search_response_budgets s', request_times := request_times s'\<rparr>
    \<and> (\<forall>k. count_of (outgoing_requests s') k \<le> count_of (outgoing_requests s) k)
    \<and> (\<forall>k. count_of (search_response_budgets s') k \<le> count_of (search_response_budgets s) k)
    \<and> (r \<longrightarrow> (\<exists>c \<in> set cands. count_of (search_response_budgets s') (ip, c)
          < count_of (search_response_budgets s) (ip, c)))
    \<and> requests_ok s'"
  using assms
proof (induction ip cands s rule: take_search_budget.induct)
  case (2 ip cand cands s)
  show ?case
  proof (cases "search_response_budgets s (ip, cand)")
    case None
    then show ?thesis using 2 by (auto simp del: split_paired_All)
  next
    case (Some b)
    then have "0 < b" using "2.prems"(2) unfolding requests_ok_def by blast
    then have r: "r" "(if b - 1 = 0 then forget_request (ip, cand) s
      else s\<lparr>search_response_budgets := (search_response_budgets s)((ip, cand) \<mapsto> b - 1)\<rparr>) = s'"
      using "2.prems"(1) Some by (auto split: if_splits)
    show ?thesis using budget_step [OF Some "2.prems"(2) r(2)] by auto
  qed
qed (simp del: split_paired_All)
section \<open>Responses\<close>

text \<open>The request opcodes that a response opcode can answer.\<close>

definition request_opcodes :: "u8 \<Rightarrow> u8 list" where
  "request_opcodes rop =
     (if rop = 0x3B then [0x33, 0x34, 0x35]
      else if rop = 0x4B then [0x43, 0x44, 0x45]
      else if rop = 0x58 then [0x50, 0x53]
      else case request_for rop of Some r \<Rightarrow> [r] | None \<Rightarrow> [])"

lemma oldest_publish_cand:
  "oldest_publish ip cands s best = Some (op, t) \<Longrightarrow> op \<in> set cands \<or> best = Some (op, t)"
  by (induction ip cands s best rule: oldest_publish.induct) (auto split: option.splits if_splits)

lemma consume_le:
  assumes "consume_outgoing key s = (r, s')"
  shows "count_of (outgoing_requests s') k \<le> count_of (outgoing_requests s) k"
    and "r \<Longrightarrow> count_of (outgoing_requests s') key < count_of (outgoing_requests s) key"
    and "\<not> r \<Longrightarrow> s' = s"
proof -
  note e = consume_outgoing_effect [OF assms]
  show "count_of (outgoing_requests s') k \<le> count_of (outgoing_requests s) k"
    using e(2) e(4) [of k] by (cases "k = key") (simp_all add: count_of_def)
  show "r \<Longrightarrow> count_of (outgoing_requests s') key < count_of (outgoing_requests s) key"
    using e(2,3) by simp
  show "\<not> r \<Longrightarrow> s' = s"
    using assms by (auto simp: consume_outgoing_def split: option.splits if_splits)
qed

text \<open>How a response other than a search result is matched: by at most one consumed request.\<close>

lemma validate_consumes:
  assumes "validate_response ip rop s = (r, s')" "rop \<noteq> 0x3B"
  obtains (refused) "\<not> r" "s' = s"
  | (accepted) op where "r" "op \<in> set (request_opcodes rop)" "consume_outgoing (ip, op) s = (True, s')"
proof (cases "request_for rop")
  case None
  then show thesis using assms refused by (simp add: validate_response_def)
next
  case (Some req)
  define first where "first = (if rop = 0x4B then
       (case oldest_publish ip [req, 0x44, 0x45] s None of
          Some (op, _) \<Rightarrow> consume_outgoing (ip, op) s | None \<Rightarrow> (False, s))
     else consume_outgoing (ip, req) s)"
  obtain ok s1 where f: "first = (ok, s1)" by (meson surj_pair)
  have v: "(if ok then (True, s1) else if rop = 0x58 then consume_outgoing (ip, 0x53) s1 else (False, s1))
      = (r, s')"
    using assms Some f unfolding validate_response_def first_def by simp
  have req: "rop = 0x4B \<Longrightarrow> req = 0x43" "rop = 0x58 \<Longrightarrow> req = 0x50"
    "req \<in> set (request_opcodes rop)"
    using Some assms(2) by (auto simp: request_for_def request_opcodes_def split: if_splits)
  have hit: "\<exists>op \<in> set (request_opcodes rop). consume_outgoing (ip, op) s = (True, s1)" if ok
    using f that req oldest_publish_cand [of ip "[req, 0x44, 0x45]" s None]
    unfolding first_def
    by (auto simp: request_opcodes_def split: if_splits option.splits)
  have miss: "s1 = s" if "\<not> ok"
    using f that consume_le(3) unfolding first_def by (auto split: if_splits option.splits)
  show thesis
  proof (cases ok)
    case True
    then show thesis using hit v accepted by auto
  next
    case False
    then show thesis
      using miss v refused accepted [of "0x53"] consume_le(3) [of "(ip, 0x53)" s r s']
      by (auto simp: request_opcodes_def split: if_splits)
  qed
qed

lemma validate_frame:
  assumes "validate_response ip rop s = (r, s')" "requests_ok s"
  shows "s' = s\<lparr>outgoing_requests := outgoing_requests s',
      search_response_budgets := search_response_budgets s', request_times := request_times s'\<rparr>"
    and "count_of (outgoing_requests s') k \<le> count_of (outgoing_requests s) k"
    and "count_of (search_response_budgets s') k \<le> count_of (search_response_budgets s) k"
    and "requests_ok s'"
proof -
  have "s' = s\<lparr>outgoing_requests := outgoing_requests s',
      search_response_budgets := search_response_budgets s', request_times := request_times s'\<rparr>
    \<and> count_of (outgoing_requests s') k \<le> count_of (outgoing_requests s) k
    \<and> count_of (search_response_budgets s') k \<le> count_of (search_response_budgets s) k
    \<and> requests_ok s'"
  proof (cases "rop = 0x3B")
    case True
    then have "take_search_budget ip [0x33, 0x34, 0x35] s = (r, s')"
      using assms(1) by (simp add: validate_response_def request_for_def)
    from search_budget_effect [OF this assms(2)] show ?thesis by blast
  next
    case False
    from assms(1) False show ?thesis
    proof (cases rule: validate_consumes)
      case refused
      then show ?thesis using assms(2) by simp
    next
      case (accepted op)
      note e = consume_outgoing_effect [OF accepted(3)]
      show ?thesis using e(1,5) e(6) [OF assms(2)] consume_le(1) [OF accepted(3)] by blast
    qed
  qed
  then show "s' = s\<lparr>outgoing_requests := outgoing_requests s',
      search_response_budgets := search_response_budgets s', request_times := request_times s'\<rparr>"
    "count_of (outgoing_requests s') k \<le> count_of (outgoing_requests s) k"
    "count_of (search_response_budgets s') k \<le> count_of (search_response_budgets s) k"
    "requests_ok s'"
    by blast+
qed

lemma track_requests_ok:
  assumes "requests_ok s"
  shows "requests_ok (track_request now ip op s)"
proof -
  let ?t = "track_request now ip op s"
  have out: "outgoing_requests ?t =
      (outgoing_requests s)((ip, op) \<mapsto> sat_inc32 (count_of (outgoing_requests s) (ip, op)))"
    and times: "request_times ?t = (request_times s)((ip, op) \<mapsto> now)"
    and bud: "search_response_budgets ?t = (if 0x33 \<le> op \<and> op \<le> 0x35
      then (search_response_budgets s)((ip, op) \<mapsto>
        sat_add32 (count_of (search_response_budgets s) (ip, op)) SEARCH_RES_BUDGET_PER_REQUEST)
      else search_response_budgets s)"
    by (simp_all add: track_request_def Let_def split: prod.splits)
  have ops: "op \<in> {0x33, 0x34, 0x35}" if "0x33 \<le> op" "op \<le> 0x35"
    using that by (simp add: word_le_nat_alt word_unat_eq_iff) arith
  show ?thesis
  proof (rule requests_okI, goal_cases)
    case (1 k)
    then show ?case using requests_okD(1) [OF assms, of k] out times by simp
  next
    case (2 k n)
    then show ?case
      using requests_okD(2) [OF assms, of k n] out
      by (auto simp: sat_inc32_def u32_max_def split: if_splits)
  next
    case (3 k b)
    show ?case
    proof (cases "k = (ip, op)")
      case True
      then show ?thesis
        using 3 bud out ops requests_okD(3,4) [OF assms, of k b]
        by (auto simp: sat_add32_def u32_max_def flood_consts split: if_splits)
    next
      case False
      then have "search_response_budgets s k = Some b" using 3 bud by (simp split: if_splits)
      then show ?thesis using requests_okD(3-5) [OF assms] out by auto
    qed
  qed
qed

lemma cleanup_requests: "requests_ok s \<Longrightarrow> requests_ok (cleanup now s)"
  by (rule requests_okI)
     (auto simp: cleanup_def Let_def requests_okD split: if_splits dest: requests_okD)
section \<open>The invariant is kept\<close>

lemma cleanup_tables: "tables_ok s \<Longrightarrow> tables_ok (cleanup now s)"
  unfolding tables_ok_def cleanup_def Let_def by (simp add: retain_table)

text \<open>An operation that leaves a group of fields alone keeps what is said of it.\<close>

lemma tables_ok_cong:
  assumes "tables_ok s" "s' = s\<lparr>outgoing_requests := oreq, search_response_budgets := bud,
      request_times := rt, search_bursts := sb, recent_ips := ri\<rparr>"
  shows "tables_ok s'"
  using assms by (simp add: tables_ok_def)

lemma requests_ok_cong:
  assumes "requests_ok s" "outgoing_requests s' = outgoing_requests s"
    "search_response_budgets s' = search_response_budgets s" "request_times s' = request_times s"
  shows "requests_ok s'"
  using assms unfolding requests_ok_def by simp

lemma flood_step_inv:
  assumes "flood_inv s" "flood_step now c s = (r, s')"
  shows "flood_inv s'"
proof -
  note inv = assms(1) [unfolded flood_inv_def tables_ok_def]
  show ?thesis
  proof (cases c)
    case (EmberRate ip known)
    then have "check_ember_rate_limit now ip known s = (r, s')" using assms(2) by simp
    note t = ember_rate_table [OF _ this]
    show ?thesis
      using inv t requests_ok_cong [of s s'] unfolding flood_inv_def tables_ok_def
      by (cases s; cases s') auto
  next
    case (Compressed ip op n)
    then have "over_compressed_budget now ip op n s = (r, s')" using assms(2) by simp
    note t = compressed_table [OF _ this]
    show ?thesis
      using inv t requests_ok_cong [of s s'] unfolding flood_inv_def tables_ok_def
      by (cases s; cases s') auto
  next
    case (Recheck ip known op)
    then have "check_opcode_limit now ip known op s = (r, s')"
      using assms(2) by (simp add: recheck_opcode_limit_post_decrypt_def)
    note t = check_opcode_cases [OF _ this]
    show ?thesis
      using inv t requests_ok_cong [of s s'] unfolding flood_inv_def tables_ok_def by auto
  next
    case (RateLimit ip known op)
    then have "check_rate_limit_with_opcode now ip known op s = (r, s')" using assms(2) by simp
    then obtain r1 s1 where c: "check_opcode_limit now ip known op s = (r1, s1)"
      and f: "s' = s1\<lparr>ip_counters := ip_counters s', ip_order := ip_order s',
         ip_fallback := ip_fallback s', search_bursts := search_bursts s'\<rparr>"
      and t: "table_ok (ip_counters s1) (ip_order s1) MAX_IP_ENTRIES \<Longrightarrow>
         table_ok (ip_counters s') (ip_order s') MAX_IP_ENTRIES"
      using inv by (auto elim: rate_limit_cases)
    have i1: "flood_inv s1"
      using inv check_opcode_cases [OF _ c] requests_ok_cong [of s s1]
      unfolding flood_inv_def tables_ok_def by auto
    have fields: "ember_ip_counters s' = ember_ip_counters s1" "ember_ip_order s' = ember_ip_order s1"
      "opcode_counters s' = opcode_counters s1" "opcode_order s' = opcode_order s1"
      "outgoing_counters s' = outgoing_counters s1" "outgoing_order s' = outgoing_order s1"
      "compressed_counters s' = compressed_counters s1" "compressed_order s' = compressed_order s1"
      "outgoing_requests s' = outgoing_requests s1" "request_times s' = request_times s1"
      "search_response_budgets s' = search_response_budgets s1"
      by (subst f, simp)+
    show ?thesis
      using i1 t requests_ok_cong [of s1 s'] fields unfolding flood_inv_def tables_ok_def by auto
  next
    case (OutgoingRate ip)
    then have "check_outgoing_rate now ip s = (r, s')" using assms(2) by simp
    note t = outgoing_rate_table [OF _ this]
    show ?thesis
      using inv t requests_ok_cong [of s s'] unfolding flood_inv_def tables_ok_def by auto
  next
    case (Track ip op)
    then have s': "s' = track_request now ip op s" using assms(2) by simp
    have "tables_ok s'"
      unfolding s' using assms(1)
      by (auto simp: flood_inv_def tables_ok_def track_request_def Let_def split: prod.splits)
    then show ?thesis using track_requests_ok inv unfolding flood_inv_def s' by blast
  next
    case (Validate ip op)
    then have "validate_response ip op s = (r, s')" using assms(2) by simp
    note t = validate_frame [OF this]
    have "tables_ok s'" using inv t(1) unfolding tables_ok_def by (cases s; cases s') auto
    then show ?thesis using t(4) inv unfolding flood_inv_def by blast
  next
    case Cleanup
    then show ?thesis
      using assms cleanup_tables cleanup_requests by (auto simp: flood_inv_def)
  qed
qed

lemma flood_run_inv: "flood_inv s \<Longrightarrow> flood_run cs s = (rs, s') \<Longrightarrow> flood_inv s'"
proof (induction cs arbitrary: s rs)
  case (Cons c cs)
  obtain now x where c: "c = (now, x)" by (meson surj_pair)
  obtain r s1 where s1: "flood_step now x s = (r, s1)" by (meson surj_pair)
  obtain rs1 where "flood_run cs s1 = (rs1, s')" using Cons.prems(2) c s1 by (auto split: prod.splits)
  then show ?case using Cons.IH flood_step_inv [OF Cons.prems(1) s1] by blast
qed simp

lemma length_flood_run: "flood_run cs s = (rs, s') \<Longrightarrow> length rs = length cs"
  by (induction cs arbitrary: s rs) (auto split: prod.splits)
section \<open>A live opcode counter is enforced\<close>

text \<open>The calls that ask whether a request \<open>op\<close> from \<open>ip\<close> is over its limit.\<close>

fun opcode_call :: "ip_addr \<Rightarrow> u8 \<Rightarrow> flood_call \<Rightarrow> bool option" where
  "opcode_call ip op (Recheck ip' known op') = (if ip' = ip \<and> op' = op then Some known else None)"
| "opcode_call ip op (RateLimit ip' known op') = (if ip' = ip \<and> op' = op then Some known else None)"
| "opcode_call ip op _ = None"

lemma opcode_call_frame:
  assumes "flood_inv s" "flood_step now c s = (r, s')" "is_request_opcode op"
    and live: "map_of (opcode_counters s) (ip, op) = Some (n, t)" "secs_since now t < OPCODE_WINDOW_SECS"
  shows "case opcode_call ip op c of
      None \<Rightarrow> map_of (opcode_counters s') (ip, op) = Some (n, t)
    | Some known \<Rightarrow> map_of (opcode_counters s') (ip, op) = Some (inc32 n, t)
        \<and> (effective_limit known op < inc32 n \<longrightarrow> r)"
proof -
  note inv = assms(1) [unfolded flood_inv_def tables_ok_def]
  have tab: "table_ok (opcode_counters s) (opcode_order s) MAX_OPCODE_ENTRIES" using inv by blast
  have limit: ?thesis
    if c: "check_opcode_limit now ip' known op' s = (r1, s1)" and r1: "r1 \<Longrightarrow> r"
      and s1: "opcode_counters s' = opcode_counters s1"
      and call: "opcode_call ip op c = (if ip' = ip \<and> op' = op then Some known else None)"
    for ip' known op' r1 s1
  proof (cases "ip' = ip \<and> op' = op")
    case True
    then show ?thesis using check_opcode_cases [OF tab c] live assms(3) r1 s1 call by auto
  next
    case False
    then have "(ip, op) \<noteq> (ip', op')" by auto
    then have "map_of (opcode_counters s1) (ip, op) = Some (n, t)"
      using check_opcode_cases [OF tab c] live by (metis snd_conv)
    then show ?thesis using False s1 call by auto
  qed
  show ?thesis
  proof (cases c)
    case (EmberRate ip known)
    then have "opcode_counters s' = opcode_counters s"
      using assms(2) by (auto simp: check_ember_rate_limit_def Let_def split: prod.splits)
    then show ?thesis using EmberRate live by simp
  next
    case (Compressed ip op n)
    then have "s' = s\<lparr>compressed_counters := compressed_counters s', compressed_order := compressed_order s',
        search_bursts := search_bursts s', global_compressed := global_compressed s'\<rparr>"
      using compressed_table assms(2) inv by simp
    then have "opcode_counters s' = opcode_counters s" by (cases s; cases s') simp
    then show ?thesis using Compressed live by simp
  next
    case (Recheck ip' known op')
    then show ?thesis using limit assms(2) by (simp add: recheck_opcode_limit_post_decrypt_def)
  next
    case (RateLimit ip' known op')
    then have "check_rate_limit_with_opcode now ip' known op' s = (r, s')" using assms(2) by simp
    then obtain r1 s1 where c: "check_opcode_limit now ip' known op' s = (r1, s1)" "r1 \<Longrightarrow> r"
      and f: "s' = s1\<lparr>ip_counters := ip_counters s', ip_order := ip_order s',
         ip_fallback := ip_fallback s', search_bursts := search_bursts s'\<rparr>"
      using inv by (auto elim: rate_limit_cases)
    have "opcode_counters s' = opcode_counters s1" by (subst f) simp
    then show ?thesis using limit c RateLimit by simp
  next
    case (OutgoingRate ip)
    then have "\<exists>m order. s' = s\<lparr>outgoing_counters := m, outgoing_order := order\<rparr>"
      using outgoing_rate_table assms(2) inv by (metis flood_step.simps(5))
    then show ?thesis using OutgoingRate live by auto
  next
    case (Track ip op)
    then have "opcode_counters s' = opcode_counters s"
      using assms(2) by (auto simp: track_request_def Let_def split: prod.splits)
    then show ?thesis using Track live by simp
  next
    case (Validate ip op)
    then have "validate_response ip op s = (r, s')" using assms(2) by simp
    then have "s' = s\<lparr>outgoing_requests := outgoing_requests s',
        search_response_budgets := search_response_budgets s', request_times := request_times s'\<rparr>"
      using validate_frame inv by blast
    then have "opcode_counters s' = opcode_counters s" by (cases s; cases s') simp
    then show ?thesis using Validate live by simp
  next
    case Cleanup
    have "map_of (retain_rows (\<lambda>w. secs_since now (snd w) < OPCODE_WINDOW_SECS * 2) (opcode_counters s)) (ip, op)
        = Some (n, t)"
      by (rule map_of_retain) (use tab live in \<open>simp_all add: table_ok_def\<close>)
    then show ?thesis using Cleanup assms(2) by (auto simp: cleanup_def Let_def)
  qed
qed

text \<open>Accepted requests of a key in a run: calls on the key that did not return over-limit.\<close>

definition accepted_requests :: "ip_addr \<Rightarrow> u8 \<Rightarrow> (int \<times> flood_call) list \<Rightarrow> bool list \<Rightarrow> nat" where
  "accepted_requests ip op cs rs =
     length (filter (\<lambda>((now, c), r). opcode_call ip op c \<noteq> None \<and> \<not> r) (zip cs rs))"

lemma effective_limit_mono: "(known \<longrightarrow> kp) \<Longrightarrow> effective_limit known op \<le> effective_limit kp op"
  by (simp add: effective_limit_def)

lemma live_counter_enforced:
  assumes "flood_inv s" "flood_run cs s = (rs, s')" "is_request_opcode op"
    and "map_of (opcode_counters s) (ip, op) = Some (n, t)"
    and "\<forall>(now, c) \<in> set cs. secs_since now t < OPCODE_WINDOW_SECS
      \<and> (\<forall>known. opcode_call ip op c = Some known \<and> known \<longrightarrow> kp)"
    and "n + length cs < 2 ^ 32"
  shows "accepted_requests ip op cs rs \<le> effective_limit kp op - n"
  using assms(1,2,4-6)
proof (induction cs arbitrary: s rs n)
  case (Cons x cs)
  obtain now c where x: "x = (now, c)" by (meson surj_pair)
  obtain r s1 where s1: "flood_step now c s = (r, s1)" by (meson surj_pair)
  obtain rs1 where run: "flood_run cs s1 = (rs1, s')" and rs: "rs = r # rs1"
    using Cons.prems(2) x s1 by (auto split: prod.splits)
  have now: "secs_since now t < OPCODE_WINDOW_SECS" and rest: "\<forall>(now, c) \<in> set cs.
      secs_since now t < OPCODE_WINDOW_SECS \<and> (\<forall>known. opcode_call ip op c = Some known \<and> known \<longrightarrow> kp)"
    using Cons.prems(4) x by auto
  note inv = flood_step_inv [OF Cons.prems(1) s1]
  note f = opcode_call_frame [OF Cons.prems(1) s1 assms(3) Cons.prems(3) now]
  show ?case
  proof (cases "opcode_call ip op c")
    case None
    then have "accepted_requests ip op cs rs1 \<le> effective_limit kp op - n"
      using Cons.IH [OF inv run _ rest] f Cons.prems(5) by simp
    then show ?thesis using None x rs by (simp add: accepted_requests_def)
  next
    case (Some known)
    then have "effective_limit known op \<le> effective_limit kp op"
      using Cons.prems(4) x by (intro effective_limit_mono) auto
    moreover have "inc32 n = n + 1" using Cons.prems(5) by (simp add: inc32_def)
    ultimately have "accepted_requests ip op cs rs1 \<le> effective_limit kp op - (n + 1)"
      "\<not> r \<longrightarrow> n + 1 \<le> effective_limit kp op"
      using Cons.IH [OF inv run _ rest, of "n + 1"] f Some Cons.prems(5) by auto
    then show ?thesis using Some x rs by (auto simp: accepted_requests_def)
  qed
qed (simp add: accepted_requests_def)
section \<open>Accounting of responses\<close>

text \<open>
  The number of responses \<open>rop\<close> that an address may still send: for search results the
  budgets of the outstanding searches, for other responses the outstanding requests.
\<close>

definition allowance :: "flood_protection \<Rightarrow> ip_addr \<Rightarrow> u8 \<Rightarrow> nat" where
  "allowance s ip rop = sum_list (map (\<lambda>op. count_of
     (if rop = 0x3B then search_response_budgets s else outgoing_requests s) (ip, op)) (request_opcodes rop))"

definition per_request :: "u8 \<Rightarrow> nat" where
  "per_request rop = (if rop = 0x3B then SEARCH_RES_BUDGET_PER_REQUEST else 1)"

lemma sum_list_less_nat:
  "(\<And>x. x \<in> set xs \<Longrightarrow> f x \<le> (g x :: nat)) \<Longrightarrow> y \<in> set xs \<Longrightarrow> f y < g y \<Longrightarrow>
   sum_list (map f xs) < sum_list (map g xs)"
proof (induction xs)
  case (Cons x xs)
  have le: "sum_list (map f xs) \<le> sum_list (map g xs)" using Cons.prems(1) by (intro sum_list_mono) simp
  show ?case
  proof (cases "y = x")
    case True
    then show ?thesis using le Cons.prems(3) by simp
  next
    case False
    then show ?thesis using Cons.IH Cons.prems by (simp add: add_le_less_mono)
  qed
qed simp

lemma sum_list_bump:
  "distinct xs \<Longrightarrow> (\<And>x. x \<in> set xs \<Longrightarrow> f x \<le> (g x :: nat) + (if x = y then d else 0)) \<Longrightarrow>
   sum_list (map f xs) \<le> sum_list (map g xs) + (if y \<in> set xs then d else 0)"
proof (induction xs)
  case (Cons x xs)
  then have "sum_list (map f xs) \<le> sum_list (map g xs) + (if y \<in> set xs then d else 0)" by simp
  moreover have "f x \<le> g x + (if x = y then d else 0)" using Cons.prems(2) by simp
  moreover have "x = y \<Longrightarrow> y \<notin> set xs" using Cons.prems(1) by auto
  ultimately show ?case by (cases "x = y") auto
qed simp

lemma distinct_request_opcodes: "distinct (request_opcodes rop)"
  by (simp add: request_opcodes_def split: option.split)

lemma allowance_mono:
  assumes "\<And>k. count_of (outgoing_requests s') k \<le> count_of (outgoing_requests s) k"
    and "\<And>k. count_of (search_response_budgets s') k \<le> count_of (search_response_budgets s) k"
  shows "allowance s' ip rop \<le> allowance s ip rop"
  unfolding allowance_def by (rule sum_list_mono) (simp add: assms)

lemma allowance_validate:
  assumes "validate_response ip rop s = (True, s')" "requests_ok s"
  shows "allowance s' ip rop < allowance s ip rop"
proof (cases "rop = 0x3B")
  case True
  then have v: "take_search_budget ip [0x33, 0x34, 0x35] s = (True, s')"
    using assms(1) by (simp add: validate_response_def request_for_def)
  have "\<exists>c \<in> set (request_opcodes rop). count_of (search_response_budgets s') (ip, c)
      < count_of (search_response_budgets s) (ip, c)"
    using search_budget_effect [OF v assms(2)] True by (simp add: request_opcodes_def)
  then obtain c where "c \<in> set (request_opcodes rop)" "count_of (search_response_budgets s') (ip, c)
      < count_of (search_response_budgets s) (ip, c)" by blast
  then show ?thesis
    unfolding allowance_def using True validate_frame(3) [OF assms]
    by (intro sum_list_less_nat) auto
next
  case False
  from assms(1) False obtain op where "op \<in> set (request_opcodes rop)"
    "consume_outgoing (ip, op) s = (True, s')"
    by (auto elim: validate_consumes)
  then show ?thesis
    unfolding allowance_def using False consume_le(1,2) [of "(ip, op)" s True s']
    by (intro sum_list_less_nat) auto
qed

lemma allowance_track:
  "allowance (track_request now ip' op s) ip rop
     \<le> allowance s ip rop + (if ip' = ip \<and> op \<in> set (request_opcodes rop) then per_request rop else 0)"
proof -
  let ?t = "track_request now ip' op s"
  have out: "count_of (outgoing_requests ?t) k \<le> count_of (outgoing_requests s) k + (if k = (ip', op) then 1 else 0)"
    for k
    by (simp add: track_request_def Let_def count_of_def sat_inc32_def split: prod.splits)
  have bud: "count_of (search_response_budgets ?t) k
      \<le> count_of (search_response_budgets s) k + (if k = (ip', op) then SEARCH_RES_BUDGET_PER_REQUEST else 0)"
    for k
    by (simp add: track_request_def Let_def count_of_def sat_add32_def split: prod.splits)
  have "count_of (if rop = 0x3B then search_response_budgets ?t else outgoing_requests ?t) (ip, x)
      \<le> count_of (if rop = 0x3B then search_response_budgets s else outgoing_requests s) (ip, x)
        + (if x = op then if ip' = ip then per_request rop else 0 else 0)" for x
    using out [of "(ip, x)"] bud [of "(ip, x)"] by (auto simp: per_request_def split: if_splits)
  then have "allowance ?t ip rop \<le> allowance s ip rop
      + (if op \<in> set (request_opcodes rop) then if ip' = ip then per_request rop else 0 else 0)"
    unfolding allowance_def by (intro sum_list_bump [OF distinct_request_opcodes])
  then show ?thesis by (auto split: if_splits)
qed

lemma allowance_cleanup: "allowance (cleanup now s) ip rop \<le> allowance s ip rop"
  by (rule allowance_mono) (simp_all add: cleanup_def Let_def count_of_def)

text \<open>What a call adds to the allowance, and whether it spends it.\<close>

fun tracks :: "ip_addr \<Rightarrow> u8 \<Rightarrow> flood_call \<Rightarrow> bool" where
  "tracks ip rop (Track ip' op) \<longleftrightarrow> ip' = ip \<and> op \<in> set (request_opcodes rop)"
| "tracks ip rop _ \<longleftrightarrow> False"

lemma allowance_step:
  assumes "flood_inv s" "flood_step now c s = (r, s')"
  shows "allowance s' ip rop + (if c = Validate ip rop \<and> r then 1 else 0)
    \<le> allowance s ip rop + (if tracks ip rop c then per_request rop else 0)"
proof -
  note inv = assms(1) [unfolded flood_inv_def tables_ok_def]
  have same: ?thesis if "outgoing_requests s' = outgoing_requests s"
    "search_response_budgets s' = search_response_budgets s" "c \<noteq> Validate ip rop"
    using that by (simp add: allowance_def)
  show ?thesis
  proof (cases c)
    case (EmberRate ip known)
    then show ?thesis
      using assms(2) by (intro same) (auto simp: check_ember_rate_limit_def Let_def split: prod.splits)
  next
    case (Compressed ip op n)
    then have "s' = s\<lparr>compressed_counters := compressed_counters s', compressed_order := compressed_order s',
        search_bursts := search_bursts s', global_compressed := global_compressed s'\<rparr>"
      using compressed_table assms(2) inv by simp
    then show ?thesis using Compressed by (intro same) (cases s; cases s'; simp)+
  next
    case (Recheck ip' known op')
    then have "check_opcode_limit now ip' known op' s = (r, s')"
      using assms(2) by (simp add: recheck_opcode_limit_post_decrypt_def)
    then show ?thesis using check_opcode_cases inv Recheck by (intro same) fastforce+
  next
    case (RateLimit ip' known op')
    then have "check_rate_limit_with_opcode now ip' known op' s = (r, s')" using assms(2) by simp
    then obtain r1 s1 where c: "check_opcode_limit now ip' known op' s = (r1, s1)"
      and f: "s' = s1\<lparr>ip_counters := ip_counters s', ip_order := ip_order s',
         ip_fallback := ip_fallback s', search_bursts := search_bursts s'\<rparr>"
      using inv by (auto elim: rate_limit_cases)
    have "outgoing_requests s' = outgoing_requests s1"
      "search_response_budgets s' = search_response_budgets s1"
      by (subst f, simp)+
    then show ?thesis using check_opcode_cases [OF _ c] inv RateLimit by (intro same) fastforce+
  next
    case (OutgoingRate ip')
    then have "\<exists>m order. s' = s\<lparr>outgoing_counters := m, outgoing_order := order\<rparr>"
      using outgoing_rate_table assms(2) inv by (metis flood_step.simps(5))
    then show ?thesis using OutgoingRate by (intro same) auto
  next
    case (Track ip' op)
    then show ?thesis using assms(2) allowance_track [of now ip' op s ip rop] by auto
  next
    case (Validate ip' op)
    then have v: "validate_response ip' op s = (r, s')" using assms(2) by simp
    have "allowance s' ip rop \<le> allowance s ip rop"
      using validate_frame(2,3) [OF v] inv by (intro allowance_mono) blast+
    moreover have "allowance s' ip rop < allowance s ip rop" if "ip' = ip" "op = rop" r
      using allowance_validate v inv that by auto
    ultimately show ?thesis using Validate by auto
  next
    case Cleanup
    then show ?thesis using assms(2) allowance_cleanup by auto
  qed
qed

definition accepted_responses :: "ip_addr \<Rightarrow> u8 \<Rightarrow> (int \<times> flood_call) list \<Rightarrow> bool list \<Rightarrow> nat" where
  "accepted_responses ip rop cs rs =
     length (filter (\<lambda>((now, c), r). c = Validate ip rop \<and> r) (zip cs rs))"

definition tracked_requests :: "ip_addr \<Rightarrow> u8 \<Rightarrow> (int \<times> flood_call) list \<Rightarrow> nat" where
  "tracked_requests ip rop cs = length (filter (\<lambda>(now, c). tracks ip rop c) cs)"

lemma allowance_run:
  assumes "flood_inv s" "flood_run cs s = (rs, s')"
  shows "allowance s' ip rop + accepted_responses ip rop cs rs
    \<le> allowance s ip rop + per_request rop * tracked_requests ip rop cs"
  using assms
proof (induction cs arbitrary: s rs)
  case (Cons x cs)
  obtain now c where x: "x = (now, c)" by (meson surj_pair)
  obtain r s1 where s1: "flood_step now c s = (r, s1)" by (meson surj_pair)
  obtain rs1 where run: "flood_run cs s1 = (rs1, s')" and rs: "rs = r # rs1"
    using Cons.prems(2) x s1 by (auto split: prod.splits)
  have "allowance s' ip rop + accepted_responses ip rop cs rs1
      \<le> allowance s1 ip rop + per_request rop * tracked_requests ip rop cs"
    using Cons.IH [OF flood_step_inv [OF Cons.prems(1) s1] run] .
  moreover note allowance_step [OF Cons.prems(1) s1, of ip rop]
  moreover have "accepted_responses ip rop (x # cs) rs =
      (if c = Validate ip rop \<and> r then 1 else 0) + accepted_responses ip rop cs rs1"
    "tracked_requests ip rop (x # cs) = (if tracks ip rop c then 1 else 0) + tracked_requests ip rop cs"
    by (simp_all add: accepted_responses_def tracked_requests_def x rs)
  ultimately show ?case by (auto split: if_splits)
qed (simp add: accepted_responses_def tracked_requests_def)

lemma allowance_new: "allowance (flood_new now) ip rop = 0"
  by (simp add: allowance_def flood_new_def count_of_def sum_list_eq_0_iff)
section \<open>Eviction makes progress\<close>

text \<open>The order after \<open>n\<close> probes that found nothing: the front moved to the back.\<close>

lemma evict_loop_rotates:
  assumes "set order \<subseteq> fst ` set m" "n \<le> length order"
    and "\<And>key. key \<in> set (take n order) \<Longrightarrow> \<not> idle (the (map_of m key))"
  shows "evict_loop n idle m order = (False, m, rotate n order)"
  using assms
proof (induction n arbitrary: order)
  case (Suc n)
  then obtain key rest where o: "order = key # rest" by (cases order) auto
  then obtain v where v: "map_of m key = Some v"
    using Suc.prems(1) map_of_key [of m key] by auto
  have "set (take n (rest @ [key])) \<subseteq> set (take (Suc n) order)"
    using Suc.prems(2) o by auto
  then have "evict_loop n idle m (rest @ [key]) = (False, m, rotate n (rest @ [key]))"
    using Suc.prems o by (intro Suc.IH) auto
  then show ?case using o v Suc.prems(3) [of key] by (simp add: rotate1_rotate_swap)
qed simp

lemma evict_loop_finds:
  assumes "set order \<subseteq> fst ` set m" "i < n" "i < length order" "idle (the (map_of m (order ! i)))"
  shows "fst (evict_loop n idle m order)"
  using assms
proof (induction n arbitrary: order i)
  case (Suc n)
  then obtain key rest where o: "order = key # rest" by (cases order) auto
  then obtain v where v: "map_of m key = Some v"
    using Suc.prems(1) map_of_key [of m key] by auto
  show ?case
  proof (cases "idle v")
    case False
    then obtain j where j: "i = Suc j" using Suc.prems(4) o v by (cases i) auto
    have "fst (evict_loop n idle m (rest @ [key]))"
      using Suc.prems o j by (intro Suc.IH [of _ j]) (auto simp: nth_append)
    then show ?thesis using o v False by simp
  qed (simp add: o v)
qed simp

text \<open>Repeated attempts to make room, as calls from new sources make them.\<close>

fun evict_attempts :: "nat \<Rightarrow> ('k \<times> 'v) list \<Rightarrow> 'k list \<Rightarrow> ('v \<Rightarrow> bool) \<Rightarrow> bool" where
  "evict_attempts 0 m order idle = False"
| "evict_attempts (Suc n) m order idle =
     (case evict_idle m order idle of
        (ev, m', order') \<Rightarrow> ev \<or> evict_attempts n m' order' idle)"

lemma evict_attempts_succeed:
  assumes "set order \<subseteq> fst ` set m" "i < length order" "idle (the (map_of m (order ! i)))"
    and "i < EVICTION_PROBES * n"
  shows "evict_attempts n m order idle"
  using assms
proof (induction n arbitrary: order i)
  case (Suc n)
  show ?case
  proof (cases "\<exists>key \<in> set (take EVICTION_PROBES order). idle (the (map_of m key))")
    case True
    then obtain j where "j < EVICTION_PROBES" "j < length order" "idle (the (map_of m (order ! j)))"
      by (auto simp: in_set_conv_nth)
    then have "fst (evict_idle m order idle)"
      using evict_loop_finds [of order m j EVICTION_PROBES idle] Suc.prems(1) by (simp add: evict_idle_def)
    then show ?thesis by (auto split: prod.splits)
  next
    case False
    have far: "EVICTION_PROBES \<le> i"
    proof (rule ccontr)
      assume "\<not> EVICTION_PROBES \<le> i"
      then have "order ! i \<in> set (take EVICTION_PROBES order)"
        using Suc.prems(2) by (auto simp: in_set_conv_nth intro!: exI [of _ i])
      then show False using False Suc.prems(3) by blast
    qed
    have "evict_idle m order idle = (False, m, rotate EVICTION_PROBES order)"
      unfolding evict_idle_def using Suc.prems(1,2) far False by (intro evict_loop_rotates) auto
    moreover have "rotate EVICTION_PROBES order ! (i - EVICTION_PROBES) = order ! i"
      using Suc.prems(2) far by (simp add: nth_rotate)
    then have "evict_attempts n m (rotate EVICTION_PROBES order) idle"
      using Suc.prems far by (intro Suc.IH [of _ "i - EVICTION_PROBES"]) auto
    ultimately show ?thesis by simp
  qed
qed simp

end
