(* ===== verification/Flood_Props.thy ===== *)
theory Flood_Props
  imports Flood_Laws
begin

text \<open>
  Properties of the flood protection: its invariant over all runs, the enforcement of opcode
  limits, the accounting of responses, the verdict on compressed packets and the progress of
  eviction.
\<close>

unbundle bit_operations_syntax

section \<open>Runs as a transition system\<close>

definition flood_start :: "flood_protection \<Rightarrow> bool" where
  "flood_start s \<longleftrightarrow> (\<exists>now. s = flood_new now)"

definition flood_moves :: "flood_protection \<Rightarrow> flood_protection \<Rightarrow> bool" where
  "flood_moves s s' \<longleftrightarrow> (\<exists>now c. s' = snd (flood_step now c s))"

interpretation flood: guarded_system flood_start flood_moves flood_inv
proof
  show "flood_inv s" if "flood_start s" for s
    using that flood_inv_new by (auto simp: flood_start_def)
  show "flood_inv t" if "flood_inv s" "flood_moves s t" for s t
    using that flood_step_inv unfolding flood_moves_def by (metis prod.collapse)
qed

lemma flood_run_moves: "flood_moves\<^sup>*\<^sup>* s (snd (flood_run cs s))"
proof (induction cs arbitrary: s)
  case (Cons x cs)
  obtain now c where x: "x = (now, c)" by (meson surj_pair)
  have "flood_moves s (snd (flood_step now c s))" unfolding flood_moves_def by blast
  moreover have "snd (flood_run (x # cs) s) = snd (flood_run cs (snd (flood_step now c s)))"
    by (simp add: x split: prod.splits)
  ultimately show ?case using Cons.IH converse_rtranclp_into_rtranclp by metis
qed simp

lemma reachable_flood_inv: "flood_inv (snd (flood_run cs (flood_new t0)))"
  by (rule flood.reachable_inv [OF _ flood_run_moves]) (auto simp: flood_start_def)

section \<open>Properties\<close>

text \<open>
  C26: the state of the flood protection after any sequence of calls. Each counter table holds
  at most its capacity, without duplicate keys, and its eviction queue lists exactly its keys,
  once each, so that no row escapes the probes. A request has a positive count exactly when
  it has a send time, and only outstanding searches have a budget of result packets, which is
  positive.
\<close>

theorem reachable_flood_state:
  "let s = snd (flood_run cs (flood_new t0)) in
     table_ok (ip_counters s) (ip_order s) 10000
     \<and> table_ok (ember_ip_counters s) (ember_ip_order s) 10000
     \<and> table_ok (opcode_counters s) (opcode_order s) 50000
     \<and> table_ok (outgoing_counters s) (outgoing_order s) 10000
     \<and> table_ok (compressed_counters s) (compressed_order s) 10000
     \<and> dom (outgoing_requests s) = dom (request_times s)
     \<and> 0 \<notin> ran (outgoing_requests s) \<and> 0 \<notin> ran (search_response_budgets s)
     \<and> dom (search_response_budgets s) \<subseteq> dom (outgoing_requests s) \<inter> UNIV \<times> {0x33, 0x34, 0x35}"
proof -
  define s where "s = snd (flood_run cs (flood_new t0))"
  have "flood_inv s" unfolding s_def by (rule reachable_flood_inv)
  then have tabs: "tables_ok s" and req: "requests_ok s" by (simp_all add: flood_inv_def)
  note d = requests_okD [OF req]
  have "dom (outgoing_requests s) = dom (request_times s)" unfolding dom_def by (simp add: d(1))
  moreover have "0 \<notin> ran (outgoing_requests s)" "0 \<notin> ran (search_response_budgets s)"
    using d(2,3) by (fastforce simp: ran_def)+
  moreover have "dom (search_response_budgets s) \<subseteq> dom (outgoing_requests s) \<inter> UNIV \<times> {0x33, 0x34, 0x35}"
    using d(4,5) by (fastforce simp: mem_Times_iff)
  ultimately show ?thesis
    using tabs unfolding Let_def s_def [symmetric] by (simp add: tables_ok_def flood_consts)
qed

text \<open>
  C21: a live opcode counter cannot be shaken off. Once an address has a counter for a request
  opcode, then during its window of 15 seconds the calls accepted for it are at most what the
  limit leaves, whatever other calls come in between: packets from other sources that fill
  the tables and evict rows, other opcodes, cleanup. The limit is the one for known peers if
  the address is known in one of the calls. The last hypothesis keeps the 32-bit counter from
  wrapping.
\<close>

theorem opcode_limit_enforced:
  assumes "map_of (opcode_counters (snd (flood_run pre (flood_new t0)))) (ip, op) = Some (n, t)"
    and "is_request_opcode op"
    and "\<forall>(now, c) \<in> set cs. secs_since now t < 15
      \<and> (\<forall>known. opcode_call ip op c = Some known \<and> known \<longrightarrow> kp)"
    and "n + length cs < 2 ^ 32"
  shows "accepted_requests ip op cs (fst (flood_run cs (snd (flood_run pre (flood_new t0)))))
    \<le> effective_limit kp op - n"
  using live_counter_enforced [OF reachable_flood_inv prod.collapse [symmetric] assms(2,1) _ assms(4)]
    assms(3) by (simp add: flood_consts)

theorem opcode_limit_enforced_witness:
  "map_of (opcode_counters (snd (flood_run [(0, RateLimit (V4 7) False 0x60)] (flood_new 0)))) (V4 7, 0x60)
      = Some (1, 0)
   \<and> accepted_requests (V4 7) 0x60
       [(1, RateLimit (V4 7) False 0x60), (2, Cleanup), (3, Recheck (V4 7) False 0x60),
        (4, RateLimit (V4 7) False 0x60)]
       (fst (flood_run
       [(1, RateLimit (V4 7) False 0x60), (2, Cleanup), (3, Recheck (V4 7) False 0x60),
        (4, RateLimit (V4 7) False 0x60)]
         (snd (flood_run [(0, RateLimit (V4 7) False 0x60)] (flood_new 0))))) \<le> 2"
proof
  show c: "map_of (opcode_counters (snd (flood_run [(0, RateLimit (V4 7) False 0x60)] (flood_new 0))))
      (V4 7, 0x60) = Some (1, 0)"
    by (simp add: check_rate_limit_with_opcode_def check_opcode_limit_def is_request_opcode_def Let_def
        flood_new_def flood_consts charge_def secs_since_def entry_or_def effective_limit_def opcode_limit_def
        inc32_def over_per_ip_budget_def)
  show "accepted_requests (V4 7) 0x60
       [(1, RateLimit (V4 7) False 0x60), (2, Cleanup), (3, Recheck (V4 7) False 0x60),
        (4, RateLimit (V4 7) False 0x60)]
       (fst (flood_run
       [(1, RateLimit (V4 7) False 0x60), (2, Cleanup), (3, Recheck (V4 7) False 0x60),
        (4, RateLimit (V4 7) False 0x60)]
         (snd (flood_run [(0, RateLimit (V4 7) False 0x60)] (flood_new 0))))) \<le> 2"
    using opcode_limit_enforced [OF c, of "[(1, RateLimit (V4 7) False 0x60), (2, Cleanup),
        (3, Recheck (V4 7) False 0x60), (4, RateLimit (V4 7) False 0x60)]" False]
    by (simp add: is_request_opcode_def secs_since_def effective_limit_def opcode_limit_def)
qed

text \<open>
  Unsolicited responses are refused. In every run, the responses of one kind accepted from
  an address are at most the requests of the matching opcodes sent to it, or 64 times as many
  for search results, which answer one request with several packets. Nothing else creates an
  allowance, and no response counts twice.
\<close>

theorem responses_never_exceed_requests:
  "accepted_responses ip rop cs (fst (flood_run cs (flood_new t0)))
     \<le> (if rop = 0x3B then 64 else 1) * tracked_requests ip rop cs"
  using allowance_run [OF flood_inv_new prod.collapse [symmetric], of cs t0 ip rop]
  by (auto simp: allowance_new per_request_def flood_consts)

text \<open>
  C27: the verdict on a compressed packet. An answer to one of our requests is refused only when
  its source is over its own budget of 10 packets or 64 KiB per second; no other traffic can
  make it refused. A packet that answers nothing is accepted only while the aggregate of all
  sources is within 1000 packets and 1 MiB per second.
\<close>

theorem compressed_verdict:
  "let (refused, s') = over_compressed_budget now ip op wire s in
     (if answers_outstanding_request s ip op
      then refused \<longrightarrow> (\<exists>n b t. map_of (compressed_counters s') ip = Some (n, b, t)
             \<and> (10 < n \<or> 64 * 1024 < b))
      else \<not> refused \<longrightarrow> (\<exists>n b t. global_compressed s' = (n, b, t) \<and> n \<le> 1000 \<and> b \<le> 1024 * 1024))"
proof -
  obtain r s' where c: "over_compressed_budget now ip op wire s = (r, s')" by (meson surj_pair)
  let ?sol = "answers_outstanding_request s ip op"
  have agg: "(?sol \<longrightarrow> \<not> r) \<and> (\<not> ?sol \<longrightarrow> \<not> r \<longrightarrow>
      (\<exists>n b t. global_compressed s' = (n, b, t) \<and> n \<le> 1000 \<and> b \<le> 1024 * 1024))"
    if "charge_global now wire ?sol u = (r, s')" for u
    using that by (cases "charge_compressed now wire (global_compressed u)")
      (auto simp: charge_global_def Let_def flood_consts split: if_splits)
  from c have "if ?sol then r \<longrightarrow> (\<exists>n b t. map_of (compressed_counters s') ip = Some (n, b, t)
             \<and> (10 < n \<or> 64 * 1024 < b))
      else \<not> r \<longrightarrow> (\<exists>n b t. global_compressed s' = (n, b, t) \<and> n \<le> 1000 \<and> b \<le> 1024 * 1024)"
  proof (cases rule: compressed_cases)
    case (no_slot s1)
    show ?thesis using agg [OF no_slot(2)] by auto
  next
    case (slot s1 e s2 s3)
    have "compressed_counters s3 = compressed_counters s2" by (subst slot(4)) simp
    then have "map_of (compressed_counters s3) ip = Some e" by (simp add: slot(3) update_conv')
    then show ?thesis using slot(5) agg [of s3] by (cases e) (auto simp: flood_consts)
  qed
  then show ?thesis unfolding c by simp
qed

theorem compressed_verdict_witness:
  "fst (over_compressed_budget 5 (V4 9) 0x29 100 (flood_new 5)) = False
   \<and> (case over_compressed_budget 5 (V4 9) 0x29 100 (flood_new 5) of
        (_, s') \<Rightarrow> (\<exists>n b t. global_compressed s' = (n, b, t) \<and> n \<le> 1000 \<and> b \<le> 1024 * 1024))"
proof -
  have v: "over_compressed_budget 5 (V4 9) 0x29 100 (flood_new 5) = (False, (flood_new 5)
      \<lparr>compressed_counters := [(V4 9, 1, 100, 5)], compressed_order := [V4 9], global_compressed := (1, 100, 5)\<rparr>)"
    by (simp add: over_compressed_budget_def compressed_slot_def flood_new_def charge_compressed_def
        charge_global_def entry_or_def secs_since_def flood_consts sat_inc32_def sat_add64_def u32_max_def
        Let_def)
  have "\<not> answers_outstanding_request (flood_new 5) (V4 9) 0x29"
    by (simp add: answers_outstanding_request_def flood_new_def)
  then show ?thesis using compressed_verdict [of 5 "V4 9" "0x29" 100 "flood_new 5"] v by simp
qed



end
