(* ===== verification/Udp_Laws.thy ===== *)
theory Udp_Laws
  imports Udp_Receive Kad_Message_Props Flood_Props
begin

text \<open>
  Lemmas on the receive path: every datagram is a short sequence of calls of the flood
  protection, among them an accepted one for what is dispatched, and a whole run of the
  network state is a run of the flood protection.
\<close>

unbundle bit_operations_syntax

section \<open>The flood protection behind the receive path\<close>

lemma flood_run_append:
  "flood_run (cs @ ds) s = (case flood_run cs s of (rs, s1) \<Rightarrow>
     case flood_run ds s1 of (qs, s2) \<Rightarrow> (rs @ qs, s2))"
  by (induction cs arbitrary: s) (auto split: prod.splits)

lemma flood_run_snoc:
  "flood_run cs s = (rs, s1) \<Longrightarrow> flood_step now c s1 = (r, s2) \<Longrightarrow>
   flood_run (cs @ [(now, c)]) s = (rs @ [r], s2)"
  by (simp add: flood_run_append)

text \<open>
  \<open>calls\<close> explains what happened to the flood protection between two states: the calls made,
  all at one time and none to track a request, with their results.
\<close>

definition explains ::
  "int \<Rightarrow> (flood_call \<times> bool) list \<Rightarrow> net_state \<Rightarrow> net_state \<Rightarrow> bool" where
  "explains now calls s s' \<longleftrightarrow>
     flood_run (map (\<lambda>(c, r). (now, c)) calls) (flood s) = (map snd calls, flood s')
     \<and> (\<forall>c r ip op. (c, r) \<in> set calls \<longrightarrow> c \<noteq> Track ip op)"

lemma explains_none: "flood s' = flood s \<Longrightarrow> explains now [] s s'"
  by (simp add: explains_def)

lemma explains_step:
  "explains now calls s s1 \<Longrightarrow> flood_step now c (flood s1) = (r, flood s2) \<Longrightarrow>
   (\<And>ip op. c \<noteq> Track ip op) \<Longrightarrow> explains now (calls @ [(c, r)]) s s2"
  unfolding explains_def by (auto simp: flood_run_snoc)

lemma explains_frame:
  "explains now calls s s1 \<Longrightarrow> flood s2 = flood s1 \<Longrightarrow> explains now calls s s2"
  by (simp add: explains_def)

lemma explains_start:
  "flood s1 = flood s \<Longrightarrow> explains now calls s1 s2 \<Longrightarrow> explains now calls s s2"
  by (simp add: explains_def)

lemma explains_trans:
  "explains now cs s s1 \<Longrightarrow> explains now ds s1 s2 \<Longrightarrow> explains now (cs @ ds) s s2"
  unfolding explains_def by (auto simp: flood_run_append)

lemma charge_packed_explains:
  assumes "charge_packed inow ip op data s = (over, s')"
  obtains calls where "explains inow calls s s'" "length calls \<le> 1"
proof (cases "data \<noteq> [] \<and> hd data = OP_KADEMLIAPACKEDPROT")
  case True
  then have "flood_step inow (Compressed ip op (length data)) (flood s) = (over, flood s')"
    using assms by (auto simp: charge_packed_def split: prod.splits)
  then show thesis
    using that [of "[(Compressed ip op (length data), over)]"]
      explains_step [OF explains_none [OF refl]] by force
next
  case False
  then show thesis using that [of "[]"] assms explains_none by (auto simp: charge_packed_def)
qed

lemma flood_count_obfuscated [simp]: "flood (count_obfuscated m s) = flood s"
  by (simp add: count_obfuscated_def Let_def)

text \<open>A request that leaves the deobfuscation has been checked under its real opcode.\<close>

lemma decode_obfuscated_explains:
  assumes "decode_obfuscated md5 zlib raw inow unow ip known data s = (out, s')"
  obtains calls where "explains inow calls s s'" "length calls \<le> 2"
    "\<And>m k v op. out = Some (m, k, v) \<Longrightarrow> request_wire_opcode m = Some op \<Longrightarrow>
       (Recheck ip known op, False) \<in> set calls"
proof (cases "try_decrypt_kad_packet md5 data (my_kad_id s) (my_user_hash s) (receiver_vk md5 ip s) (ip_u32 ip)")
  case None
  then show thesis
    using that [of "[]"] assms by (auto simp: decode_obfuscated_def explains_none)
next
  case (Some d)
  let ?op = "if 1 < length (payload d) then payload d ! 1 else 0"
  let ?k = "map_option (\<lambda>k. received k (case my_external_ip s of None \<Rightarrow> 0 | Some e \<Rightarrow> e)) (sender_verify_key d)"
  obtain over s1 where c: "charge_packed inow ip ?op (payload d) s = (over, s1)" by (meson surj_pair)
  obtain calls where e: "explains inow calls s s1" "length calls \<le> 1"
    using charge_packed_explains [OF c] .
  note unf = assms [unfolded decode_obfuscated_def Some Let_def, simplified c option.case prod.case]
  show thesis
  proof (cases "decode_packet zlib raw unow (payload d)")
    case (Inl err)
    then show thesis using that [of calls] e unf by (auto split: if_splits)
  next
    case (Inr m)
    show thesis
    proof (cases "over \<or> request_wire_opcode m = None")
      case True
      then have "out = None \<and> s' = s1 \<or> request_wire_opcode m = None
          \<and> out = Some (m, ?k, valid_receiver_key d) \<and> s' = count_obfuscated m s1"
        using unf Inr by (auto split: if_splits)
      then have "flood s' = flood s1" "\<And>m' k v. out = Some (m', k, v) \<Longrightarrow> request_wire_opcode m' = None" by auto
      then show thesis using that [of calls] e explains_frame [OF e(1)] by force
    next
      case False
      then obtain op where op: "request_wire_opcode m = Some op" by auto
      obtain r fl where r: "recheck_opcode_limit_post_decrypt inow ip known op (flood s1) = (r, fl)"
        by (meson surj_pair)
      have s': "out = (if r then None else Some (m, ?k, valid_receiver_key d))" "flood s' = fl"
        using unf Inr False op r by (auto split: if_splits)
      have "flood_step inow (Recheck ip known op) (flood s1) = (r, flood s')" using r s'(2) by simp
      then have "explains inow (calls @ [(Recheck ip known op, r)]) s s'"
        by (rule explains_step [OF e(1)]) simp
      then show thesis
        by (rule that) (use e(2) s'(1) op in \<open>auto split: if_splits\<close>)
    qed
  qed
qed

text \<open>A decoded packet carries its opcode where the rate limit looked for it.\<close>

lemma decode_message_request:
  assumes "decode_message now op body = Inr m"
  shows "request_wire_opcode m = (if is_request_opcode op then Some op else None)"
proof -
  note branches = decode_hello_req_def decode_hello_res_def decode_bootstrap_res_def
    decode_hello_res_ack_def decode_req_def decode_res_def
    decode_search_source_req_def decode_search_res_def decode_publish_key_req_def
    decode_publish_source_req_def decode_publish_res_def decode_search_notes_req_def
    decode_publish_notes_req_def decode_pong_def decode_firewalled_req_def
    decode_firewalled2_req_def decode_firewalled_res_def decode_firewalludp_def
    decode_findbuddy_req_def decode_findbuddy_res_def decode_callback_req_def
    decode_search_res_old_def decode_publish_res_old_def
  show ?thesis
    using assms unfolding decode_message_def
    by (simp add: is_request_opcode_def opcodes split: if_splits;
        auto simp: branches bind_r_Inr_iff Let_def opcodes split: if_splits prod.splits elim!: decode_search_key_cases)
qed

lemma decode_packet_hint:
  assumes "decode_packet zlib raw unow data = Inr m" "request_wire_opcode m = Some op"
  shows "opcode_hint data = op"
proof -
  obtain header opcode rest body where d: "data = header # opcode # rest"
    "header = OP_KADEMLIAHEADER \<or> header = OP_KADEMLIAPACKEDPROT" "decode_message unow opcode body = Inr m"
  proof (cases data)
    case (Cons header rest)
    then show thesis using that assms(1)
      by (cases rest) (auto simp: decode_packet_def bind_r_Inr_iff neq_Nil_conv split: if_splits list.splits)
  qed (use assms(1) in \<open>simp add: decode_packet_def\<close>)
  have "op = opcode" using decode_message_request [OF d(3)] assms(2) by (auto split: if_splits)
  then show ?thesis
    using d(1,2) by (auto simp: opcode_hint_def plain_header_def first_byte_def opcodes)
qed

lemma decode_datagram_explains:
  assumes "decode_datagram md5 zlib raw inow unow ip known data s = (out, s')"
  obtains calls where "explains inow calls s s'" "length calls \<le> 2"
    "\<And>m k v op. out = Some (m, k, v) \<Longrightarrow> request_wire_opcode m = Some op \<Longrightarrow>
       opcode_hint data = op \<or> (Recheck ip known op, False) \<in> set calls"
proof (cases "decode_packet zlib raw unow data")
  case (Inr m)
  then show thesis
    using that [of "[]"] assms decode_packet_hint [OF Inr] by (auto simp: decode_datagram_def explains_none)
next
  case (Inl e)
  then have "decode_obfuscated md5 zlib raw inow unow ip known data s = (out, s')"
    using assms by (simp add: decode_datagram_def)
  then show thesis using decode_obfuscated_explains that by metis
qed

lemma admit_response_explains:
  assumes "admit_response ip rm s = (out, s')"
  obtains calls where "explains inow calls s s'" "length calls \<le> 1" "out \<noteq> None \<Longrightarrow> out = Some rm"
    "\<And>rop. out \<noteq> None \<Longrightarrow> response_opcode (fst rm) = Some rop \<Longrightarrow> (Validate ip rop, True) \<in> set calls"
proof -
  define s1 where "s1 = (if is_publish_res (fst rm)
    then s\<lparr>publish_res_wire := sat_add64 (publish_res_wire s) 1\<rparr> else s)"
  have s1: "flood s1 = flood s" by (simp add: s1_def)
  show thesis
  proof (cases "response_opcode (fst rm)")
    case None
    then have "out = Some rm" "s' = s1"
      using assms by (simp_all add: admit_response_def Let_def s1_def)
    then show thesis using that [of "[]"] s1 None by (simp add: explains_none)
  next
    case (Some rop)
    obtain r fl where r: "validate_response ip rop (flood s1) = (r, fl)" by (meson surj_pair)
    have o: "out = (if r then Some rm else None)" "flood s' = fl"
      using assms Some r unfolding admit_response_def Let_def s1_def [symmetric]
      by (auto split: bool.splits if_splits)
    have "flood_step inow (Validate ip rop) (flood s) = (r, flood s')" using r o(2) s1 by simp
    then have "explains inow [(Validate ip rop, r)] s s'"
      using explains_step [OF explains_none [OF refl]] by force
    then show thesis using that [of "[(Validate ip rop, r)]"] o(1) Some by (auto split: if_splits)
  qed
qed

text \<open>
  What one datagram does to the flood protection: at most five calls, among them an accepted
  check of the request opcode and an accepted validation of the response, if it is dispatched.
\<close>

lemma receive_explains:
  assumes "receive_kad md5 zlib raw inow unow from port data s = (out, s')"
  obtains calls where "explains inow calls s s'" "length calls \<le> 5"
    "\<And>m k v op. out = Some (m, k, v) \<Longrightarrow> request_wire_opcode m = Some op \<Longrightarrow>
       \<exists>c known. (c, False) \<in> set calls \<and> opcode_call (canonical_ip from) op c = Some known"
    "\<And>m k v rop. out = Some (m, k, v) \<Longrightarrow> response_opcode m = Some rop \<Longrightarrow>
       (Validate (canonical_ip from) rop, True) \<in> set calls"
proof -
  let ?ip = "canonical_ip from" and ?hint = "opcode_hint data"
  obtain pass s1 where g: "address_gate ?ip (count_plain_publish_res data s) = (pass, s1)"
    by (meson surj_pair)
  have s1: "flood s1 = flood s"
    using g by (cases ?ip) (auto simp: count_plain_publish_res_def split: prod.splits if_splits)
  let ?known = "known_sender inow ?ip s1"
  obtain over fl where r: "check_rate_limit_with_opcode inow ?ip ?known ?hint (flood s1) = (over, fl)"
    by (meson surj_pair)
  define s2 where "s2 = s1\<lparr>flood := fl\<rparr>"
  obtain over2 s3 where c: "charge_packed inow ?ip ?hint data s2 = (over2, s3)" by (meson surj_pair)
  obtain dec s4 where d: "decode_datagram md5 zlib raw inow unow ?ip ?known data s3 = (dec, s4)"
    by (meson surj_pair)
  have quiet: "out = None \<and> flood s' = flood s \<or> out = None \<and> s' = s2
      \<or> \<not> over \<and> out = None \<and> s' = s3
      \<or> \<not> over \<and> dec = None \<and> out = None \<and> s' = s4
      \<or> \<not> over \<and> (\<exists>rm. dec = Some rm \<and> admit_response ?ip rm (s4\<lparr>last_kad_contact := Some unow\<rparr>) = (out, s'))"
    using assms g s1 r c d unfolding receive_kad_def Let_def s2_def [symmetric]
    by (auto simp: s2_def split: if_splits option.splits)
  have "flood_step inow (RateLimit ?ip ?known ?hint) (flood s) = (over, flood s2)"
    using r s1 by (simp add: s2_def)
  then have e2: "explains inow [(RateLimit ?ip ?known ?hint, over)] s s2"
    using explains_step [OF explains_none [OF refl]] by force
  obtain cs where cs: "explains inow cs s2 s3" "length cs \<le> 1" using charge_packed_explains [OF c] .
  note e3 = explains_trans [OF e2 cs(1)]
  obtain ds where ds: "explains inow ds s3 s4" "length ds \<le> 2"
    "\<And>m k v op. dec = Some (m, k, v) \<Longrightarrow> request_wire_opcode m = Some op \<Longrightarrow>
       ?hint = op \<or> (Recheck ?ip ?known op, False) \<in> set ds"
    using decode_datagram_explains [OF d] by blast
  note e4 = explains_trans [OF e3 ds(1)]
  from quiet consider (start) "out = None" "flood s' = flood s" | (rate) "out = None" "s' = s2"
    | (packed) "out = None" "s' = s3" | (undecoded) "out = None" "s' = s4"
    | (decoded) rm where "\<not> over" "dec = Some rm"
        "admit_response ?ip rm (s4\<lparr>last_kad_contact := Some unow\<rparr>) = (out, s')"
    by blast
  then show thesis
  proof cases
    case start
    then show thesis using that [of "[]"] explains_none by auto
  next
    case rate
    then show thesis using that [OF _ _] e2 by force
  next
    case packed
    then show thesis using that [OF e3 [folded packed(2)]] cs(2) by simp
  next
    case undecoded
    then show thesis using that [OF e4 [folded undecoded(2)]] cs(2) ds(2) by simp
  next
    case (decoded rm)
    obtain vs where vs: "explains inow vs (s4\<lparr>last_kad_contact := Some unow\<rparr>) s'" "length vs \<le> 1"
      "out \<noteq> None \<Longrightarrow> out = Some rm"
      "\<And>rop. out \<noteq> None \<Longrightarrow> response_opcode (fst rm) = Some rop \<Longrightarrow> (Validate ?ip rop, True) \<in> set vs"
      using admit_response_explains [OF decoded(3), of inow] by blast
    have e5: "explains inow ((([(RateLimit ?ip ?known ?hint, over)] @ cs) @ ds) @ vs) s s'"
      by (rule explains_trans [OF explains_frame [OF e4] vs(1)]) simp
    show thesis
    proof (rule that [OF e5])
      show "length ((([(RateLimit ?ip ?known ?hint, over)] @ cs) @ ds) @ vs) \<le> 5"
        using cs(2) ds(2) vs(2) by simp
      fix m k v op
      assume "out = Some (m, k, v)"
      then have rm: "rm = (m, k, v)" using vs(3) by simp
      show "\<exists>c known. (c, False) \<in> set ((([(RateLimit ?ip ?known ?hint, over)] @ cs) @ ds) @ vs)
          \<and> opcode_call ?ip op c = Some known" if "request_wire_opcode m = Some op"
        using ds(3) [of m k v op] that decoded(1,2) rm by force
      show "(Validate ?ip rop, True) \<in> set ((([(RateLimit ?ip ?known ?hint, over)] @ cs) @ ds) @ vs)"
        if "response_opcode m = Some rop" for rop
        using vs(4) [of rop] that rm \<open>out = Some (m, k, v)\<close> by simp
    qed
  qed
qed

section \<open>Runs of the network state\<close>

text \<open>
  What happens to the state between datagrams: other calls of the flood protection, and
  changes elsewhere, which may replace everything but the flood protection.
\<close>

datatype net_event =
    Datagram int int ip_addr u16 bytes
  | Flood_Call int flood_call
  | Elsewhere net_state

fun net_step ::
  "(bytes \<Rightarrow> bytes) \<Rightarrow> inflater \<Rightarrow> inflater \<Rightarrow> net_event \<Rightarrow> net_state \<Rightarrow>
   (ip_addr \<times> kad_message) list \<times> net_state" where
  "net_step md5 zlib raw (Datagram inow unow from port data) s =
     (case receive_kad md5 zlib raw inow unow from port data s of
        (None, s') \<Rightarrow> ([], s')
      | (Some rm, s') \<Rightarrow> ([(canonical_ip from, fst rm)], s'))"
| "net_step md5 zlib raw (Flood_Call now c) s =
     ([], s\<lparr>flood := snd (flood_step now c (flood s))\<rparr>)"
| "net_step md5 zlib raw (Elsewhere t) s = ([], t\<lparr>flood := flood s\<rparr>)"

fun net_run ::
  "(bytes \<Rightarrow> bytes) \<Rightarrow> inflater \<Rightarrow> inflater \<Rightarrow> net_event list \<Rightarrow> net_state \<Rightarrow>
   (ip_addr \<times> kad_message) list \<times> net_state" where
  "net_run md5 zlib raw [] s = ([], s)"
| "net_run md5 zlib raw (ev # evs) s =
     (let (out, s) = net_step md5 zlib raw ev s; (outs, s) = net_run md5 zlib raw evs s
      in (out @ outs, s))"

fun event_time :: "net_event \<Rightarrow> int set" where
  "event_time (Datagram inow _ _ _ _) = {inow}"
| "event_time (Flood_Call now _) = {now}"
| "event_time (Elsewhere _) = {}"

fun event_tracks :: "ip_addr \<Rightarrow> u8 \<Rightarrow> net_event \<Rightarrow> bool" where
  "event_tracks ip rop (Flood_Call _ c) = tracks ip rop c"
| "event_tracks ip rop _ = False"

definition dispatched_requests :: "ip_addr \<Rightarrow> u8 \<Rightarrow> (ip_addr \<times> kad_message) list \<Rightarrow> nat" where
  "dispatched_requests ip op outs =
     length (filter (\<lambda>(i, m). i = ip \<and> request_wire_opcode m = Some op) outs)"

definition dispatched_responses :: "ip_addr \<Rightarrow> u8 \<Rightarrow> (ip_addr \<times> kad_message) list \<Rightarrow> nat" where
  "dispatched_responses ip rop outs =
     length (filter (\<lambda>(i, m). i = ip \<and> response_opcode m = Some rop) outs)"

lemma accepted_append:
  assumes "length rs = length cs"
  shows "accepted_requests ip op (cs @ cs') (rs @ rs')
      = accepted_requests ip op cs rs + accepted_requests ip op cs' rs'"
    and "accepted_responses ip rop (cs @ cs') (rs @ rs')
      = accepted_responses ip rop cs rs + accepted_responses ip rop cs' rs'"
  using assms by (simp_all add: accepted_requests_def accepted_responses_def)

lemma accepted_zip:
  "accepted_requests ip op (map (\<lambda>(c, r). (now, c)) calls) (map snd calls)
     = length (filter (\<lambda>(c, r). opcode_call ip op c \<noteq> None \<and> \<not> r) calls)"
  "accepted_responses ip rop (map (\<lambda>(c, r). (now, c)) calls) (map snd calls)
     = length (filter (\<lambda>(c, r). c = Validate ip rop \<and> r) calls)"
  unfolding accepted_requests_def accepted_responses_def by (induction calls) auto

lemma filter_pos: "x \<in> set xs \<Longrightarrow> P x \<Longrightarrow> Suc 0 \<le> length (filter P xs)"
  by (induction xs) auto

lemma no_tracks:
  assumes "explains now calls s s'"
  shows "tracked_requests ip rop (map (\<lambda>(c, r). (now, c)) calls) = 0"
proof -
  have "\<not> tracks ip rop c" if "(c, r) \<in> set calls" for c r
    using assms that unfolding explains_def by (cases c) auto
  then show ?thesis by (auto simp: tracked_requests_def filter_empty_conv)
qed

text \<open>A datagram, seen as calls of the flood protection.\<close>

definition matched_by :: "(ip_addr \<times> kad_message) list \<Rightarrow> (int \<times> flood_call) list \<Rightarrow> bool list \<Rightarrow> bool" where
  "matched_by outs cs rs \<longleftrightarrow>
     (\<forall>ip op. dispatched_requests ip op outs \<le> accepted_requests ip op cs rs)
     \<and> (\<forall>ip rop. dispatched_responses ip rop outs \<le> accepted_responses ip rop cs rs)"

lemma matched_none: "matched_by [] cs rs"
  by (simp add: matched_by_def dispatched_requests_def dispatched_responses_def)

lemma matched_append:
  "matched_by outs cs rs \<Longrightarrow> matched_by outs' cs' rs' \<Longrightarrow> length rs = length cs \<Longrightarrow>
   matched_by (outs @ outs') (cs @ cs') (rs @ rs')"
  unfolding matched_by_def dispatched_requests_def dispatched_responses_def
  by (simp add: accepted_append add_mono)

lemma datagram_matched:
  assumes "net_step md5 zlib raw (Datagram inow unow from port data) s = (outs, s')"
  obtains cs rs where "flood_run cs (flood s) = (rs, flood s')" "fst ` set cs \<subseteq> {inow}" "length cs \<le> 5"
    "\<And>ip rop. tracked_requests ip rop cs = 0" "matched_by outs cs rs"
proof -
  obtain out s1 where r: "receive_kad md5 zlib raw inow unow from port data s = (out, s1)"
    by (meson surj_pair)
  have s1: "s1 = s'" "outs = (case out of None \<Rightarrow> [] | Some rm \<Rightarrow> [(canonical_ip from, fst rm)])"
    using assms r by (auto split: option.splits)
  obtain calls where e: "explains inow calls s s'" "length calls \<le> 5"
    and req: "\<And>m k v op. out = Some (m, k, v) \<Longrightarrow> request_wire_opcode m = Some op \<Longrightarrow>
       \<exists>c known. (c, False) \<in> set calls \<and> opcode_call (canonical_ip from) op c = Some known"
    and res: "\<And>m k v rop. out = Some (m, k, v) \<Longrightarrow> response_opcode m = Some rop \<Longrightarrow>
       (Validate (canonical_ip from) rop, True) \<in> set calls"
    using receive_explains [OF r] s1(1) by blast
  let ?cs = "map (\<lambda>(c, r). (inow, c)) calls" and ?rs = "map snd calls"
  have "matched_by outs ?cs ?rs"
  proof (cases out)
    case None
    then show ?thesis using s1(2) matched_none by simp
  next
    case (Some rm)
    obtain m k v where rm: "rm = (m, k, v)" by (metis prod_cases3)
    have "dispatched_requests ip op outs \<le> accepted_requests ip op ?cs ?rs" for ip op
    proof (cases "ip = canonical_ip from \<and> request_wire_opcode m = Some op")
      case True
      then obtain c known where "(c, False) \<in> set calls" "opcode_call ip op c = Some known"
        using req [of m k v op] Some rm by auto
      then have "Suc 0 \<le> accepted_requests ip op ?cs ?rs"
        unfolding accepted_zip by (intro filter_pos) auto
      then show ?thesis using s1(2) Some by (simp add: dispatched_requests_def)
    next
      case False
      then show ?thesis using s1(2) Some rm by (auto simp: dispatched_requests_def)
    qed
    moreover have "dispatched_responses ip rop outs \<le> accepted_responses ip rop ?cs ?rs" for ip rop
    proof (cases "ip = canonical_ip from \<and> response_opcode m = Some rop")
      case True
      then have "(Validate ip rop, True) \<in> set calls" using res [of m k v rop] Some rm by auto
      then have "Suc 0 \<le> accepted_responses ip rop ?cs ?rs"
        unfolding accepted_zip by (rule filter_pos) simp
      then show ?thesis using s1(2) Some by (simp add: dispatched_responses_def)
    next
      case False
      then show ?thesis using s1(2) Some rm by (auto simp: dispatched_responses_def)
    qed
    ultimately show ?thesis by (simp add: matched_by_def)
  qed
  moreover have "flood_run ?cs (flood s) = (?rs, flood s')" using e(1) by (simp add: explains_def)
  moreover have "fst ` set ?cs \<subseteq> {inow}" by auto
  ultimately show thesis using that [of ?cs ?rs] e(2) no_tracks [OF e(1)] by simp
qed

lemma event_matched:
  assumes "net_step md5 zlib raw ev s = (outs, s')"
  obtains cs rs where "flood_run cs (flood s) = (rs, flood s')" "fst ` set cs \<subseteq> event_time ev" "length cs \<le> 5"
    "\<And>ip rop. tracked_requests ip rop cs = (if event_tracks ip rop ev then 1 else 0)" "matched_by outs cs rs"
proof (cases ev)
  case (Datagram inow unow src port data)
  obtain cs rs where "flood_run cs (flood s) = (rs, flood s')" "fst ` set cs \<subseteq> {inow}" "length cs \<le> 5"
    "\<And>ip rop. tracked_requests ip rop cs = 0" "matched_by outs cs rs"
    using datagram_matched [OF assms [unfolded Datagram]] by blast
  then show thesis using that [of cs rs] Datagram by simp
next
  case (Flood_Call now c)
  then show thesis
    using that [of "[(now, c)]" "[fst (flood_step now c (flood s))]"] assms matched_none
    by (auto simp: tracked_requests_def split: prod.splits)
next
  case (Elsewhere t)
  then show thesis using that [of "[]" "[]"] assms matched_none by (auto simp: tracked_requests_def)
qed

lemma net_run_matched:
  assumes "net_run md5 zlib raw evs s = (outs, s')"
  shows "\<exists>cs rs. flood_run cs (flood s) = (rs, flood s') \<and> fst ` set cs \<subseteq> (\<Union>ev \<in> set evs. event_time ev)
    \<and> length cs \<le> 5 * length evs \<and> matched_by outs cs rs
    \<and> (\<forall>ip rop. tracked_requests ip rop cs = length (filter (event_tracks ip rop) evs))"
  using assms
proof (induction evs arbitrary: s outs)
  case Nil
  then show ?case using matched_none by (intro exI [of _ "[]"]) (auto simp: tracked_requests_def)
next
  case (Cons ev evs)
  obtain out s1 where step: "net_step md5 zlib raw ev s = (out, s1)" by (meson surj_pair)
  obtain outs1 where run: "net_run md5 zlib raw evs s1 = (outs1, s')" and outs: "outs = out @ outs1"
    using Cons.prems step by (auto split: prod.splits)
  obtain cs rs where e: "flood_run cs (flood s) = (rs, flood s1)" "fst ` set cs \<subseteq> event_time ev" "length cs \<le> 5"
    "\<And>ip rop. tracked_requests ip rop cs = (if event_tracks ip rop ev then 1 else 0)" "matched_by out cs rs"
    using event_matched [OF step] by blast
  obtain ds qs where i: "flood_run ds (flood s1) = (qs, flood s')"
    "fst ` set ds \<subseteq> (\<Union>ev \<in> set evs. event_time ev)" "length ds \<le> 5 * length evs" "matched_by outs1 ds qs"
    "\<forall>ip rop. tracked_requests ip rop ds = length (filter (event_tracks ip rop) evs)"
    using Cons.IH [OF run] by blast
  have "flood_run (cs @ ds) (flood s) = (rs @ qs, flood s')" using e(1) i(1) by (simp add: flood_run_append)
  moreover have "matched_by outs (cs @ ds) (rs @ qs)"
    unfolding outs by (rule matched_append [OF e(5) i(4) length_flood_run [OF e(1)]])
  moreover have "tracked_requests ip rop (cs @ ds) = length (filter (event_tracks ip rop) (ev # evs))" for ip rop
    using e(4) i(5) by (simp add: tracked_requests_def)
  ultimately show ?case
    using e(2,3) i(2,3) by (intro exI [of _ "cs @ ds"] exI [of _ "rs @ qs"]) auto
qed

section \<open>Delivery of an obfuscated request\<close>

lemma request_received_as [simp]: "request_wire_opcode (received_as now m) = request_wire_opcode m"
  by (cases m) (auto simp: Let_def)

lemma request_no_response: "request_wire_opcode m = Some op \<Longrightarrow> response_opcode m = None \<and> \<not> is_publish_res m"
  by (cases m) auto

lemma encode_packet_head:
  assumes "encode_packet deflate m = Inr pkt" "encode_message m = Inr (op # body)"
  shows "pkt \<noteq> []" "pkt ! 0 \<in> set VALID_INNER_HEADERS" "1 < length pkt"
  using assms by (auto simp: encode_packet_def bind_r_Inr_iff Let_def VALID_INNER_HEADERS_def opcodes
      split: if_splits)

text \<open>A datagram whose first byte is no protocol header reaches the deobfuscation unchanged.\<close>

lemma receive_obfuscated:
  assumes "data \<noteq> []" "hd data \<notin> set VALID_INNER_HEADERS" "kad_connected s"
    and "address_gate (canonical_ip from) s = (True, s1)"
    and "known = known_sender inow (canonical_ip from) s1"
    and "check_rate_limit_with_opcode inow (canonical_ip from) known 0xFF (flood s1) = (False, fl)"
    and "decode_obfuscated md5 zlib raw inow unow (canonical_ip from) known data (s1\<lparr>flood := fl\<rparr>) = (Some rm, s2)"
    and "response_opcode (fst rm) = None"
  shows "fst (receive_kad md5 zlib raw inow unow from port data s) = Some rm"
proof -
  have h: "hd data \<noteq> 0xE4" "hd data \<noteq> 0xE5" using assms(2) by (auto simp: VALID_INNER_HEADERS_def)
  then have plain: "\<not> plain_header data" "count_plain_publish_res data s = s" "opcode_hint data = 0xFF"
    "charge_packed inow ip op data t = (False, t)" for ip op t
    using assms(1) by (auto simp: plain_header_def first_byte_def count_plain_publish_res_def
        opcode_hint_def charge_packed_def hd_conv_nth opcodes)
  have "decode_packet zlib raw unow data = Inl InvalidData"
    using assms(1) h by (cases data) (auto simp: decode_packet_def opcodes bind_r_def)
  then have "decode_datagram md5 zlib raw inow unow (canonical_ip from) known data (s1\<lparr>flood := fl\<rparr>)
      = (Some rm, s2)"
    using assms(7) by (simp add: decode_datagram_def)
  then show ?thesis
    using assms(3-6,8) plain(1) unfolding receive_kad_def plain(2-4) by (simp add: Let_def admit_response_def)
qed

lemma decode_obfuscated_request:
  assumes "try_decrypt_kad_packet md5 data (my_kad_id s) (my_user_hash s) (receiver_vk md5 ip s) (ip_u32 ip) =
      Some \<lparr>payload = pkt, sender_verify_key = sk, valid_receiver_key = v\<rparr>"
    and "1 < length pkt" "charge_packed inow ip (pkt ! 1) pkt s = (False, s2)"
    and "decode_packet zlib raw unow pkt = Inr m" "request_wire_opcode m = Some op"
    and "\<not> fst (recheck_opcode_limit_post_decrypt inow ip known op (flood s2))"
  shows "\<exists>s'. decode_obfuscated md5 zlib raw inow unow ip known data s =
      (Some (m, map_option (\<lambda>k. received k (case my_external_ip s of None \<Rightarrow> 0 | Some e \<Rightarrow> e)) sk, v), s')"
  using assms unfolding decode_obfuscated_def
  by (cases "recheck_opcode_limit_post_decrypt inow ip known op (flood s2)") simp

end
