(* ===== verification/Udp_Props.thy ===== *)
theory Udp_Props
  imports Udp_Laws
begin

text \<open>
  Properties of the receive path: the limits on requests and the matching of responses hold
  for what is dispatched, however it was transported.
\<close>

unbundle bit_operations_syntax

section \<open>Sample states\<close>

definition sample_net :: "flood_protection \<Rightarrow> net_state" where
  "sample_net fl = \<lparr>kad_connected = True, ip_filter_state = new_filter False False, banned_ips = {},
     routing = new_table 0 (from_u32 1) False, flood = fl, udp_key_seed = 1, my_kad_id = from_u32 1,
     my_user_hash = replicate 16 0, my_external_ip = None, last_kad_contact = None,
     publish_res_plain_seen = 0, publish_res_obf_decoded = 0, obf_decoded_total = 0,
     publish_res_wire = 0, publish_res_unmatched = 0\<rparr>"

definition md5_id :: "bytes \<Rightarrow> bytes" where "md5_id b = b"

definition no_inflate :: inflater where "no_inflate z = ([], Some InvalidData)"

lemmas flood_eval =
  check_rate_limit_with_opcode_def check_opcode_limit_def is_request_opcode_def Let_def
  flood_new_def flood_consts charge_def secs_since_def entry_or_def effective_limit_def
  opcode_limit_def inc32_def over_per_ip_budget_def recheck_opcode_limit_post_decrypt_def

section \<open>Properties\<close>

text \<open>
  C7: request limits hold for datagrams. Once an address has a live counter for a request
  opcode, the requests of that opcode dispatched from it until the window of 15 seconds ends
  are at most what the limit for known peers leaves, whether they come plain, compressed or
  obfuscated, over IPv4 or as an IPv4-mapped address, and whatever other datagrams arrive and
  whatever else the program does in between.
\<close>

theorem dispatched_requests_limited:
  assumes "flood s = snd (flood_run pre (flood_new t0))"
    and "map_of (opcode_counters (flood s)) (ip, op) = Some (n, t)" "is_request_opcode op"
    and "\<forall>ev \<in> set evs. \<forall>now \<in> event_time ev. secs_since now t < 15"
    and "n + 5 * length evs < 2 ^ 32"
  shows "dispatched_requests ip op (fst (net_run md5 zlib raw evs s)) \<le> effective_limit True op - n"
proof -
  obtain outs s' where run: "net_run md5 zlib raw evs s = (outs, s')" by (meson surj_pair)
  obtain cs rs where c: "flood_run cs (flood s) = (rs, flood s')"
    "fst ` set cs \<subseteq> (\<Union>ev \<in> set evs. event_time ev)" "length cs \<le> 5 * length evs" "matched_by outs cs rs"
    using net_run_matched [OF run] by blast
  have inv: "flood_inv (flood s)" unfolding assms(1) by (rule reachable_flood_inv)
  have "secs_since now t < OPCODE_WINDOW_SECS" if "(now, c) \<in> set cs" for now c
  proof -
    have "now \<in> fst ` set cs" using that by force
    then show ?thesis using c(2) assms(4) by (auto simp: flood_consts)
  qed
  then have "accepted_requests ip op cs rs \<le> effective_limit True op - n"
    using live_counter_enforced [where kp = True, OF inv c(1) assms(3,2)] assms(5) c(3) by auto
  moreover have "dispatched_requests ip op outs \<le> accepted_requests ip op cs rs"
    using c(4) by (simp add: matched_by_def)
  ultimately show ?thesis using run by simp
qed

theorem dispatched_requests_limited_witness:
  "map_of (opcode_counters (snd (flood_run [(0, RateLimit (V4 7) False 0x60)] (flood_new 0)))) (V4 7, 0x60)
      = Some (1, 0)
   \<and> dispatched_requests (V4 7) 0x60 (fst (net_run md5_id no_inflate no_inflate
       [Datagram 1 0 (V4 7) 4672 [0xE4, 0x60], Flood_Call 2 Cleanup, Datagram 3 0 (V4 7) 4672 [0xE4, 0x60]]
       (sample_net (snd (flood_run [(0, RateLimit (V4 7) False 0x60)] (flood_new 0)))))) \<le> 5"
proof
  show c: "map_of (opcode_counters (snd (flood_run [(0, RateLimit (V4 7) False 0x60)] (flood_new 0))))
      (V4 7, 0x60) = Some (1, 0)"
    by (simp add: flood_eval)
  show "dispatched_requests (V4 7) 0x60 (fst (net_run md5_id no_inflate no_inflate
       [Datagram 1 0 (V4 7) 4672 [0xE4, 0x60], Flood_Call 2 Cleanup, Datagram 3 0 (V4 7) 4672 [0xE4, 0x60]]
       (sample_net (snd (flood_run [(0, RateLimit (V4 7) False 0x60)] (flood_new 0)))))) \<le> 5"
    using dispatched_requests_limited [where s = "sample_net (snd (flood_run [(0, RateLimit (V4 7) False 0x60)] (flood_new 0)))"
        and pre = "[(0, RateLimit (V4 7) False 0x60)]" and ?t0.0 = 0 and ip = "V4 7" and op = "0x60"
        and n = 1 and t = 0 and evs = "[Datagram 1 0 (V4 7) 4672 [0xE4, 0x60], Flood_Call 2 Cleanup, Datagram 3 0 (V4 7) 4672 [0xE4, 0x60]]"] c
    by (simp add: sample_net_def is_request_opcode_def secs_since_def effective_limit_def opcode_limit_def)
qed

text \<open>
  C9: only solicited responses are dispatched. From a fresh start, the responses of one kind
  dispatched from an address are at most the matching requests that were tracked for it, or
  64 times as many for search results.
\<close>

theorem dispatched_responses_solicited:
  assumes "flood s = flood_new t0"
  shows "dispatched_responses ip rop (fst (net_run md5 zlib raw evs s))
    \<le> (if rop = 0x3B then 64 else 1) * length (filter (event_tracks ip rop) evs)"
proof -
  obtain outs s' where run: "net_run md5 zlib raw evs s = (outs, s')" by (meson surj_pair)
  obtain cs rs where c: "flood_run cs (flood s) = (rs, flood s')" "matched_by outs cs rs"
    "\<forall>ip rop. tracked_requests ip rop cs = length (filter (event_tracks ip rop) evs)"
    using net_run_matched [OF run] by blast
  have "accepted_responses ip rop cs rs \<le> per_request rop * tracked_requests ip rop cs"
    using allowance_run [OF flood_inv_new c(1) [unfolded assms], of ip rop] by (simp add: allowance_new)
  moreover have "dispatched_responses ip rop outs \<le> accepted_responses ip rop cs rs"
    using c(2) by (simp add: matched_by_def)
  ultimately show ?thesis using c(3) run by (auto simp: per_request_def flood_consts)
qed

theorem dispatched_responses_solicited_witness:
  "dispatched_responses (V4 7) 0x61 (fst (net_run md5_id no_inflate no_inflate
       [Flood_Call 1 (Track (V4 7) 0x60), Datagram 2 0 (V4 7) 4672 [0xE4, 0x61, 1, 2],
        Datagram 3 0 (V4 7) 4672 [0xE4, 0x61, 1, 2]] (sample_net (flood_new 0)))) \<le> 1"
  using dispatched_responses_solicited [of "sample_net (flood_new 0)" 0 "V4 7" "0x61" md5_id no_inflate no_inflate
      "[Flood_Call 1 (Track (V4 7) 0x60), Datagram 2 0 (V4 7) 4672 [0xE4, 0x61, 1, 2],
        Datagram 3 0 (V4 7) 4672 [0xE4, 0x61, 1, 2]]"]
  by (simp add: sample_net_def request_opcodes_def request_for_def)

end
