(* ===== verification/Kad_Challenge.thy ===== *)
theory Kad_Challenge
  imports Kad_Contact "HOL-Library.Sublist"
begin

text \<open>
  Legacy challenges of \<^verbatim>\<open>src-tauri/src/network/kad/legacy_challenge.rs\<close>: peers that cannot take
  part in the key handshake prove their address by answering a request with a random target
  or a ping. The tracker holds one pending challenge per address and a queue of insertion
  records, oldest first. A call reads the clock once, as its argument \<open>now\<close>. The lemmas show
  that the queue is ordered in time, so that dropping its head run is enough, and that a
  pending challenge is the last one issued to its address.
\<close>

section \<open>State\<close>

text \<open>An \<^verbatim>\<open>Instant\<close> is a number of nanoseconds; \<open>now\<close> is the time of the call.\<close>

definition CHALLENGE_TTL :: int where "CHALLENGE_TTL = 180 * 1000000000"
definition MAX_CHALLENGES :: nat where "MAX_CHALLENGES = 256"

record track_challenge =
  inserted_at :: int
  seq_no :: u64
  contact_of :: kad_id
  challenge :: kad_id
  challenge_opcode :: u8

record legacy_tracker =
  challenges :: "ipv4 \<rightharpoonup> track_challenge"
  ch_order :: "(ipv4 \<times> u64) list"
  next_seq :: u64

definition tracker_new :: legacy_tracker where
  "tracker_new = \<lparr>challenges = Map.empty, ch_order = [], next_seq = 0\<rparr>"

section \<open>Operations\<close>

text \<open>The entry that a record of the queue stands for, unless it was consumed or superseded.\<close>

definition live_entry :: "(ipv4 \<rightharpoonup> track_challenge) \<Rightarrow> ipv4 \<times> u64 \<Rightarrow> track_challenge option" where
  "live_entry m r =
     (case m (fst r) of
        Some e \<Rightarrow> if seq_no e = snd r then Some e else None
      | None \<Rightarrow> None)"

fun expire_loop ::
  "int \<Rightarrow> (ipv4 \<rightharpoonup> track_challenge) \<Rightarrow> (ipv4 \<times> u64) list \<Rightarrow>
   (ipv4 \<rightharpoonup> track_challenge) \<times> (ipv4 \<times> u64) list" where
  "expire_loop now m [] = (m, [])"
| "expire_loop now m (r # rs) =
     (case live_entry m r of
        Some e \<Rightarrow>
          if CHALLENGE_TTL \<le> max 0 (now - inserted_at e)
          then expire_loop now (m(fst r := None)) rs
          else (m, r # rs)
      | None \<Rightarrow> expire_loop now m rs)"

definition expire :: "int \<Rightarrow> legacy_tracker \<Rightarrow> legacy_tracker" where
  "expire now t =
     (case expire_loop now (challenges t) (ch_order t) of
        (m, rs) \<Rightarrow> t\<lparr>challenges := m, ch_order := rs\<rparr>)"

definition has_active :: "int \<Rightarrow> ipv4 \<Rightarrow> legacy_tracker \<Rightarrow> bool \<times> legacy_tracker" where
  "has_active now ip t =
     (let t = expire now t in (challenges t ip \<noteq> None, t))"

text \<open>\<^verbatim>\<open>while self.order.len() >= MAX_CHALLENGES\<close>\<close>

fun evict_oldest ::
  "(ipv4 \<rightharpoonup> track_challenge) \<Rightarrow> (ipv4 \<times> u64) list \<Rightarrow> (ipv4 \<rightharpoonup> track_challenge) \<times> (ipv4 \<times> u64) list" where
  "evict_oldest m [] = (m, [])"
| "evict_oldest m (r # rs) =
     (if MAX_CHALLENGES \<le> length (r # rs)
      then evict_oldest (if live_entry m r \<noteq> None then m(fst r := None) else m) rs
      else (m, r # rs))"

definition challenge_add ::
  "int \<Rightarrow> kad_id \<Rightarrow> kad_id \<Rightarrow> ipv4 \<Rightarrow> u8 \<Rightarrow> legacy_tracker \<Rightarrow> legacy_tracker" where
  "challenge_add now contact ch ip opcode t =
     (let t = expire now t;
          (m, rs) = evict_oldest (challenges t) (ch_order t);
          sq = next_seq t
      in t\<lparr>challenges := m(ip \<mapsto> \<lparr>inserted_at = now, seq_no = sq, contact_of = contact,
              challenge = ch, challenge_opcode = opcode\<rparr>),
           ch_order := rs @ [(ip, sq)], next_seq := sq + 1\<rparr>)"

definition take_match ::
  "int \<Rightarrow> kad_id \<Rightarrow> ipv4 \<Rightarrow> u8 \<Rightarrow> legacy_tracker \<Rightarrow> kad_id option \<times> legacy_tracker" where
  "take_match now challenge_id ip opcode t =
     (let t = expire now t
      in case challenges t ip of
           None \<Rightarrow> (None, t)
         | Some e \<Rightarrow>
             if challenge_opcode e \<noteq> opcode then (None, t)
             else if challenge e \<noteq> zero \<and> challenge e \<noteq> challenge_id then (None, t)
             else (Some (contact_of e), t\<lparr>challenges := (challenges t)(ip := None)\<rparr>))"

section \<open>Runs\<close>

datatype challenge_call =
    Has_Active ipv4
  | Add_Challenge kad_id kad_id ipv4 u8
  | Take_Match kad_id ipv4 u8

fun challenge_step :: "int \<Rightarrow> challenge_call \<Rightarrow> legacy_tracker \<Rightarrow> kad_id option \<times> legacy_tracker" where
  "challenge_step now (Has_Active ip) t = (None, snd (has_active now ip t))"
| "challenge_step now (Add_Challenge contact ch ip opcode) t = (None, challenge_add now contact ch ip opcode t)"
| "challenge_step now (Take_Match ch ip opcode) t = take_match now ch ip opcode t"

fun challenge_run :: "(int \<times> challenge_call) list \<Rightarrow> legacy_tracker \<Rightarrow> kad_id option list \<times> legacy_tracker" where
  "challenge_run [] t = ([], t)"
| "challenge_run ((now, c) # cs) t =
     (let (r, t) = challenge_step now c t; (rs, t) = challenge_run cs t in (r # rs, t))"
lemma unat_of_nat_small64: "k < 2 ^ 64 \<Longrightarrow> unat (word_of_nat k :: u64) = k"
  by (simp add: unat_of_nat)
section \<open>Numbering of the queue\<close>

text \<open>The records carry consecutive numbers that end just below \<open>next_seq\<close>.\<close>

fun numbered :: "u64 \<Rightarrow> (ipv4 \<times> u64) list \<Rightarrow> bool" where
  "numbered n [] \<longleftrightarrow> True"
| "numbered n (r # rs) \<longleftrightarrow> snd r = n - word_of_nat (Suc (length rs)) \<and> numbered n rs"

lemma numbered_snoc: "numbered n rs \<Longrightarrow> numbered (n + 1) (rs @ [(ip, n)])"
  by (induction rs) auto

lemma numbered_members:
  "numbered n rs \<Longrightarrow> r \<in> set rs \<Longrightarrow> \<exists>k. 0 < k \<and> k \<le> length rs \<and> snd r = n - word_of_nat k"
  by (induction rs) (auto, metis le_SucI)

lemma small_word_inj:
  assumes "a \<le> 256" "b \<le> 256" "(word_of_nat a :: u64) = word_of_nat b"
  shows "a = b"
proof -
  have "a = unat (word_of_nat a :: u64)" by (rule unat_of_nat_small64 [symmetric]) (use assms(1) in simp)
  also have "\<dots> = unat (word_of_nat b :: u64)" by (simp only: assms(3))
  also have "\<dots> = b" by (rule unat_of_nat_small64) (use assms(2) in simp)
  finally show ?thesis .
qed

lemma numbered_fresh:
  assumes "numbered n rs" "length rs \<le> 256" "r \<in> set rs"
  shows "snd r \<noteq> n"
proof
  assume "snd r = n"
  then obtain k where "0 < k" "k \<le> length rs" "(word_of_nat k :: u64) = 0"
    using numbered_members [OF assms(1,3)] by auto
  then show False using small_word_inj [of k 0] assms(2) by simp
qed

lemma numbered_head:
  assumes "numbered n (r # rs)" "length (r # rs) \<le> 256" "q \<in> set rs"
  shows "snd q \<noteq> snd r"
proof
  assume "snd q = snd r"
  then obtain k where k: "k \<le> length rs" "n - word_of_nat k = n - word_of_nat (Suc (length rs))"
    using numbered_members [of n rs q] assms(1,3) by auto
  have "(word_of_nat k :: u64) = n - (n - word_of_nat k)" by simp
  also have "\<dots> = word_of_nat (Suc (length rs))" unfolding k(2) by simp
  finally show False using small_word_inj [of k "Suc (length rs)"] assms(2) k(1) by simp
qed

section \<open>Invariant\<close>

definition live :: "(ipv4 \<rightharpoonup> track_challenge) \<Rightarrow> (ipv4 \<times> u64) list \<Rightarrow> track_challenge list" where
  "live m rs = List.map_filter (live_entry m) rs"

lemma live_simps [simp]:
  "live m [] = []"
  "live m (r # rs) = (case live_entry m r of None \<Rightarrow> live m rs | Some e \<Rightarrow> e # live m rs)"
  "live m (rs @ qs) = live m rs @ live m qs"
  by (simp_all add: live_def map_filter_simps map_filter_def split: option.split)

lemma set_live: "e \<in> set (live m rs) \<longleftrightarrow> (\<exists>r \<in> set rs. live_entry m r = Some e)"
  by (induction rs) (auto split: option.split)

text \<open>
  Every entry has its record, the records are numbered, and the entries appear in the queue
  in the order of their insertion times.
\<close>

definition queue_ok :: "u64 \<Rightarrow> (ipv4 \<rightharpoonup> track_challenge) \<Rightarrow> (ipv4 \<times> u64) list \<Rightarrow> bool" where
  "queue_ok n m rs \<longleftrightarrow> length rs \<le> 256 \<and> numbered n rs
     \<and> (\<forall>ip e. m ip = Some e \<longrightarrow> (ip, seq_no e) \<in> set rs)
     \<and> sorted (map inserted_at (live m rs))"

lemma queue_okD:
  assumes "queue_ok n m rs"
  shows "length rs \<le> 256" "numbered n rs" "m ip = Some e \<Longrightarrow> (ip, seq_no e) \<in> set rs"
    "sorted (map inserted_at (live m rs))"
  using assms by (auto simp: queue_ok_def)

lemma live_entry_upd: "live_entry (m(ip := None)) r = (if fst r = ip then None else live_entry m r)"
  by (simp add: live_entry_def)

lemma live_entry_Some: "live_entry m r = Some e \<longleftrightarrow> m (fst r) = Some e \<and> seq_no e = snd r"
  by (auto simp: live_entry_def split: option.splits)

lemma live_delete_sub: "subseq (live (m(ip := None)) rs) (live m rs)"
proof (induction rs)
  case (Cons r rs)
  then show ?case by (cases "fst r = ip") (auto simp: live_entry_upd simp del: fun_upd_apply split: option.split)
qed simp

lemma sorted_subseq: "subseq xs ys \<Longrightarrow> sorted ys \<Longrightarrow> sorted xs"
  for xs ys :: "int list"
  by (induction rule: list_emb.induct) (auto dest: list_emb_set)

lemma sorted_live_delete:
  "sorted (map inserted_at (live m rs)) \<Longrightarrow> sorted (map inserted_at (live (m(ip := None)) rs))"
  using sorted_subseq [OF subseq_map [OF live_delete_sub]] .

lemma queue_pop:
  assumes "queue_ok n m (r # rs)"
  shows "queue_ok n (if live_entry m r \<noteq> None then m(fst r := None) else m) rs"
proof (cases "live_entry m r")
  case None
  have "(ip, seq_no e) \<in> set rs" if "m ip = Some e" for ip e
    using queue_okD(3) [OF assms that] None that by (auto simp: live_entry_def split: if_splits)
  then show ?thesis using assms None by (auto simp: queue_ok_def)
next
  case (Some e)
  have "(ip, seq_no e') \<in> set rs" if "ip \<noteq> fst r" "m ip = Some e'" for ip e'
    using queue_okD(3) [OF assms that(2)] that(1) by auto
  moreover have "sorted (map inserted_at (live (m(fst r := None)) rs))"
    using queue_okD(4) [OF assms] Some by (intro sorted_live_delete) simp
  ultimately show ?thesis using assms Some by (auto simp: queue_ok_def)
qed

lemma queue_delete: "queue_ok n m rs \<Longrightarrow> queue_ok n (m(ip := None)) rs"
  unfolding queue_ok_def by (auto simp: sorted_live_delete)
text \<open>Expiry keeps the invariant, only removes, and leaves no entry past its time.\<close>

lemma expire_loop_effect:
  assumes "queue_ok n m rs" "expire_loop now m rs = (m', rs')"
  shows "queue_ok n m' rs' \<and> m' \<subseteq>\<^sub>m m \<and> (\<forall>ip e. m' ip = Some e \<longrightarrow> max 0 (now - inserted_at e) < CHALLENGE_TTL)"
  using assms
proof (induction now m rs rule: expire_loop.induct)
  case (1 now m)
  then have "m ip = None" for ip using queue_okD(3) [OF 1(1), of ip] by (cases "m ip") auto
  then show ?case using 1 by auto
next
  case (2 now m r rs)
  note pop = queue_pop [OF "2.prems"(1)]
  show ?case
  proof (cases "live_entry m r")
    case None
    then show ?thesis using "2.IH"(1) [OF None] "2.prems"(2) pop by simp
  next
    case (Some e)
    show ?thesis
    proof (cases "CHALLENGE_TTL \<le> max 0 (now - inserted_at e)")
      case True
      have le: "m(fst r := None) \<subseteq>\<^sub>m m" by (simp add: map_le_def)
      have q: "queue_ok n (m(fst r := None)) rs" using pop Some by simp
      have run: "expire_loop now (m(fst r := None)) rs = (m', rs')" using "2.prems"(2) Some True by simp
      show ?thesis using "2.IH"(2) [OF Some True q run] map_le_trans [OF _ le] by blast
    next
      case False
      have "max 0 (now - inserted_at e') < CHALLENGE_TTL" if "m ip = Some e'" for ip e'
      proof -
        have "(ip, seq_no e') \<in> set (r # rs)" using queue_okD(3) [OF "2.prems"(1) that] .
        then have "e' \<in> set (live m (r # rs))"
          using that unfolding set_live by (intro bexI [of _ "(ip, seq_no e')"]) (auto simp: live_entry_def)
        then have "inserted_at e \<le> inserted_at e'"
          using queue_okD(4) [OF "2.prems"(1)] Some by auto
        then show ?thesis using False by (simp add: CHALLENGE_TTL_def)
      qed
      then show ?thesis using "2.prems" Some False by auto
    qed
  qed
qed

lemma evict_oldest_effect:
  assumes "queue_ok n m rs" "evict_oldest m rs = (m', rs')"
  shows "queue_ok n m' rs' \<and> m' \<subseteq>\<^sub>m m \<and> length rs' < 256"
  using assms
proof (induction m rs rule: evict_oldest.induct)
  case (2 m r rs)
  note pop = queue_pop [OF "2.prems"(1)]
  show ?case
  proof (cases "MAX_CHALLENGES \<le> length (r # rs)")
    case True
    have le: "(if live_entry m r \<noteq> None then m(fst r := None) else m) \<subseteq>\<^sub>m m" by (simp add: map_le_def)
    have run: "evict_oldest (if live_entry m r \<noteq> None then m(fst r := None) else m) rs = (m', rs')"
      using "2.prems"(2) True by simp
    show ?thesis using "2.IH" [OF True pop run] map_le_trans [OF _ le] by blast
  next
    case False
    then show ?thesis using 2 by (auto simp: MAX_CHALLENGES_def)
  qed
qed simp

lemma live_put_sub:
  assumes "\<And>r. r \<in> set rs \<Longrightarrow> snd r \<noteq> seq_no e"
  shows "subseq (live (m(ip \<mapsto> e)) rs) (live m rs)"
  using assms
proof (induction rs)
  case (Cons r rs)
  have "snd r \<noteq> seq_no e" using Cons.prems [of r] by simp
  then have "live_entry (m(ip \<mapsto> e)) r = (if fst r = ip then None else live_entry m r)"
    by (auto simp: live_entry_def)
  then show ?case using Cons by (auto simp del: fun_upd_apply split: option.split)
qed simp

lemma queue_put:
  assumes "queue_ok n m rs" "length rs < 256" "seq_no e = n"
    and "\<And>ip e'. m ip = Some e' \<Longrightarrow> inserted_at e' \<le> inserted_at e"
  shows "queue_ok (n + 1) (m(ip \<mapsto> e)) (rs @ [(ip, n)])"
proof -
  have fresh: "snd r \<noteq> seq_no e" if "r \<in> set rs" for r
    using numbered_fresh [OF queue_okD(2,1) [OF assms(1)] that] assms(3) by simp
  have sub: "subseq (live (m(ip \<mapsto> e)) rs) (live m rs)" using live_put_sub fresh by blast
  have "sorted (map inserted_at (live (m(ip \<mapsto> e)) rs))"
    using sorted_subseq [OF subseq_map [OF sub] queue_okD(4) [OF assms(1)]] .
  moreover have "inserted_at e' \<le> inserted_at e" if "e' \<in> set (live (m(ip \<mapsto> e)) rs)" for e'
  proof -
    have "e' \<in> set (live m rs)" using list_emb_set [OF sub that] by auto
    then show ?thesis using assms(4) unfolding set_live by (auto simp: live_entry_Some)
  qed
  moreover have "live_entry (m(ip \<mapsto> e)) (ip, n) = Some e" using assms(3) by (simp add: live_entry_def)
  ultimately have "sorted (map inserted_at (live (m(ip \<mapsto> e)) (rs @ [(ip, n)])))"
    by (simp add: sorted_append)
  moreover have "numbered (n + 1) (rs @ [(ip, n)])" using numbered_snoc queue_okD(2) [OF assms(1)] by blast
  ultimately show ?thesis
    using assms(2,3) queue_okD(3) [OF assms(1)] by (auto simp: queue_ok_def)
qed
section \<open>Histories\<close>

fun add_of :: "ipv4 \<Rightarrow> int \<times> challenge_call \<Rightarrow> (int \<times> kad_id \<times> kad_id \<times> u8) option" where
  "add_of ip (now, Add_Challenge contact ch ip' opcode) =
     (if ip' = ip then Some (now, contact, ch, opcode) else None)"
| "add_of ip _ = None"

definition last_add :: "ipv4 \<Rightarrow> (int \<times> challenge_call) list \<Rightarrow> (int \<times> kad_id \<times> kad_id \<times> u8) option" where
  "last_add ip h = (let adds = List.map_filter (add_of ip) h in if adds = [] then None else Some (last adds))"

lemma last_add_snoc: "last_add ip (h @ [c]) = (case add_of ip c of None \<Rightarrow> last_add ip h | Some a \<Rightarrow> Some a)"
  by (auto simp: last_add_def map_filter_def Let_def split: option.split)

lemma last_add_time: "last_add ip h = Some (t, a) \<Longrightarrow> t \<in> fst ` set h"
proof (induction h rule: rev_induct)
  case (snoc c h)
  obtain now x where c: "c = (now, x)" by (meson surj_pair)
  show ?case using snoc unfolding last_add_snoc c by (cases x) (auto split: if_splits)
qed (simp add: last_add_def map_filter_def)

text \<open>What the tracker knows after a history: the last challenge of each address, at most.\<close>

definition tracker_ok :: "(int \<times> challenge_call) list \<Rightarrow> legacy_tracker \<Rightarrow> bool" where
  "tracker_ok h t \<longleftrightarrow> queue_ok (next_seq t) (challenges t) (ch_order t)
     \<and> (\<forall>ip e. challenges t ip = Some e \<longrightarrow>
          last_add ip h = Some (inserted_at e, contact_of e, challenge e, challenge_opcode e))"

lemma tracker_ok_new: "tracker_ok [] tracker_new"
  by (simp add: tracker_ok_def tracker_new_def queue_ok_def)

lemma expire_ok:
  assumes "tracker_ok h t"
  shows "tracker_ok h (expire now t)"
    and "challenges (expire now t) ip = Some e \<Longrightarrow> max 0 (now - inserted_at e) < CHALLENGE_TTL"
    and "challenges (expire now t) \<subseteq>\<^sub>m challenges t" "next_seq (expire now t) = next_seq t"
proof -
  obtain m rs where e: "expire_loop now (challenges t) (ch_order t) = (m, rs)" by (meson surj_pair)
  have q: "queue_ok (next_seq t) (challenges t) (ch_order t)" using assms by (simp add: tracker_ok_def)
  note x = expire_loop_effect [OF q e]
  have sub: "m ip = Some e' \<Longrightarrow> challenges t ip = Some e'" for ip e'
    using x by (metis domI map_le_def)
  have t: "expire now t = t\<lparr>challenges := m, ch_order := rs\<rparr>" by (simp add: expire_def e)
  show "tracker_ok h (expire now t)" using x sub assms unfolding t tracker_ok_def by auto
  show "challenges (expire now t) ip = Some e \<Longrightarrow> max 0 (now - inserted_at e) < CHALLENGE_TTL"
    using x unfolding t by simp
  show "challenges (expire now t) \<subseteq>\<^sub>m challenges t" "next_seq (expire now t) = next_seq t"
    using x unfolding t by simp_all
qed

lemma challenge_add_ok:
  assumes "tracker_ok h t" "\<And>s. s \<in> fst ` set h \<Longrightarrow> s \<le> now"
  shows "tracker_ok (h @ [(now, Add_Challenge contact ch ip op)]) (challenge_add now contact ch ip op t)"
proof -
  define t1 where "t1 = expire now t"
  have t1: "tracker_ok h t1" unfolding t1_def by (rule expire_ok(1) [OF assms(1)])
  obtain m rs where ev: "evict_oldest (challenges t1) (ch_order t1) = (m, rs)" by (meson surj_pair)
  have q: "queue_ok (next_seq t1) (challenges t1) (ch_order t1)" using t1 by (simp add: tracker_ok_def)
  note x = evict_oldest_effect [OF q ev]
  let ?e = "\<lparr>inserted_at = now, seq_no = next_seq t1, contact_of = contact, challenge = ch, challenge_opcode = op\<rparr>"
  have sub: "challenges t1 ip' = Some e'" if "m ip' = Some e'" for ip' e'
    using x that by (metis domI map_le_def)
  have old: "inserted_at e' \<le> now" if "m ip' = Some e'" for ip' e'
  proof -
    have "last_add ip' h = Some (inserted_at e', contact_of e', challenge e', challenge_opcode e')"
      using sub [OF that] t1 by (simp add: tracker_ok_def)
    then show ?thesis using last_add_time assms(2) by blast
  qed
  have "queue_ok (next_seq t1 + 1) (m(ip \<mapsto> ?e)) (rs @ [(ip, next_seq t1)])"
    by (rule queue_put) (use x old in auto)
  moreover have "last_add ip' (h @ [(now, Add_Challenge contact ch ip op)])
      = Some (inserted_at e', contact_of e', challenge e', challenge_opcode e')"
    if "(m(ip \<mapsto> ?e)) ip' = Some e'" for ip' e'
    using that sub [of ip' e'] t1 by (auto simp: last_add_snoc tracker_ok_def split: if_splits)
  ultimately show ?thesis
    unfolding challenge_add_def t1_def [symmetric] Let_def ev tracker_ok_def by simp
qed

lemma take_match_cases:
  assumes "tracker_ok h t" "take_match now ch ip op t = (r, t')"
  obtains (miss) "r = None" "t' = expire now t"
  | (hit) e where "challenges (expire now t) ip = Some e" "r = Some (contact_of e)" "challenge_opcode e = op"
      "challenge e = zero \<or> challenge e = ch"
      "t' = (expire now t)\<lparr>challenges := (challenges (expire now t))(ip := None)\<rparr>"
  using assms(2) by (auto simp: take_match_def Let_def split: option.splits if_splits)

lemma tracker_step_ok:
  assumes "tracker_ok h t" "challenge_step now c t = (r, t')" "\<And>s. s \<in> fst ` set h \<Longrightarrow> s \<le> now"
  shows "tracker_ok (h @ [(now, c)]) t'"
proof -
  have keep: "tracker_ok (h @ [(now, c)]) u" if "tracker_ok h u" "\<And>ip. add_of ip (now, c) = None" for u
    using that by (simp add: tracker_ok_def last_add_snoc)
  show ?thesis
  proof (cases c)
    case (Has_Active ip)
    then show ?thesis using assms(2) keep expire_ok(1) [OF assms(1)] by (auto simp: has_active_def Let_def)
  next
    case (Add_Challenge contact ch ip op)
    then show ?thesis using assms(2) challenge_add_ok [OF assms(1,3)] by auto
  next
    case (Take_Match ch ip op)
    then have tm: "take_match now ch ip op t = (r, t')" using assms(2) by simp
    have "tracker_ok h t'"
      using assms(1) tm
    proof (cases rule: take_match_cases)
      case miss
      then show ?thesis using expire_ok(1) [OF assms(1)] by simp
    next
      case (hit e)
      then show ?thesis using expire_ok(1) [OF assms(1), of now] queue_delete
        by (auto simp: tracker_ok_def)
    qed
    then show ?thesis using keep Take_Match by simp
  qed
qed

lemma tracker_run_ok:
  assumes "tracker_ok h0 t" "challenge_run h t = (rs, t')" "sorted (map fst (h0 @ h))"
  shows "tracker_ok (h0 @ h) t'"
  using assms
proof (induction h arbitrary: h0 t rs)
  case (Cons x h)
  obtain now c where x: "x = (now, c)" by (meson surj_pair)
  obtain r t1 where t1: "challenge_step now c t = (r, t1)" by (meson surj_pair)
  obtain rs1 where run: "challenge_run h t1 = (rs1, t')"
    using Cons.prems(2) x t1 by (auto split: prod.splits)
  have "s \<le> now" if "s \<in> fst ` set h0" for s
    using Cons.prems(3) x that by (auto simp: sorted_append)
  then have "tracker_ok (h0 @ [x]) t1" using tracker_step_ok [OF Cons.prems(1) t1] x by blast
  then show ?case using Cons.IH [of "h0 @ [x]" t1 rs1] run Cons.prems(3) by simp
qed simp

section \<open>Properties\<close>

text \<open>
  C23: the table of pending challenges. After every sequence of calls in order of time, at most
  256 challenges are pending, however many addresses a flood claims; each has its record in
  the eviction queue, which holds at most 256 records; and each is the last challenge that
  was issued to its address, less than 180 seconds before the last clean-up.
\<close>

theorem challenge_table_bounded:
  assumes "sorted (map fst h)"
  shows "let t = snd (challenge_run h tracker_new) in
    card (dom (challenges t)) \<le> 256 \<and> length (ch_order t) \<le> 256
    \<and> dom (challenges t) \<subseteq> fst ` set (ch_order t)
    \<and> (\<forall>ip e. challenges t ip = Some e \<longrightarrow>
        last_add ip h = Some (inserted_at e, contact_of e, challenge e, challenge_opcode e))
    \<and> (\<forall>now ip e. challenges (expire now t) ip = Some e \<longrightarrow> now - inserted_at e < 180 * 1000000000)"
proof -
  define t where "t = snd (challenge_run h tracker_new)"
  have ok: "tracker_ok h t"
    using tracker_run_ok [OF tracker_ok_new prod.collapse [symmetric], of h] assms by (simp add: t_def)
  then have q: "queue_ok (next_seq t) (challenges t) (ch_order t)" by (simp add: tracker_ok_def)
  have dom: "dom (challenges t) \<subseteq> fst ` set (ch_order t)" using queue_okD(3) [OF q] by force
  have "card (dom (challenges t)) \<le> card (fst ` set (ch_order t))" by (rule card_mono [OF _ dom]) simp
  also have "\<dots> \<le> length (ch_order t)" using card_image_le [of "set (ch_order t)" fst] card_length le_trans by blast
  finally have "card (dom (challenges t)) \<le> 256" using queue_okD(1) [OF q] by simp
  moreover have "now - inserted_at e < 180 * 1000000000" if "challenges (expire now t) ip = Some e" for now ip e
    using expire_ok(2) [OF ok that] by (simp add: CHALLENGE_TTL_def)
  ultimately show ?thesis
    using dom queue_okD(1) [OF q] ok unfolding Let_def t_def [symmetric] by (simp add: tracker_ok_def)
qed

text \<open>
  C22: what a matched challenge proves. When an answer is accepted, the last challenge issued to
  that address named this contact, was issued less than 180 seconds before, with the same
  opcode, and either carried no target (a ping) or exactly the target of the answer. The
  challenge is used up: no further answer from the address is accepted.
\<close>

theorem challenge_answer_sound:
  assumes "sorted (map fst h)" "\<forall>s \<in> fst ` set h. s \<le> now"
    and "take_match now ch ip op (snd (challenge_run h tracker_new)) = (Some contact, t')"
  shows "(\<exists>issued target. last_add ip h = Some (issued, contact, target, op)
      \<and> (target = zero \<or> target = ch) \<and> now - issued < 180 * 1000000000)
    \<and> (\<forall>now' ch' op'. fst (take_match now' ch' ip op' t') = None)"
proof -
  let ?t = "snd (challenge_run h tracker_new)"
  have ok: "tracker_ok h ?t"
    using tracker_run_ok [OF tracker_ok_new prod.collapse [symmetric], of h] assms(1) by simp
  from ok assms(3) show ?thesis
  proof (cases rule: take_match_cases)
    case (hit e)
    have "tracker_ok h (expire now ?t)" by (rule expire_ok(1) [OF ok])
    then have "last_add ip h = Some (inserted_at e, contact, challenge e, op)"
      using hit by (simp add: tracker_ok_def)
    moreover have "now - inserted_at e < 180 * 1000000000"
      using expire_ok(2) [OF ok hit(1)] by (simp add: CHALLENGE_TTL_def)
    moreover have "fst (take_match now' ch' ip op' t') = None" for now' ch' op'
    proof -
      have "tracker_ok (h @ [(now, Take_Match ch ip op)]) t'"
        by (rule tracker_step_ok [OF ok]) (use assms(2,3) in auto)
      then have "challenges (expire now' t') \<subseteq>\<^sub>m challenges t'" by (rule expire_ok(3))
      moreover have "challenges t' ip = None" using hit(5) by simp
      ultimately have "challenges (expire now' t') ip = None"
        unfolding map_le_def dom_def by (metis (mono_tags, lifting) mem_Collect_eq)
      then show ?thesis by (simp add: take_match_def Let_def)
    qed
    ultimately show ?thesis using hit(4) by auto
  qed simp
qed

text \<open>A peer that was challenged with a lookup, and one that was challenged with a ping.\<close>

definition sample_history :: "(int \<times> challenge_call) list" where
  "sample_history =
    [(1, Add_Challenge (KadId (replicate 16 7)) (KadId (replicate 16 9)) 0x08080808 0x21),
     (5, Add_Challenge (KadId (replicate 16 8)) zero 0x09090909 0x60),
     (6, Has_Active 0x08080808)]"

lemmas challenge_eval = sample_history_def tracker_new_def challenge_add_def has_active_def take_match_def
  expire_def live_entry_def CHALLENGE_TTL_def MAX_CHALLENGES_def Let_def

theorem challenge_table_bounded_witness:
  "dom (challenges (snd (challenge_run sample_history tracker_new))) = {0x08080808, 0x09090909}
   \<and> card (dom (challenges (snd (challenge_run sample_history tracker_new)))) \<le> 256
   \<and> length (ch_order (snd (challenge_run sample_history tracker_new))) = 2"
  using challenge_table_bounded [of sample_history] by (auto simp: challenge_eval split: if_splits)

theorem challenge_answer_sound_witness:
  "fst (take_match 9 (KadId (replicate 16 9)) 0x08080808 0x21 (snd (challenge_run sample_history tracker_new)))
     = Some (KadId (replicate 16 7))
   \<and> fst (take_match 10 (KadId (replicate 16 9)) 0x08080808 0x21
        (snd (take_match 9 (KadId (replicate 16 9)) 0x08080808 0x21
          (snd (challenge_run sample_history tracker_new))))) = None"
proof -
  let ?t = "snd (challenge_run sample_history tracker_new)"
  obtain t' where t': "take_match 9 (KadId (replicate 16 9)) 0x08080808 0x21 ?t = (Some (KadId (replicate 16 7)), t')"
    by (simp add: challenge_eval)
  have "sorted (map fst sample_history)" "\<forall>s \<in> fst ` set sample_history. s \<le> 9"
    by (simp_all add: sample_history_def)
  then show ?thesis using challenge_answer_sound [OF _ _ t'] t' by simp
qed

end
