(* ===== verification/Kad_Firewall.thy ===== *)
theory Kad_Firewall
  imports Net_Address
begin

text \<open>
  The firewall checker of \<^verbatim>\<open>src-tauri/src/network/kad/firewall.rs\<close>: votes on our external address
  and port by distinct /24 networks, check cycles and their verdicts. The wall clock is an
  argument of the operations that read it. A hash map or set is a map or set; where the code
  enumerates one, the order is an argument. The \<^verbatim>\<open>u32\<close> counters are natural numbers with the
  overflow written out. The lemmas read the state off the history of events.
\<close>

section \<open>State\<close>

definition MIN_IP_VOTES :: nat where "MIN_IP_VOTES = 3"
definition FIREWALL_CHECK_COUNT :: nat where "FIREWALL_CHECK_COUNT = 8"
definition MAX_UDP_FIREWALL_PROBES :: nat where "MAX_UDP_FIREWALL_PROBES = 12"
definition FIREWALL_RECHECK_SECS :: int where "FIREWALL_RECHECK_SECS = 3600"
definition RESPONSE_WINDOW_SECS :: int where "RESPONSE_WINDOW_SECS = 30"

datatype firewall_status = Unknown | Open | Firewalled

record cycle_result =
  tcp_open :: "bool option"
  udp_open :: "bool option"

type_synonym net24 = "u8 \<times> u8 \<times> u8"

record firewall_checker =
  external_ip_votes :: "ipv4 \<rightharpoonup> net24 set"
  confirmed_external_ip :: "ipv4 option"
  tcp_status :: firewall_status
  udp_status :: firewall_status
  tcp_responses_received :: nat
  tcp_requests_sent :: nat
  tcp_check_answers :: nat
  udp_firewall_responses_received :: nat
  udp_requests_sent :: nat
  last_check_start :: int
  external_udp_port :: "u16 option"
  udp_port_votes :: "u16 \<rightharpoonup> net24 set"
  fw_checking :: bool
  pending_check_ips :: "ipv4 set"
  pending_udp_check_ips :: "ipv4 set"
  udp_firewall_succeeded :: bool

definition fw_new :: firewall_checker where
  "fw_new = \<lparr>external_ip_votes = Map.empty, confirmed_external_ip = None, tcp_status = Unknown,
     udp_status = Unknown, tcp_responses_received = 0, tcp_requests_sent = 0, tcp_check_answers = 0,
     udp_firewall_responses_received = 0, udp_requests_sent = 0, last_check_start = 0,
     external_udp_port = None, udp_port_votes = Map.empty, fw_checking = False,
     pending_check_ips = {}, pending_udp_check_ips = {}, udp_firewall_succeeded = False\<rparr>"

section \<open>Operations\<close>

text \<open>
  The release profile checks integer overflow: adding one to the largest \<^verbatim>\<open>u32\<close> panics, which
  is the result \<open>None\<close>.
\<close>

definition checked_inc :: "nat \<Rightarrow> nat option" where
  "checked_inc n = (if n < 2 ^ 32 - 1 then Some (n + 1) else None)"

definition start_check :: "int \<Rightarrow> firewall_checker \<Rightarrow> firewall_checker" where
  "start_check now s = s\<lparr>fw_checking := True, last_check_start := now, tcp_responses_received := 0,
     tcp_requests_sent := 0, tcp_check_answers := 0, udp_firewall_responses_received := 0,
     udp_requests_sent := 0, pending_check_ips := {}, pending_udp_check_ips := {},
     udp_firewall_succeeded := False, external_ip_votes := Map.empty,
     confirmed_external_ip := None, udp_port_votes := Map.empty\<rparr>"

definition record_tcp_request_sent :: "ipv4 \<Rightarrow> firewall_checker \<Rightarrow> firewall_checker option" where
  "record_tcp_request_sent peer_ip s =
     (case checked_inc (tcp_requests_sent s) of
        None \<Rightarrow> None
      | Some n \<Rightarrow> Some (s\<lparr>tcp_requests_sent := n, pending_check_ips := insert peer_ip (pending_check_ips s)\<rparr>))"

definition record_udp_firewall_request_sent :: "ipv4 \<Rightarrow> firewall_checker \<Rightarrow> firewall_checker option" where
  "record_udp_firewall_request_sent peer_ip s =
     (case checked_inc (udp_requests_sent s) of
        None \<Rightarrow> None
      | Some n \<Rightarrow>
          Some (s\<lparr>udp_requests_sent := n, pending_udp_check_ips := insert peer_ip (pending_udp_check_ips s)\<rparr>))"

definition is_udp_firewall_check_ip :: "ipv4 \<Rightarrow> firewall_checker \<Rightarrow> bool" where
  "is_udp_firewall_check_ip ip s \<longleftrightarrow> ip \<in> pending_udp_check_ips s"

definition is_firewall_check_ip :: "ipv4 \<Rightarrow> firewall_checker \<Rightarrow> bool" where
  "is_firewall_check_ip ip s \<longleftrightarrow> ip \<in> pending_check_ips s"

definition reporter_net :: "ipv4 \<Rightarrow> net24" where
  "reporter_net ip = (octet ip 0, octet ip 1, octet ip 2)"

definition add_vote :: "'k \<Rightarrow> net24 \<Rightarrow> ('k \<rightharpoonup> net24 set) \<Rightarrow> ('k \<rightharpoonup> net24 set)" where
  "add_vote k net votes =
     votes(k \<mapsto> insert net (case votes k of None \<Rightarrow> {} | Some nets \<Rightarrow> nets))"

text \<open>
  \<^verbatim>\<open>votes.iter().max_by_key(|(_, nets)| nets.len())\<close>: the last of the entries with most networks,
  in the order \<open>iter\<close> in which the hash map enumerates its keys.
\<close>

definition vote_count :: "('k \<rightharpoonup> net24 set) \<Rightarrow> 'k \<Rightarrow> nat" where
  "vote_count votes k = (case votes k of None \<Rightarrow> 0 | Some nets \<Rightarrow> card nets)"

fun max_by_key :: "('k \<Rightarrow> nat) \<Rightarrow> 'k list \<Rightarrow> 'k option" where
  "max_by_key f [] = None"
| "max_by_key f (x # xs) = Some (fold (\<lambda>y best. if f best \<le> f y then y else best) xs x)"

definition best_vote :: "('k set \<Rightarrow> 'k list) \<Rightarrow> ('k \<rightharpoonup> net24 set) \<Rightarrow> 'k option" where
  "best_vote iter votes = max_by_key (vote_count votes) (iter (dom votes))"

definition confirm_vote :: "('k set \<Rightarrow> 'k list) \<Rightarrow> ('k \<rightharpoonup> net24 set) \<Rightarrow> 'k option \<Rightarrow> 'k option" where
  "confirm_vote iter votes confirmed =
     (case best_vote iter votes of
        None \<Rightarrow> confirmed
      | Some k \<Rightarrow> if MIN_IP_VOTES \<le> vote_count votes k then Some k else confirmed)"

definition handle_firewalled_response ::
  "(ipv4 set \<Rightarrow> ipv4 list) \<Rightarrow> ipv4 \<Rightarrow> ipv4 \<Rightarrow> firewall_checker \<Rightarrow> firewall_checker" where
  "handle_firewalled_response iter reported_ip reporter s =
     (let s = s\<lparr>tcp_check_answers := min (2 ^ 32 - 1) (tcp_check_answers s + 1)\<rparr>
      in if is_special_use_v4 reported_ip then s
         else let votes = add_vote reported_ip (reporter_net reporter) (external_ip_votes s)
              in s\<lparr>external_ip_votes := votes,
                   confirmed_external_ip := confirm_vote iter votes (confirmed_external_ip s)\<rparr>)"

definition handle_server_highid_response :: "ipv4 \<Rightarrow> firewall_checker \<Rightarrow> firewall_checker" where
  "handle_server_highid_response reported_ip s =
     (if is_bogus_v4 reported_ip then s
      else case confirmed_external_ip s of
             None \<Rightarrow> s\<lparr>confirmed_external_ip := Some reported_ip\<rparr>
           | Some existing \<Rightarrow>
               if existing = reported_ip then s else s\<lparr>confirmed_external_ip := Some reported_ip\<rparr>)"

definition handle_tcp_connect_back :: "firewall_checker \<Rightarrow> firewall_checker option" where
  "handle_tcp_connect_back s =
     (case checked_inc (tcp_responses_received s) of
        None \<Rightarrow> None
      | Some n \<Rightarrow> Some (s\<lparr>tcp_responses_received := n, tcp_status := Open\<rparr>))"

definition note_tcp_firewalled :: "firewall_checker \<Rightarrow> firewall_checker" where
  "note_tcp_firewalled s =
     (if tcp_status s = Open \<and> 0 < tcp_responses_received s then s
      else s\<lparr>tcp_status := Firewalled\<rparr>)"

definition handle_pong ::
  "(u16 set \<Rightarrow> u16 list) \<Rightarrow> u16 \<Rightarrow> ipv4 \<Rightarrow> firewall_checker \<Rightarrow> firewall_checker" where
  "handle_pong iter reported_udp_port reporter s =
     (if reported_udp_port = 0 then s
      else let votes = add_vote reported_udp_port (reporter_net reporter) (udp_port_votes s)
           in s\<lparr>udp_port_votes := votes,
                external_udp_port := confirm_vote iter votes (external_udp_port s)\<rparr>)"

definition handle_udp_firewall_result :: "bool \<Rightarrow> firewall_checker \<Rightarrow> firewall_checker option" where
  "handle_udp_firewall_result success s =
     (if \<not> fw_checking s then Some s
      else case checked_inc (udp_firewall_responses_received s) of
             None \<Rightarrow> None
           | Some n \<Rightarrow>
               let s = s\<lparr>udp_firewall_responses_received := n\<rparr>
               in Some (if success then s\<lparr>udp_firewall_succeeded := True, udp_status := Open\<rparr> else s))"

definition needs_udp_firewall_probes :: "firewall_checker \<Rightarrow> bool" where
  "needs_udp_firewall_probes s \<longleftrightarrow>
     fw_checking s \<and> udp_requests_sent s < MAX_UDP_FIREWALL_PROBES \<and> \<not> udp_firewall_succeeded s"

definition conclude_tcp :: "firewall_checker \<Rightarrow> firewall_checker" where
  "conclude_tcp s =
     (if 0 < tcp_responses_received s then s\<lparr>tcp_status := Open\<rparr>
      else if 0 < tcp_requests_sent s \<and> tcp_status s \<noteq> Open then s\<lparr>tcp_status := Firewalled\<rparr>
      else s)"

definition conclude_udp :: "firewall_checker \<Rightarrow> firewall_checker" where
  "conclude_udp s =
     (if udp_firewall_succeeded s then s\<lparr>udp_status := Open\<rparr>
      else if udp_status s \<noteq> Open \<and> 0 < udp_requests_sent s then s\<lparr>udp_status := Firewalled\<rparr>
      else s)"

definition evaluate :: "int \<Rightarrow> firewall_checker \<Rightarrow> bool \<times> firewall_checker" where
  "evaluate now s =
     (if \<not> fw_checking s then (False, s)
      else if now - last_check_start s < RESPONSE_WINDOW_SECS then (False, s)
      else
        let s = s\<lparr>fw_checking := False, pending_check_ips := {}, pending_udp_check_ips := {}\<rparr>
        in if tcp_requests_sent s = 0 \<and> udp_requests_sent s = 0 then (False, s)
           else (True, conclude_udp (conclude_tcp s)))"

definition last_cycle :: "firewall_checker \<Rightarrow> cycle_result" where
  "last_cycle s = \<lparr>
     tcp_open = (if 0 < tcp_responses_received s then Some True
                 else if 0 < tcp_check_answers s then Some False else None),
     udp_open = (if udp_firewall_succeeded s then Some True
                 else if 0 < udp_firewall_responses_received s then Some False else None)\<rparr>"

definition should_recheck :: "int \<Rightarrow> firewall_checker \<Rightarrow> bool" where
  "should_recheck now s \<longleftrightarrow> \<not> fw_checking s \<and> FIREWALL_RECHECK_SECS < now - last_check_start s"

definition tcp_firewalled :: "firewall_checker \<Rightarrow> bool" where
  "tcp_firewalled s \<longleftrightarrow> tcp_status s = Firewalled"

definition udp_firewalled :: "firewall_checker \<Rightarrow> bool" where
  "udp_firewalled s \<longleftrightarrow> udp_status s = Firewalled"

definition ip_vote_count :: "firewall_checker \<Rightarrow> nat" where
  "ip_vote_count s = Max (insert 0 (vote_count (external_ip_votes s) ` dom (external_ip_votes s)))"

text \<open>The two process-wide flags that eD2k greetings advertise.\<close>

record local_firewall =
  local_tcp_firewalled :: bool
  local_udp_firewalled :: bool

definition local_firewall_default :: local_firewall where
  "local_firewall_default = \<lparr>local_tcp_firewalled = True, local_udp_firewalled = True\<rparr>"

definition publish_local_firewall :: "bool \<Rightarrow> bool \<Rightarrow> local_firewall \<Rightarrow> local_firewall" where
  "publish_local_firewall tcp udp f = f\<lparr>local_tcp_firewalled := tcp, local_udp_firewalled := udp\<rparr>"

definition note_local_tcp_firewalled :: "bool \<Rightarrow> local_firewall \<Rightarrow> local_firewall" where
  "note_local_tcp_firewalled tcp f = f\<lparr>local_tcp_firewalled := tcp\<rparr>"

definition advertised_direct_udp_callback :: "local_firewall \<Rightarrow> bool" where
  "advertised_direct_udp_callback f \<longleftrightarrow> local_tcp_firewalled f \<and> \<not> local_udp_firewalled f"

definition can_advertise_direct_udp_callback :: "firewall_status \<Rightarrow> firewall_status \<Rightarrow> bool" where
  "can_advertise_direct_udp_callback tcp udp \<longleftrightarrow> tcp = Firewalled \<and> udp \<noteq> Firewalled"

section \<open>Runs\<close>

datatype fw_event =
    Start_Check int
  | Tcp_Request_Sent ipv4
  | Udp_Request_Sent ipv4
  | Firewalled_Response "ipv4 set \<Rightarrow> ipv4 list" ipv4 ipv4
  | Server_High_Id ipv4
  | Tcp_Connect_Back
  | Tcp_Firewalled_Note
  | Port_Report "u16 set \<Rightarrow> u16 list" u16 ipv4
  | Udp_Firewall_Result bool
  | Evaluate int

fun fw_step :: "fw_event \<Rightarrow> firewall_checker \<Rightarrow> firewall_checker option" where
  "fw_step (Start_Check now) s = Some (start_check now s)"
| "fw_step (Tcp_Request_Sent ip) s = record_tcp_request_sent ip s"
| "fw_step (Udp_Request_Sent ip) s = record_udp_firewall_request_sent ip s"
| "fw_step (Firewalled_Response iter ip reporter) s = Some (handle_firewalled_response iter ip reporter s)"
| "fw_step (Server_High_Id ip) s = Some (handle_server_highid_response ip s)"
| "fw_step Tcp_Connect_Back s = handle_tcp_connect_back s"
| "fw_step Tcp_Firewalled_Note s = Some (note_tcp_firewalled s)"
| "fw_step (Port_Report iter port reporter) s = Some (handle_pong iter port reporter s)"
| "fw_step (Udp_Firewall_Result success) s = handle_udp_firewall_result success s"
| "fw_step (Evaluate now) s = Some (snd (evaluate now s))"

fun fw_run :: "fw_event list \<Rightarrow> firewall_checker \<Rightarrow> firewall_checker option" where
  "fw_run [] s = Some s"
| "fw_run (e # es) s = (case fw_step e s of None \<Rightarrow> None | Some s \<Rightarrow> fw_run es s)"

section \<open>Histories\<close>

text \<open>The events since the last start of a check cycle, and the networks that voted in them.\<close>

fun is_start :: "fw_event \<Rightarrow> bool" where
  "is_start (Start_Check _) = True"
| "is_start _ = False"

definition this_cycle :: "fw_event list \<Rightarrow> fw_event list" where
  "this_cycle h = rev (takeWhile (\<lambda>e. \<not> is_start e) (rev h))"

fun ip_vote :: "ipv4 \<Rightarrow> fw_event \<Rightarrow> net24 list" where
  "ip_vote ip (Firewalled_Response _ reported reporter) = (if reported = ip then [reporter_net reporter] else [])"
| "ip_vote _ _ = []"

fun port_vote :: "u16 \<Rightarrow> fw_event \<Rightarrow> net24 list" where
  "port_vote port (Port_Report _ reported reporter) = (if reported = port then [reporter_net reporter] else [])"
| "port_vote _ _ = []"

definition voters :: "('k \<Rightarrow> fw_event \<Rightarrow> net24 list) \<Rightarrow> 'k \<Rightarrow> fw_event list \<Rightarrow> net24 set" where
  "voters vote k h = set (concat (map (vote k) h))"

text \<open>A hash map enumerates each of its keys, in any order.\<close>

definition enumerates :: "('k set \<Rightarrow> 'k list) \<Rightarrow> bool" where
  "enumerates iter \<longleftrightarrow> (\<forall>S. finite S \<longrightarrow> set (iter S) = S)"

fun event_ok :: "fw_event \<Rightarrow> bool" where
  "event_ok (Firewalled_Response iter _ _) = enumerates iter"
| "event_ok (Port_Report iter _ _) = enumerates iter"
| "event_ok _ = True"

lemma this_cycle_simps [simp]:
  "this_cycle [] = []" "this_cycle (h @ [e]) = (if is_start e then [] else this_cycle h @ [e])"
  by (simp_all add: this_cycle_def)

lemma voters_simps [simp]:
  "voters vote k [] = {}" "voters vote k (h @ [e]) = voters vote k h \<union> set (vote k e)"
  by (simp_all add: voters_def)

lemma finite_voters [simp]: "finite (voters vote k h)"
  by (simp add: voters_def)

lemma fw_run_snoc:
  "fw_run (h @ [e]) s = Some s' \<longleftrightarrow> (\<exists>s1. fw_run h s = Some s1 \<and> fw_step e s1 = Some s')"
  by (induction h arbitrary: s) (auto split: option.splits)

section \<open>Voting\<close>

text \<open>The table of votes holds the voters of every eligible key that has any.\<close>

definition votes_are :: "('k \<Rightarrow> bool) \<Rightarrow> ('k \<Rightarrow> net24 set) \<Rightarrow> ('k \<rightharpoonup> net24 set) \<Rightarrow> bool" where
  "votes_are ok V m \<longleftrightarrow> finite (dom m) \<and> (\<forall>k. m k = (if ok k \<and> V k \<noteq> {} then Some (V k) else None))"

lemma votes_are_count: "votes_are ok V m \<Longrightarrow> ok k \<Longrightarrow> vote_count m k = card (V k)"
  by (auto simp: votes_are_def vote_count_def)

lemma votes_are_dom: "votes_are ok V m \<Longrightarrow> k \<in> dom m \<Longrightarrow> ok k"
  unfolding votes_are_def by (metis domIff)

lemma votes_are_cong: "votes_are ok V m \<Longrightarrow> (\<And>k. ok k \<Longrightarrow> V k = V' k) \<Longrightarrow> votes_are ok V' m"
  by (auto simp: votes_are_def)

lemma votes_are_empty: "(\<And>k. V k = {}) \<Longrightarrow> votes_are ok V Map.empty"
  by (simp add: votes_are_def)

lemma votes_are_add:
  assumes "votes_are ok V m" "ok k"
  shows "votes_are ok (\<lambda>j. if j = k then insert net (V j) else V j) (add_vote k net m)"
  using assms by (auto simp: votes_are_def add_vote_def)

lemma fold_max_by_key:
  "fold (\<lambda>y best. if f best \<le> f y then y else best) xs x \<in> insert x (set xs)
   \<and> (\<forall>y \<in> insert x (set xs). f y \<le> f (fold (\<lambda>y best. if f best \<le> f y then y else best) xs x))"
  for f :: "'k \<Rightarrow> nat"
proof (induction xs arbitrary: x)
  case (Cons y ys)
  show ?case using Cons [of x] Cons [of y] by (auto intro: order_trans)
qed simp

lemma max_by_key_max:
  assumes "max_by_key f xs = Some b"
  shows "b \<in> set xs" "\<And>y. y \<in> set xs \<Longrightarrow> f y \<le> f b"
  using assms fold_max_by_key [of f] by (cases xs, simp, force)+

lemma confirm_vote_sound:
  assumes "enumerates iter" "finite (dom m)" "confirm_vote iter m c = Some k"
  shows "c = Some k \<or> k \<in> dom m \<and> 3 \<le> vote_count m k"
  using assms max_by_key_max(1) [of "vote_count m" "iter (dom m)"]
  by (auto simp: confirm_vote_def best_vote_def enumerates_def MIN_IP_VOTES_def split: option.splits if_splits)

lemma confirm_vote_complete:
  assumes "enumerates iter" "finite (dom m)" "3 \<le> vote_count m k \<or> c \<noteq> None"
  shows "confirm_vote iter m c \<noteq> None"
proof (cases "3 \<le> vote_count m k")
  case True
  then have k: "k \<in> dom m" by (auto simp: vote_count_def split: option.splits)
  then have it: "k \<in> set (iter (dom m))" using assms(1,2) by (simp add: enumerates_def)
  then obtain b where b: "best_vote iter m = Some b"
    unfolding best_vote_def by (cases "iter (dom m)") auto
  then have "vote_count m k \<le> vote_count m b"
    using max_by_key_max(2) [of "vote_count m"] it unfolding best_vote_def by blast
  then show ?thesis using True b by (simp add: confirm_vote_def MIN_IP_VOTES_def)
next
  case False
  then show ?thesis using assms(3) by (auto simp: confirm_vote_def split: option.splits)
qed

section \<open>The external address\<close>

definition public_ip :: "ipv4 \<Rightarrow> bool" where
  "public_ip ip \<longleftrightarrow> \<not> is_special_use_v4 ip"

definition address_inv :: "fw_event list \<Rightarrow> firewall_checker \<Rightarrow> bool" where
  "address_inv h s \<longleftrightarrow>
     votes_are public_ip (\<lambda>ip. voters ip_vote ip (this_cycle h)) (external_ip_votes s)
     \<and> (\<forall>ip. confirmed_external_ip s = Some ip \<longrightarrow>
          Server_High_Id ip \<in> set (this_cycle h) \<and> \<not> is_bogus_v4 ip
          \<or> public_ip ip \<and> 3 \<le> card (voters ip_vote ip (this_cycle h)))
     \<and> (\<forall>ip. public_ip ip \<and> 3 \<le> card (voters ip_vote ip (this_cycle h)) \<longrightarrow> confirmed_external_ip s \<noteq> None)"

lemmas fw_step_defs = start_check_def record_tcp_request_sent_def record_udp_firewall_request_sent_def
  handle_firewalled_response_def handle_server_highid_response_def handle_tcp_connect_back_def
  note_tcp_firewalled_def handle_pong_def handle_udp_firewall_result_def Let_def

lemma evaluate_frame [simp]:
  "external_ip_votes (snd (evaluate now s)) = external_ip_votes s"
  "confirmed_external_ip (snd (evaluate now s)) = confirmed_external_ip s"
  "udp_port_votes (snd (evaluate now s)) = udp_port_votes s"
  "external_udp_port (snd (evaluate now s)) = external_udp_port s"
  "tcp_responses_received (snd (evaluate now s)) = tcp_responses_received s"
  "tcp_requests_sent (snd (evaluate now s)) = tcp_requests_sent s"
  "udp_requests_sent (snd (evaluate now s)) = udp_requests_sent s"
  "udp_firewall_responses_received (snd (evaluate now s)) = udp_firewall_responses_received s"
  "udp_firewall_succeeded (snd (evaluate now s)) = udp_firewall_succeeded s"
  by (simp_all add: evaluate_def conclude_tcp_def conclude_udp_def Let_def)

lemma evaluate_verdicts:
  "tcp_status (snd (evaluate now s)) = Open \<Longrightarrow> tcp_status s = Open \<or> 0 < tcp_responses_received s"
  "tcp_status s = Open \<Longrightarrow> tcp_status (snd (evaluate now s)) = Open"
  "udp_status (snd (evaluate now s)) = Open \<Longrightarrow> udp_status s = Open \<or> udp_firewall_succeeded s"
  "udp_status s = Open \<Longrightarrow> udp_status (snd (evaluate now s)) = Open"
  by (auto simp: evaluate_def conclude_tcp_def conclude_udp_def Let_def split: if_splits)

lemma address_frame:
  assumes "address_inv h s" "\<not> is_start e" "\<And>ip. ip_vote ip e = []"
    and "external_ip_votes s' = external_ip_votes s" "confirmed_external_ip s' = confirmed_external_ip s"
  shows "address_inv (h @ [e]) s'"
  using assms by (auto simp: address_inv_def)

lemma address_response:
  assumes inv: "address_inv h s" and it: "enumerates iter"
  shows "address_inv (h @ [Firewalled_Response iter ip r]) (handle_firewalled_response iter ip r s)"
proof (cases "public_ip ip")
  case True
  define V where "V = (\<lambda>j. voters ip_vote j (this_cycle (h @ [Firewalled_Response iter ip r])))"
  have Vk: "voters ip_vote j (this_cycle (h @ [Firewalled_Response iter ip r])) = V j" for j by (simp only: V_def)
  define m where "m = add_vote ip (reporter_net r) (external_ip_votes s)"
  have "V = (\<lambda>j. if j = ip then insert (reporter_net r) (voters ip_vote j (this_cycle h))
                 else voters ip_vote j (this_cycle h))"
    by (rule ext) (auto simp: V_def)
  then have m: "votes_are public_ip V m"
    using votes_are_add [of public_ip "\<lambda>j. voters ip_vote j (this_cycle h)"] inv True
    by (simp add: address_inv_def m_def)
  have fin: "finite (dom m)" using m by (simp add: votes_are_def)
  have mono: "card (voters ip_vote k (this_cycle h)) \<le> card (V k)" for k
    by (rule card_mono) (auto simp: V_def)
  let ?c = "confirm_vote iter m (confirmed_external_ip s)"
  have sound: "Server_High_Id k \<in> set (this_cycle h) \<and> \<not> is_bogus_v4 k \<or> public_ip k \<and> 3 \<le> card (V k)"
    if k: "?c = Some k" for k
    using confirm_vote_sound [OF it fin k]
  proof
    assume "confirmed_external_ip s = Some k"
    then show ?thesis using inv mono [of k] unfolding address_inv_def by fastforce
  next
    assume "k \<in> dom m \<and> 3 \<le> vote_count m k"
    then show ?thesis using votes_are_dom [OF m, of k] votes_are_count [OF m, of k] by simp
  qed
  have complete: "?c \<noteq> None" if "public_ip k" "3 \<le> card (V k)" for k
    using confirm_vote_complete [OF it fin, of k] votes_are_count [OF m that(1)] that(2) by simp
  have s': "handle_firewalled_response iter ip r s = s\<lparr>tcp_check_answers := min (2 ^ 32 - 1) (tcp_check_answers s + 1),
      external_ip_votes := m, confirmed_external_ip := ?c\<rparr>"
    using True by (simp add: handle_firewalled_response_def public_ip_def m_def Let_def)
  show ?thesis
    unfolding address_inv_def s' Vk using m sound complete by auto
next
  case False
  let ?h = "h @ [Firewalled_Response iter ip r]"
  have eq: "voters ip_vote j (this_cycle h) = voters ip_vote j (this_cycle ?h)" if "public_ip j" for j
    using that False by auto
  have "votes_are public_ip (\<lambda>j. voters ip_vote j (this_cycle ?h)) (external_ip_votes s)"
    by (rule votes_are_cong [OF _ eq]) (use inv in \<open>simp_all add: address_inv_def\<close>)
  moreover have "handle_firewalled_response iter ip r s = s\<lparr>tcp_check_answers := min (2 ^ 32 - 1) (tcp_check_answers s + 1)\<rparr>"
    using False by (simp add: handle_firewalled_response_def public_ip_def Let_def)
  moreover have "Server_High_Id j \<in> set (this_cycle ?h) \<longleftrightarrow> Server_High_Id j \<in> set (this_cycle h)" for j by simp
  ultimately show ?thesis using inv eq unfolding address_inv_def
    by (metis (no_types, lifting) firewall_checker.select_convs(1,2) firewall_checker.surjective
        firewall_checker.update_convs(7))
qed

lemma address_step:
  assumes "address_inv h s" "fw_step e s = Some s'" "event_ok e"
  shows "address_inv (h @ [e]) s'"
proof (cases e)
  case (Start_Check now)
  then show ?thesis using assms(2) by (auto simp: address_inv_def start_check_def votes_are_empty)
next
  case (Firewalled_Response iter ip r)
  then show ?thesis using assms address_response by auto
next
  case (Server_High_Id ip)
  then show ?thesis using assms
    by (auto simp: address_inv_def handle_server_highid_response_def split: option.splits if_splits)
qed (rule address_frame [OF assms(1)];
     use assms(2) in \<open>auto simp: fw_step_defs split: option.splits if_splits\<close>)+

lemma address_run:
  assumes "fw_run h fw_new = Some s" "\<forall>e \<in> set h. event_ok e"
  shows "address_inv h s"
  using assms
proof (induction h arbitrary: s rule: rev_induct)
  case Nil
  then show ?case by (auto simp: address_inv_def fw_new_def votes_are_empty)
next
  case (snoc e h)
  then obtain s1 where "fw_run h fw_new = Some s1" "fw_step e s1 = Some s" by (auto simp: fw_run_snoc)
  then show ?case using snoc address_step by auto
qed

section \<open>The external port\<close>

definition port_proved :: "u16 \<Rightarrow> fw_event list \<Rightarrow> bool" where
  "port_proved p h \<longleftrightarrow> (\<exists>h1 h2. h = h1 @ h2 \<and> 3 \<le> card (voters port_vote p (this_cycle h1)))"

lemma port_proved_snoc: "port_proved p h \<Longrightarrow> port_proved p (h @ [e])"
  unfolding port_proved_def by (metis append.assoc)

lemma port_proved_now: "3 \<le> card (voters port_vote p (this_cycle h)) \<Longrightarrow> port_proved p h"
  unfolding port_proved_def by (metis append_Nil2)

definition port_inv :: "fw_event list \<Rightarrow> firewall_checker \<Rightarrow> bool" where
  "port_inv h s \<longleftrightarrow>
     votes_are (\<lambda>p. p \<noteq> 0) (\<lambda>p. voters port_vote p (this_cycle h)) (udp_port_votes s)
     \<and> (\<forall>p. external_udp_port s = Some p \<longrightarrow> p \<noteq> 0 \<and> port_proved p h)"

lemma port_report:
  assumes inv: "port_inv h s" and it: "enumerates iter" and "p \<noteq> 0"
  shows "port_inv (h @ [Port_Report iter p r]) (handle_pong iter p r s)"
proof -
  let ?h = "h @ [Port_Report iter p r]"
  define V where "V = (\<lambda>j. voters port_vote j (this_cycle ?h))"
  define m where "m = add_vote p (reporter_net r) (udp_port_votes s)"
  have "V = (\<lambda>j. if j = p then insert (reporter_net r) (voters port_vote j (this_cycle h))
                 else voters port_vote j (this_cycle h))"
    by (rule ext) (auto simp: V_def)
  then have m: "votes_are (\<lambda>p. p \<noteq> 0) V m"
    using votes_are_add [of "\<lambda>p. p \<noteq> 0" "\<lambda>j. voters port_vote j (this_cycle h)"] inv assms(3)
    by (simp add: port_inv_def m_def)
  have fin: "finite (dom m)" using m by (simp add: votes_are_def)
  have sound: "k \<noteq> 0 \<and> port_proved k ?h"
    if k: "confirm_vote iter m (external_udp_port s) = Some k" for k
    using confirm_vote_sound [OF it fin k]
  proof
    assume "external_udp_port s = Some k"
    then show ?thesis using inv port_proved_snoc by (simp add: port_inv_def)
  next
    assume a: "k \<in> dom m \<and> 3 \<le> vote_count m k"
    then have "k \<noteq> 0" using votes_are_dom [OF m] by blast
    then have "3 \<le> card (voters port_vote k (this_cycle ?h))"
      using a votes_are_count [OF m, of k] by (simp add: V_def)
    then show ?thesis using \<open>k \<noteq> 0\<close> port_proved_now by simp
  qed
  have "handle_pong iter p r s
      = s\<lparr>udp_port_votes := m, external_udp_port := confirm_vote iter m (external_udp_port s)\<rparr>"
    using assms(3) by (simp add: handle_pong_def m_def Let_def)
  then show ?thesis using m sound by (simp add: port_inv_def V_def)
qed

lemma port_step:
  assumes "port_inv h s" "fw_step e s = Some s'" "event_ok e"
  shows "port_inv (h @ [e]) s'"
proof -
  have keep: "port_inv (h @ [e]) s'"
    if "votes_are (\<lambda>p. p \<noteq> 0) (\<lambda>p. voters port_vote p (this_cycle (h @ [e]))) (udp_port_votes s')"
      "external_udp_port s' = external_udp_port s"
    using that assms(1) port_proved_snoc by (simp add: port_inv_def)
  have v: "votes_are (\<lambda>p. p \<noteq> 0) (\<lambda>p. voters port_vote p (this_cycle h)) (udp_port_votes s)"
    using assms(1) by (simp add: port_inv_def)
  show ?thesis
  proof (cases e)
    case (Start_Check now)
    then show ?thesis using assms(2) by (intro keep) (auto simp: start_check_def votes_are_empty)
  next
    case (Port_Report iter p r)
    show ?thesis
    proof (cases "p = 0")
      case True
      then have "s' = s" using Port_Report assms(2) by (simp add: handle_pong_def)
      moreover have "votes_are (\<lambda>p. p \<noteq> 0) (\<lambda>p. voters port_vote p (this_cycle (h @ [e]))) (udp_port_votes s)"
        by (rule votes_are_cong [OF v]) (use True Port_Report in auto)
      ultimately show ?thesis using keep by simp
    next
      case False
      then show ?thesis using port_report assms Port_Report by auto
    qed
  qed (rule keep; use assms(2) v in \<open>auto simp: fw_step_defs split: option.splits if_splits\<close>)+
qed

lemma port_run:
  assumes "fw_run h fw_new = Some s" "\<forall>e \<in> set h. event_ok e"
  shows "port_inv h s"
  using assms
proof (induction h arbitrary: s rule: rev_induct)
  case Nil
  then show ?case by (auto simp: port_inv_def fw_new_def votes_are_empty)
next
  case (snoc e h)
  then obtain s1 where "fw_run h fw_new = Some s1" "fw_step e s1 = Some s" by (auto simp: fw_run_snoc)
  then show ?case using snoc port_step by auto
qed

section \<open>Verdicts\<close>

text \<open>A probe succeeded while a check cycle was running.\<close>

definition udp_proved :: "fw_event list \<Rightarrow> bool" where
  "udp_proved h \<longleftrightarrow> (\<exists>h1 h2 s1. h = h1 @ Udp_Firewall_Result True # h2
     \<and> fw_run h1 fw_new = Some s1 \<and> fw_checking s1)"

lemma udp_proved_snoc:
  assumes "fw_run h fw_new = Some s"
  shows "udp_proved (h @ [e]) \<longleftrightarrow> udp_proved h \<or> e = Udp_Firewall_Result True \<and> fw_checking s"
proof
  assume "udp_proved (h @ [e])"
  then obtain h1 h2 s1 where h: "h @ [e] = h1 @ Udp_Firewall_Result True # h2"
    and s1: "fw_run h1 fw_new = Some s1" "fw_checking s1" by (auto simp: udp_proved_def)
  show "udp_proved h \<or> e = Udp_Firewall_Result True \<and> fw_checking s"
  proof (cases h2 rule: rev_cases)
    case Nil
    then show ?thesis using h s1 assms by simp
  next
    case (snoc h3 e')
    then have "h = h1 @ Udp_Firewall_Result True # h3" using h by simp
    then show ?thesis using s1 by (auto simp: udp_proved_def)
  qed
next
  assume "udp_proved h \<or> e = Udp_Firewall_Result True \<and> fw_checking s"
  then show "udp_proved (h @ [e])"
  proof
    assume "udp_proved h"
    then obtain h1 h2 s1 where "h @ [e] = h1 @ Udp_Firewall_Result True # (h2 @ [e])"
      "fw_run h1 fw_new = Some s1" "fw_checking s1" by (auto simp: udp_proved_def)
    then show ?thesis unfolding udp_proved_def by blast
  next
    assume "e = Udp_Firewall_Result True \<and> fw_checking s"
    then show ?thesis using assms unfolding udp_proved_def by blast
  qed
qed

definition verdict_inv :: "fw_event list \<Rightarrow> firewall_checker \<Rightarrow> bool" where
  "verdict_inv h s \<longleftrightarrow>
     (0 < tcp_responses_received s \<longleftrightarrow> Tcp_Connect_Back \<in> set (this_cycle h))
     \<and> (Tcp_Connect_Back \<in> set (this_cycle h) \<longrightarrow> tcp_status s = Open)
     \<and> (tcp_status s = Open \<longrightarrow> Tcp_Connect_Back \<in> set h)
     \<and> (udp_firewall_succeeded s \<longrightarrow> udp_status s = Open)
     \<and> (udp_status s = Open \<longleftrightarrow> udp_proved h)"

lemma this_cycle_sub: "set (this_cycle h) \<subseteq> set h"
  unfolding this_cycle_def using set_takeWhileD by fastforce

lemma verdict_step:
  assumes "verdict_inv h s" "fw_run h fw_new = Some s" "fw_step e s = Some s'"
  shows "verdict_inv (h @ [e]) s'"
  using assms this_cycle_sub [of h] unfolding verdict_inv_def udp_proved_snoc [OF assms(2)]
  by (cases e; auto simp: fw_step_defs checked_inc_def dest: evaluate_verdicts
      split: option.splits if_splits)

lemma verdict_run: "fw_run h fw_new = Some s \<Longrightarrow> verdict_inv h s"
proof (induction h arbitrary: s rule: rev_induct)
  case Nil
  then show ?case by (auto simp: verdict_inv_def fw_new_def udp_proved_def)
next
  case (snoc e h)
  then obtain s1 where "fw_run h fw_new = Some s1" "fw_step e s1 = Some s" by (auto simp: fw_run_snoc)
  then show ?case using snoc.IH verdict_step by blast
qed

text \<open>No sequence of fewer than \<open>2 ^ 32\<close> events overflows a counter.\<close>

lemma counters_bound:
  assumes "fw_run h fw_new = Some s"
  shows "tcp_responses_received s \<le> length h \<and> tcp_requests_sent s \<le> length h
    \<and> udp_firewall_responses_received s \<le> length h \<and> udp_requests_sent s \<le> length h"
  using assms
proof (induction h arbitrary: s rule: rev_induct)
  case (snoc e h)
  then obtain s1 where "fw_run h fw_new = Some s1" "fw_step e s1 = Some s" by (auto simp: fw_run_snoc)
  then show ?case using snoc.IH [of s1]
    by (cases e; auto simp: fw_step_defs checked_inc_def split: option.splits if_splits)
qed (simp add: fw_new_def)

lemma firewall_no_panic: "length h < 2 ^ 32 \<Longrightarrow> \<exists>s. fw_run h fw_new = Some s"
proof (induction h rule: rev_induct)
  case (snoc e h)
  then obtain s1 where s1: "fw_run h fw_new = Some s1" by auto
  have "\<exists>s. fw_step e s1 = Some s"
    using counters_bound [OF s1] snoc.prems
    by (cases e) (auto simp: fw_step_defs checked_inc_def split: option.splits if_splits)
  then show ?case using s1 by (auto simp: fw_run_snoc)
qed simp

section \<open>Properties\<close>

text \<open>
  C24: the external address. Whatever events arrive and in whatever order the vote tables are
  enumerated, a confirmed address was reported in the current check cycle by the connected
  server, and is not bogus, or by peers in at least three distinct /24 networks, and is a
  public address. Conversely three networks that agree leave the address confirmed. The
  external port was reported by three distinct /24 networks within one cycle. Fewer than
  \<open>2 ^ 32\<close> events never overflow a counter.
\<close>

theorem external_address_confirmed:
  assumes "fw_run h fw_new = Some s" "\<forall>e \<in> set h. event_ok e"
  shows "(confirmed_external_ip s = Some ip \<longrightarrow>
        Server_High_Id ip \<in> set (this_cycle h) \<and> \<not> is_bogus_v4 ip
        \<or> \<not> is_special_use_v4 ip \<and> 3 \<le> card (voters ip_vote ip (this_cycle h)))
    \<and> (\<not> is_special_use_v4 ip \<and> 3 \<le> card (voters ip_vote ip (this_cycle h)) \<longrightarrow>
        confirmed_external_ip s \<noteq> None)
    \<and> (external_udp_port s = Some port \<longrightarrow> port \<noteq> 0 \<and> (\<exists>h1 h2. h = h1 @ h2
        \<and> 3 \<le> card (voters port_vote port (this_cycle h1))))
    \<and> (length h' < 2 ^ 32 \<longrightarrow> (\<exists>s'. fw_run h' fw_new = Some s'))"
  using address_run [OF assms] port_run [OF assms] firewall_no_panic
  unfolding address_inv_def port_inv_def public_ip_def port_proved_def by blast

text \<open>Three peers of different networks report our address and port.\<close>

definition sample_checks :: "fw_event list" where
  "sample_checks = [Start_Check 100, Tcp_Request_Sent (v4 8 8 8 8),
     Firewalled_Response sorted_list_of_set (v4 81 2 69 160) (v4 8 8 8 8),
     Firewalled_Response sorted_list_of_set (v4 81 2 69 160) (v4 9 9 9 9),
     Firewalled_Response sorted_list_of_set (v4 81 2 69 160) (v4 1 1 1 1),
     Udp_Firewall_Result True]"

lemma sample_checks_ok: "\<forall>e \<in> set sample_checks. event_ok e"
  by (auto simp: sample_checks_def enumerates_def)

theorem external_address_confirmed_witness:
  "\<exists>s. fw_run sample_checks fw_new = Some s \<and> confirmed_external_ip s \<noteq> None"
proof -
  have len: "length sample_checks < 2 ^ 32" by (simp add: sample_checks_def)
  obtain s where s: "fw_run sample_checks fw_new = Some s" using firewall_no_panic [OF len] by blast
  have "\<not> is_special_use_v4 (v4 81 2 69 160)"
    by (simp add: is_special_use_v4_def address_defs) (simp add: v4_def)
  moreover have "voters ip_vote (v4 81 2 69 160) (this_cycle sample_checks) = {(8, 8, 8), (9, 9, 9), (1, 1, 1)}"
    by (auto simp: voters_def this_cycle_def sample_checks_def reporter_net_def)
  ultimately show ?thesis
    using external_address_confirmed [OF s sample_checks_ok, of "v4 81 2 69 160"] s by auto
qed

text \<open>
  C25: the verdicts of the checks. The UDP status is open exactly when a probe succeeded during
  a running cycle, and is never lost. The TCP status is open only after a connect-back, is open
  whenever one arrived in the current cycle, and no event but a LowID note of a server takes it
  back; a note in a new cycle, before a connect-back, does, although an earlier cycle proved
  the port open.
\<close>

theorem firewall_verdicts:
  assumes "fw_run h fw_new = Some s"
  shows "(udp_status s = Open \<longleftrightarrow> (\<exists>h1 h2 s1. h = h1 @ Udp_Firewall_Result True # h2
        \<and> fw_run h1 fw_new = Some s1 \<and> fw_checking s1))
    \<and> (tcp_status s = Open \<longrightarrow> Tcp_Connect_Back \<in> set h)
    \<and> (Tcp_Connect_Back \<in> set (this_cycle h) \<longrightarrow> tcp_status s = Open)
    \<and> (tcp_status s = Open \<and> e \<noteq> Tcp_Firewalled_Note \<and> fw_step e s = Some s' \<longrightarrow> tcp_status s' = Open)
    \<and> tcp_status (note_tcp_firewalled (start_check now s)) = Firewalled"
proof -
  have "verdict_inv h s" by (rule verdict_run [OF assms])
  moreover have "tcp_status s = Open \<and> e \<noteq> Tcp_Firewalled_Note \<and> fw_step e s = Some s' \<longrightarrow> tcp_status s' = Open"
    by (cases e) (auto simp: fw_step_defs evaluate_verdicts split: option.splits if_splits)
  moreover have "tcp_status (note_tcp_firewalled (start_check now s)) = Firewalled"
    by (simp add: note_tcp_firewalled_def start_check_def)
  ultimately show ?thesis unfolding verdict_inv_def udp_proved_def by blast
qed

theorem firewall_verdicts_witness:
  "\<exists>s. fw_run (sample_checks @ [Tcp_Connect_Back]) fw_new = Some s \<and> tcp_status s = Open
     \<and> tcp_status (note_tcp_firewalled (start_check 4000 s)) = Firewalled"
proof -
  have "length (sample_checks @ [Tcp_Connect_Back]) < 2 ^ 32" by (simp add: sample_checks_def)
  then obtain s where s: "fw_run (sample_checks @ [Tcp_Connect_Back]) fw_new = Some s"
    using firewall_no_panic by blast
  have "Tcp_Connect_Back \<in> set (this_cycle (sample_checks @ [Tcp_Connect_Back]))" by simp
  then show ?thesis using firewall_verdicts [OF s] s by blast
qed

end
