(* ===== verification/Spec2Isabelle.thy ===== *)
theory Spec2Isabelle
  imports Kad_Message_Props Search_Props Query_Props Routing_Props Udp_Props Kad_Challenge Kad_Firewall
begin

text \<open>
  Verification of the KAD side of Ember (\<^verbatim>\<open>src-tauri/src/network/kad\<close>), the Kademlia
  network of the client. Paths below are relative to \<^verbatim>\<open>src-tauri/src\<close>.

  \<^bold>\<open>Parts and their interaction.\<close> A contact (\<^verbatim>\<open>KadContact\<close>) carries a 128-bit identifier
  (\<^verbatim>\<open>KadId\<close>), an IPv4 address, ports, a version, a liveness type and a UDP key. Packets
  carry identifiers, contacts and tag lists. Contacts heard of are put in the routing
  table, a binary tree of zones whose leaves are bins of at most ten contacts; before a
  contact is admitted, the policy gate asks the IP filter and the address classes; the
  routing table keeps counters per address and per /24 subnet. Lookups ask the table for
  the contacts nearest to a target, timers probe, drop, split and merge.

  \<^bold>\<open>Theories.\<close>
  \<^item> \<open>Ember_Prelude\<close>: machine integers, saturating counters, little-endian integers, byte
    readers with the error kinds of \<^verbatim>\<open>std::io\<close>, ordered maps, and the locales
    \<open>wire_codec\<close> (a writer and a reader that undo each other) and \<open>guarded_system\<close> (a
    transition system with an invariant). \<open>Utf8\<close>: \<^verbatim>\<open>String::from_utf8_lossy\<close>.
  \<^item> \<open>Kad_Id\<close>, \<open>Kad_Contact\<close>, \<open>Kad_Tag\<close>: \<^verbatim>\<open>network/kad/types.rs\<close>. The identifier
    operations on bytes are proved to be arithmetic on 128-bit words; the contact and tag
    codecs are instances of \<open>wire_codec\<close>.
  \<^item> \<open>Kad_Message\<close>: \<^verbatim>\<open>network/kad/messages.rs\<close>, the message type, one definition per
    branch of \<^verbatim>\<open>decode_message\<close>, the encoder, and the compressed packet format with the
    compression library as a parameter. \<open>Kad_Message_Props\<close>: round trip, well-formedness
    of what is decoded, limits.
  \<^item> \<open>Query_Expr\<close>: the query tree of \<^verbatim>\<open>search/query.rs\<close> with its wire form. \<open>Search_Expr\<close>:
    the constraint builder and the 64-bit scan of \<^verbatim>\<open>network/kad/messages.rs\<close> and the
    expression parser and evaluator of \<^verbatim>\<open>network/kad_search.rs\<close>. \<open>Search_Wire\<close>,
    \<open>Search_Tree\<close> and \<open>Search_Props\<close> show that an indexing node evaluates what the client
    meant, that the scan ends and is exact, and that lookup keywords lose no match.
  \<^item> \<open>Query_Text\<close>: the text of a query, with the keyword splitter of \<^verbatim>\<open>network/kad/publish.rs\<close>
    and the server directives, lexer and boolean parser of \<^verbatim>\<open>search/query.rs\<close>. \<open>Query_Parse\<close>
    shows that parsing ends, with the locale \<open>query_pieces\<close> for what pieces of a query
    inherit, interpreted on valid UTF-8 in \<open>Query_Props\<close>, which holds the round trip between
    trees and their text.
  \<^item> \<open>Flood_Protection\<close>: \<^verbatim>\<open>network/kad/protection.rs\<close>, the rate limits, compressed-packet
    budgets and request tracking of the socket. \<open>Flood_Laws\<close> holds the lemmas on tables,
    eviction and accounting; \<open>Flood_Props\<close> interprets \<open>guarded_system\<close> on it and shows that
    limits hold under every interleaving of calls and that unsolicited responses are refused.
  \<^item> \<open>Kad_Obfuscation\<close>: \<^verbatim>\<open>network/kad/obfuscation.rs\<close>, RC4 and the two datagram formats, with
    their round trips. \<open>Udp_Receive\<close>: the KAD receive path of \<^verbatim>\<open>network/udp.rs\<close> up to the
    dispatch on the message, which composes the filter, the routing table, the flood
    protection, the decoder and the deobfuscation. \<open>Udp_Laws\<close> reads each datagram as a
    sequence of calls of the flood protection; \<open>Udp_Props\<close> states the limits for whole runs.
  \<^item> \<open>Kad_Challenge\<close>: \<^verbatim>\<open>network/kad/legacy_challenge.rs\<close>, the pending address challenges of
    old peers: the table is bounded, and an accepted answer matches the last challenge.
  \<^item> \<open>Kad_Firewall\<close>: \<^verbatim>\<open>network/kad/firewall.rs\<close>, the check cycles that find our external address
    and port and whether they can be reached: what is confirmed has three networks or the
    server behind it, and the verdicts follow from the events.
  \<^item> \<open>Net_Address\<close>: IPv4 classes of \<^verbatim>\<open>security/mod.rs\<close>. \<open>Ip_Filter\<close>:
    \<^verbatim>\<open>network/kad/ip_filter.rs\<close>, its ranges, merging, binary search, edits, snapshots and
    the p2b format, an instance of \<open>guarded_system\<close>. \<open>Dht_Common\<close>: the admission gate of
    \<^verbatim>\<open>network/kad/dht_common.rs\<close>.
  \<^item> \<open>Routing_Bin\<close>, \<open>Routing_Zone\<close>, \<open>Routing_Table\<close>: \<^verbatim>\<open>network/kad/routing.rs\<close>, one
    definition per method. \<open>Routing_Add\<close>, \<open>Routing_Upkeep\<close>, \<open>Routing_Closest\<close>,
    \<open>Routing_Laws\<close>, \<open>Routing_Insert\<close> hold the lemmas on splitting and adding, on timers
    and sweeps, on nearest-contact queries, on counters and on insertion;
    \<open>Routing_Props\<close> interprets \<open>guarded_system\<close> and \<open>policy_evictable\<close> on the table and
    states its properties.

  \<^bold>\<open>Conventions.\<close> State is a record that operations return updated. The clock
  (\<^verbatim>\<open>Instant::now\<close>, \<^verbatim>\<open>Utc::now\<close>) is an argument \<open>now\<close> of each operation, random draws and
  the MD5 digest are arguments too. Counters of type \<^verbatim>\<open>u32\<close> are natural numbers with the
  saturation written out; wire fields and identifiers are words. Errors are values of
  \<open>io_error\<close>. No definition uses fuel: the recursions are structural or have a
  termination proof, and the loops written as partial functions, \<open>scan_loop\<close> and those of
  the query parser, are proved to return. Compression and lower-casing are parameters.

  \<^bold>\<open>Not modelled.\<close> \<^verbatim>\<open>RoutingTable::estimate_count\<close> (floating point), the text formats of
  the IP filter, logging, and the parts of the program listed as not modelled beside this
  library: the eD2k and Ember networks, the event loop, storage, user interface and the
  rendezvous server, which are mostly asynchronous input and output.
\<close>

unbundle bit_operations_syntax

section \<open>Properties that span components\<close>

text \<open>A search request, encoded, perhaps compressed, decoded and parsed by the indexing node.\<close>

lemma search_request_delivered:
  assumes "\<forall>b z. deflate b = Inr z \<longrightarrow>
      (\<exists>cs. zlib z = (cs, None) \<and> [] \<notin> set cs \<and> concat cs = b) \<and> length b \<le> 1032 * length z"
    and "\<forall>s \<in> set (all_terms q). keyword_ok lower s" "constraints_ok c"
    and "length (all_terms q) \<le> 120" "run_depth q \<le> 3"
    and "terms = build_search_expression_with_node (Some (to_wire_bytes q)) c"
    and "length terms \<le> MAX_SEARCH_TERMS_BYTES"
    and "encode_packet deflate (SearchKeyReq t p terms) = Inr pkt"
  shows "decode_packet zlib raw now pkt = Inr (SearchKeyReq t (p AND 0x7FFF) terms)
    \<and> (\<exists>e. parse_kad_search_expression tolow terms = Some e
        \<and> (\<forall>tags. matches_search_expr_for_tags lower tolow e tags \<longleftrightarrow>
             remote_matches q (entry_name lower tags) \<and> constraints_hold lower c tags))"
proof
  have ok: "message_ok (SearchKeyReq t p terms)" using assms(7) by simp
  obtain op body where enc: "encode_message (SearchKeyReq t p terms) = Inr (op # body)"
    and dec: "decode_message now op body = Inr (SearchKeyReq t (p AND 0x7FFF) terms)"
    using decode_encode_message [OF ok, of now] by auto
  have "length body \<le> 18 + length terms"
    using enc by (auto simp: id_write_to_def split: if_splits)
  then have "length body \<le> MIN_PACKED_EXPANSION" using assms(7) by (simp add: packet_limits)
  then show "decode_packet zlib raw now pkt = Inr (SearchKeyReq t (p AND 0x7FFF) terms)"
    using transport_transparent [OF assms(1) enc assms(8)] dec by simp
  show "\<exists>e. parse_kad_search_expression tolow terms = Some e
      \<and> (\<forall>tags. matches_search_expr_for_tags lower tolow e tags \<longleftrightarrow>
           remote_matches q (entry_name lower tags) \<and> constraints_hold lower c tags)"
    using built_expression_parsed [OF assms(2-5), of tolow] assms(6,7) by (simp add: packet_limits)
qed


lemma sample_text_parsed:
  "parse_query (\<lambda>s. s) (ascii ''((linux AND mint) NOT arm)'') = Some (Some sample_query_expr)"
proof -
  have "query_text sample_query_expr = ascii ''((linux AND mint) NOT arm)''"
    by (simp add: sample_query_expr_def ascii_def)
  moreover have "\<forall>t \<in> set (all_terms sample_query_expr). word_ok (\<lambda>s. s) t"
    by (auto simp: sample_query_expr_def word_ok_def is_operator_word_def ascii_def is_letter_def
        intro!: letters_no_breaks)
  moreover have "query_height sample_query_expr \<le> MAX_PARSE_DEPTH"
    by (simp add: sample_query_expr_def MAX_PARSE_DEPTH_def)
  moreover have "length (ascii ''((linux AND mint) NOT arm)'') \<le> MAX_QUERY_BYTES"
    by (simp add: ascii_def MAX_QUERY_BYTES_def)
  ultimately show ?thesis using parse_query_reads [of sample_query_expr "\<lambda>s. s"] by simp
qed


text \<open>
  C8: an obfuscated request is delivered. A peer encodes a request, compressed or not, and
  obfuscates it for us, under our identifier or the verify key we gave it. When KAD is
  connected, the address gate lets its address pass and the rate limits accept the
  datagram, the decompression and the request opcode, the handlers get the request as
  received, the sender's key bound to our public address, and the right verdict on whether
  the sender knew our verify key.
\<close>

theorem obfuscated_request_delivered:
  fixes sender_key receiver_key :: u32
  assumes "\<forall>b z. deflate b = Inr z \<longrightarrow>
      (\<exists>cs. zlib z = (cs, None) \<and> [] \<notin> set cs \<and> concat cs = b) \<and> length b \<le> 1032 * length z"
    and "message_ok m" "encode_packet deflate m = Inr pkt"
    and "\<forall>op body. encode_message m = Inr (op # body) \<longrightarrow> length body \<le> MIN_PACKED_EXPANSION"
    and "request_wire_opcode m = Some op"
    and "if target = zero \<and> receiver_key \<noteq> 0
      then receiver_key = verify_key_for md5 (udp_key_seed s) a else target = my_kad_id s"
    and "kad_connected s" "address_gate (V4 a) s = (True, s1)"
    and "check_rate_limit_with_opcode inow (V4 a) (known_sender inow (V4 a) s1) 0xFF (flood s1) = (False, fl)"
    and "charge_packed inow (V4 a) (pkt ! 1) pkt (s1\<lparr>flood := fl\<rparr>) = (False, s2)"
    and "\<not> fst (recheck_opcode_limit_post_decrypt inow (V4 a) (known_sender inow (V4 a) s1) op (flood s2))"
  shows "fst (receive_kad md5 zlib raw inow unow (V4 a) port
      (encrypt_kad_packet md5 r_key r_pad fill draws pkt target sender_key receiver_key) s)
    = Some (received_as unow m,
        if sender_key \<noteq> 0 then Some (received sender_key (case my_external_ip s of None \<Rightarrow> 0 | Some e \<Rightarrow> e)) else None,
        receiver_key = verify_key_for md5 (udp_key_seed s) a)"
proof -
  let ?data = "encrypt_kad_packet md5 r_key r_pad fill draws pkt target sender_key receiver_key"
  let ?vk = "verify_key_for md5 (udp_key_seed s) a"
  obtain oc body where enc: "encode_message m = Inr (oc # body)"
    and dec: "decode_message unow oc body = Inr (received_as unow m)"
    using decode_encode_message [OF assms(2)] by blast
  have dp: "decode_packet zlib raw unow pkt = Inr (received_as unow m)"
    using transport_transparent [OF assms(1) enc assms(3)] assms(4) enc dec by simp
  note head = encode_packet_head [OF assms(3) enc]
  have key: "if target = zero \<and> receiver_key \<noteq> 0 then ?vk = receiver_key else my_kad_id s = target"
    using assms(6) by (auto split: if_splits)
  note d = decrypt_encrypted [OF head(1,2) key refl, of md5 r_key r_pad fill draws sender_key]
  have vk: "?vk \<noteq> 0" using verify_key_range [of md5 "udp_key_seed s" a] by auto
  have s1: "my_kad_id s1 = my_kad_id s" "my_user_hash s1 = my_user_hash s" "udp_key_seed s1 = udp_key_seed s"
    "my_external_ip s1 = my_external_ip s"
    using assms(8) by (auto split: prod.splits)
  have "\<exists>s'. decode_obfuscated md5 zlib raw inow unow (V4 a) (known_sender inow (V4 a) s1) ?data (s1\<lparr>flood := fl\<rparr>) =
      (Some (received_as unow m, map_option (\<lambda>k. received k (case my_external_ip s of None \<Rightarrow> 0 | Some e \<Rightarrow> e))
        (if sender_key \<noteq> 0 then Some sender_key else None), ?vk \<noteq> 0 \<and> receiver_key = ?vk), s')"
    using decode_obfuscated_request [OF _ head(3) assms(10) dp _ assms(11), of md5 ?data
        "if sender_key \<noteq> 0 then Some sender_key else None" "?vk \<noteq> 0 \<and> receiver_key = ?vk"] d(1) s1 assms(5)
    by simp
  then obtain s' where o: "decode_obfuscated md5 zlib raw inow unow (V4 a) (known_sender inow (V4 a) s1) ?data
      (s1\<lparr>flood := fl\<rparr>) = (Some (received_as unow m,
        map_option (\<lambda>k. received k (case my_external_ip s of None \<Rightarrow> 0 | Some e \<Rightarrow> e))
        (if sender_key \<noteq> 0 then Some sender_key else None), ?vk \<noteq> 0 \<and> receiver_key = ?vk), s')" by blast
  show ?thesis
    using receive_obfuscated [OF d(2,3) assms(7) _ refl _ _, of "V4 a" s1 inow fl md5 zlib raw unow] assms(8,9) o
      request_no_response [of "received_as unow m" op] assms(5) vk by (simp split: if_splits)
qed

theorem obfuscated_request_delivered_witness:
  "fst (receive_kad md5_id sample_inflate sample_inflate 5 9 (V4 (v4 212 63 206 35)) 4672
      (encrypt_kad_packet md5_id 3 2 word_of_nat (\<lambda>_. 0x40) [0xE4, 0x60] (from_u32 1) 77 0)
      (sample_net (flood_new 5)))
    = Some (Ping, Some (received 77 0), False)"
proof -
  let ?s = "sample_net (flood_new 5)" and ?ip = "V4 (v4 212 63 206 35)"
  have codec: "\<forall>b z. sample_deflate b = Inr z \<longrightarrow> (\<exists>cs. sample_inflate z = (cs, None)
      \<and> [] \<notin> set cs \<and> concat cs = b) \<and> length b \<le> 1032 * length z"
    by (rule sample_codec)
  have enc: "encode_packet sample_deflate Ping = Inr [0xE4, 0x60]"
    by (simp add: encode_packet_def max_fragment_for_def opcodes packet_limits Let_def)
  have size: "\<forall>op body. encode_message Ping = Inr (op # body) \<longrightarrow> length body \<le> MIN_PACKED_EXPANSION"
    by (simp add: opcodes)
  have "\<not> is_bogus_v4 (v4 212 63 206 35)"
    using seeds_admissible by (simp add: is_bogus_v4_def is_default_bootstrap_ip_def)
  then have gate: "address_gate ?ip ?s = (True, ?s)"
    by (simp add: sample_net_def is_blocked_readonly_for_kad_def new_filter_def)
  have rate: "\<exists>fl. check_rate_limit_with_opcode 5 ?ip (known_sender 5 ?ip ?s) 0xFF (flood ?s) = (False, fl)
      \<and> opcode_counters fl = []"
    by (simp add: flood_eval sample_net_def)
  then obtain fl where fl: "check_rate_limit_with_opcode 5 ?ip (known_sender 5 ?ip ?s) 0xFF (flood ?s) = (False, fl)"
    "opcode_counters fl = []" by blast
  have packed: "charge_packed 5 ?ip ([0xE4, 0x60] ! 1) [0xE4, 0x60] (?s\<lparr>flood := fl\<rparr>) = (False, ?s\<lparr>flood := fl\<rparr>)"
    by (simp add: charge_packed_def opcodes)
  have recheck: "\<not> fst (recheck_opcode_limit_post_decrypt 5 ?ip (known_sender 5 ?ip ?s) KADEMLIA2_PING
      (flood (?s\<lparr>flood := fl\<rparr>)))"
    using fl(2) by (simp add: recheck_opcode_limit_post_decrypt_def check_opcode_limit_def Let_def flood_consts
        charge_def secs_since_def entry_or_def inc32_def effective_limit_def opcode_limit_def opcodes)
  have "receiver_key = 0 \<Longrightarrow> (if from_u32 1 = zero \<and> receiver_key \<noteq> 0
      then receiver_key = verify_key_for md5_id (udp_key_seed ?s) (v4 212 63 206 35) else from_u32 1 = my_kad_id ?s)"
    for receiver_key :: u32
    by (simp add: sample_net_def)
  then show ?thesis
    using obfuscated_request_delivered [where sender_key = 77 and receiver_key = 0 and target = "from_u32 1"
        and ?md5.0 = md5_id and r_key = 3 and r_pad = 2 and fill = word_of_nat and draws = "\<lambda>_. 0x40"
        and raw = sample_inflate and unow = 9 and port = 4672, OF codec _ enc size _ _ _ gate fl(1) packed recheck]
      verify_key_range [of md5_id "udp_key_seed ?s" "v4 212 63 206 35"]
    by (auto simp: sample_net_def)
qed

end
